(* ===== verification/Simulation.thy ===== *)
theory Simulation
  imports Main
begin

text \<open>
  Runs of a step function and simulations between two of them. The components have a step function each, which says for
  an action and a state whether the action can be taken and what it leads to; a run is a list of actions. A system that
  is built of others simulates them: each of its steps is matched by some steps of the other.
\<close>

section \<open>Runs\<close>

fun exec :: "('a \<Rightarrow> 's \<Rightarrow> 's option) \<Rightarrow> 'a list \<Rightarrow> 's \<Rightarrow> 's option" where
  "exec step [] s = Some s"
| "exec step (a # acts) s = (case step a s of None \<Rightarrow> None | Some t \<Rightarrow> exec step acts t)"

lemma exec_append: "exec step (as @ bs) s = (case exec step as s of None \<Rightarrow> None | Some t \<Rightarrow> exec step bs t)"
  by (induction "as" arbitrary: s) (auto split: option.split)

lemma exec_trans: "exec step as s = Some t \<Longrightarrow> exec step bs t = Some u \<Longrightarrow> exec step (as @ bs) s = Some u"
  by (simp add: exec_append)

lemma exec_single [simp]: "exec step [a] s = step a s"
  by (simp split: option.split)

lemma exec_invariant:
  assumes "exec step acts s = Some t" "P s" "\<And>a u v. a \<in> set acts \<Longrightarrow> P u \<Longrightarrow> step a u = Some v \<Longrightarrow> P v"
  shows "P t"
  using assms
proof (induction acts arbitrary: s)
  case (Cons a acts)
  then obtain u where u: "step a s = Some u" "exec step acts u = Some t" by (auto split: option.splits)
  have "P u" using Cons.prems(3) [of a, OF _ Cons.prems(2) u(1)] by simp
  then show ?case by (rule Cons.IH [OF u(2)]) (auto intro: Cons.prems(3))
qed simp

section \<open>Simulations\<close>

text \<open>\<open>rel\<close> relates the states of the detailed system with those of the other; \<open>matched\<close> says what a step of the first
  requires of the steps that match it.\<close>

locale simulation =
  fixes cstep :: "'a \<Rightarrow> 's \<Rightarrow> 's option"
    and astep :: "'b \<Rightarrow> 't \<Rightarrow> 't option"
    and rel :: "'s \<Rightarrow> 't \<Rightarrow> bool"
    and matched :: "'a \<Rightarrow> 'b list \<Rightarrow> bool"
  assumes sim: "rel s t \<Longrightarrow> cstep a s = Some s' \<Longrightarrow> \<exists>bs t'. exec astep bs t = Some t' \<and> rel s' t' \<and> matched a bs"
begin

text \<open>Runs are matched by runs, the steps of each action in its place.\<close>

lemma run:
  "exec cstep acts s = Some s' \<Longrightarrow> rel s t \<Longrightarrow>
   \<exists>bss t'. exec astep (concat bss) t = Some t' \<and> rel s' t' \<and> list_all2 matched acts bss"
proof (induction acts arbitrary: s t)
  case Nil
  then show ?case by (intro exI [of _ "[]"]) simp
next
  case (Cons a acts)
  then obtain u where u: "cstep a s = Some u" "exec cstep acts u = Some s'" by (auto split: option.splits)
  obtain bs v where v: "exec astep bs t = Some v" "rel u v" "matched a bs" using sim [OF Cons.prems(2) u(1)] by blast
  obtain bss t' where "exec astep (concat bss) v = Some t'" "rel s' t'" "list_all2 matched acts bss"
    using Cons.IH [OF u(2) v(2)] by blast
  then show ?case using v exec_trans [OF v(1)] by (intro exI [of _ "bs # bss"]) auto
qed

text \<open>So what is true of every state that the other reaches carries over.\<close>

lemma transfer:
  assumes "exec cstep acts s = Some s'" "rel s t" "\<And>bs t'. exec astep bs t = Some t' \<Longrightarrow> P t'"
  shows "\<exists>t'. rel s' t' \<and> P t'"
  using run [OF assms(1,2)] assms(3) by blast

end

end
