(* ===== verification/Prelude.thy ===== *)
theory Prelude
  imports Main "HOL-Library.Word"
begin

text \<open>
  Shared vocabulary of the development: the integer types of Go that the program uses, the
  results of fallible Go functions, and the generic list and map lemmas the components share.

  \<^item> \<open>uint64\<close> is \<open>64 word\<close>, whose arithmetic wraps as Go's does;
  \<^item> \<open>int64\<close> (and Go's \<open>int\<close>, which is 64 bits wide) is \<open>int\<close>; wherever the source computes
    with such a value the wrap-around is written out with \<open>i64\<close>;
  \<^item> a \<open>time.Duration\<close> is an \<open>int64\<close> count of nanoseconds, a \<open>time.Time\<close> an instant
    in nanoseconds; the clock is read by passing the instant as an argument;
  \<^item> \<open>(T, error)\<close> and \<open>mo.Result[T]\<close> are \<open>error + 'a\<close>; code that can panic returns an
    \<open>outcome\<close>, so that a panic is a value;
  \<^item> \<open>mo.Option[T]\<close> is \<open>'a option\<close>; a Go map that is only looked up and stored into is
    \<open>'k \<rightharpoonup> 'v\<close>; one that is ranged over is an association list, whose order is the
    iteration order that Go leaves open.
\<close>

section \<open>Named collections\<close>

named_theorems go_defs \<open>definitional equations of the operations, for case analysis\<close>
named_theorems inv_intros \<open>preservation lemmas of the component invariants\<close>

section \<open>Integers\<close>

type_synonym uint64 = "64 word"
type_synonym int64 = int
type_synonym duration = int
type_synonym time = int

definition i64 :: "int \<Rightarrow> int" where
  "i64 x = (x + 2 ^ 63) mod 2 ^ 64 - 2 ^ 63"

definition is_i64 :: "int \<Rightarrow> bool" where
  "is_i64 x \<longleftrightarrow> - (2 ^ 63) \<le> x \<and> x < 2 ^ 63"

lemma i64_id: "is_i64 x \<Longrightarrow> i64 x = x"
  by (simp add: i64_def is_i64_def)

lemma is_i64_i64 [simp]: "is_i64 (i64 x)"
proof -
  have "0 \<le> (x + 2 ^ 63) mod 2 ^ 64" "(x + 2 ^ 63) mod 2 ^ 64 < (2::int) ^ 64"
    by (rule pos_mod_sign, simp) (rule pos_mod_bound, simp)
  then show ?thesis by (simp add: i64_def is_i64_def)
qed

lemma i64_idem [simp]: "i64 (i64 x) = i64 x"
  by (rule i64_id) simp

section \<open>Results that may panic\<close>

datatype panic_kind = IndexOutOfRange | SliceOutOfRange | NilDereference

datatype ('e, 'a) outcome = Ok 'a | Err 'e | Panic panic_kind

fun no_panic :: "('e, 'a) outcome \<Rightarrow> bool" where
  "no_panic (Panic _) = False"
| "no_panic _ = True"

fun bind_outcome :: "('e, 'a) outcome \<Rightarrow> ('a \<Rightarrow> ('e, 'b) outcome) \<Rightarrow> ('e, 'b) outcome" where
  "bind_outcome (Ok a) f = f a"
| "bind_outcome (Err e) f = Err e"
| "bind_outcome (Panic p) f = Panic p"

lemma bind_outcome_Ok: "bind_outcome m f = Ok b \<longleftrightarrow> (\<exists>a. m = Ok a \<and> f a = Ok b)"
  by (cases m) auto

lemma bind_outcome_Panic:
  "bind_outcome m f = Panic p \<longleftrightarrow> m = Panic p \<or> (\<exists>a. m = Ok a \<and> f a = Panic p)"
  by (cases m) auto

lemma no_panic_iff: "no_panic m \<longleftrightarrow> (\<forall>p. m \<noteq> Panic p)"
  by (cases m) auto

section \<open>Errors as sums\<close>

text \<open>\<open>if err != nil { return err }\<close>, in sequence.\<close>

definition bind_sum :: "'e + 'a \<Rightarrow> ('a \<Rightarrow> 'e + 'b) \<Rightarrow> 'e + 'b" where
  "bind_sum r f = (case r of Inl e \<Rightarrow> Inl e | Inr x \<Rightarrow> f x)"

lemma bind_sum_simps [simp]: "bind_sum (Inl e) f = Inl e" "bind_sum (Inr x) f = f x"
  by (simp_all add: bind_sum_def)

lemma bind_sum_Inr: "bind_sum r f = Inr y \<longleftrightarrow> (\<exists>x. r = Inr x \<and> f x = Inr y)"
  by (cases r) simp_all

section \<open>Lists and maps\<close>

text \<open>Keeping the last \<open>n\<close> elements, as the Go slice \<open>xs[len(xs)-n:]\<close> does.\<close>

definition last_n :: "nat \<Rightarrow> 'a list \<Rightarrow> 'a list" where
  "last_n n xs = drop (length xs - n) xs"

lemma length_last_n [simp]: "length (last_n n xs) = min n (length xs)"
  by (simp add: last_n_def)

lemma set_last_n: "set (last_n n xs) \<subseteq> set xs"
  by (simp add: last_n_def set_drop_subset)

lemma list_all_filter_id: "list_all P xs \<Longrightarrow> filter P xs = xs"
  by (induction xs) auto

lemma filter_filter_mono: "(\<And>x. P x \<Longrightarrow> Q x) \<Longrightarrow> filter P (filter Q xs) = filter P xs"
  by (induction xs) auto

lemma map_of_distinct_keys:
  "distinct (map fst kvs) \<Longrightarrow> (k, v) \<in> set kvs \<longleftrightarrow> map_of kvs k = Some v"
  by (auto dest: map_of_SomeD)

end
