(* ===== verification/Go_Float.thy ===== *)
theory Go_Float
  imports Prelude "HOL-Library.Log_Nat"
begin

text \<open>
  Go's \<open>float64\<close>: IEEE 754 binary64 values as their 64 bits. The lower 63 bits, read as a
  number, are the index of a magnitude: indices grow with the magnitude, \<open>inf_idx\<close> is
  infinity and everything above it is a NaN. A finite magnitude is the natural number
  \<open>f64_mag\<close> of units of \<open>2 ^ -1074\<close>, so arithmetic is exact arithmetic on naturals followed
  by one rounding to nearest, ties to even (\<open>round_idx\<close>), as Go's operators do. No operation
  here is partial: overflow gives an infinity, invalid operations give a NaN.
\<close>

text \<open>Code equations for \<open>bitlen\<close> that read the binary numeral instead of dividing by two.\<close>

primrec num_len :: "num \<Rightarrow> int" where
  "num_len num.One = 1"
| "num_len (num.Bit0 n) = num_len n + 1"
| "num_len (num.Bit1 n) = num_len n + 1"

lemma bitlen_numeral: "bitlen (numeral n) = num_len n"
proof (induction n)
  case One
  show ?case by (simp add: compute_bitlen)
next
  case (Bit0 n)
  then show ?case by (subst compute_bitlen) simp
next
  case (Bit1 n)
  then show ?case by (subst compute_bitlen) simp
qed

declare compute_bitlen [code del]

lemma bitlen_code [code]:
  "bitlen 0 = 0" "bitlen (Int.Pos n) = num_len n" "bitlen (Int.Neg n) = 0"
  by (simp_all add: bitlen_numeral bitlen_eq_zero_iff)

section \<open>Bits, sign, magnitude\<close>

datatype float64 = Float64 (f64_bits: "64 word")

definition inf_idx :: int where
  "inf_idx = 2047 * 2 ^ 52"

definition f64_neg :: "float64 \<Rightarrow> bool" where
  "f64_neg x \<longleftrightarrow> 2 ^ 63 \<le> uint (f64_bits x)"

definition f64_idx :: "float64 \<Rightarrow> int" where
  "f64_idx x = uint (f64_bits x) mod 2 ^ 63"

definition mk_f64 :: "bool \<Rightarrow> int \<Rightarrow> float64" where
  "mk_f64 s i = Float64 (word_of_int ((if s then 2 ^ 63 else 0) + i mod 2 ^ 63))"

definition f64_NaN :: float64 where
  "f64_NaN = Float64 0x7FF8000000000001"

definition f64_Inf :: "bool \<Rightarrow> float64" where
  "f64_Inf s = mk_f64 s inf_idx"

definition f64_is_nan :: "float64 \<Rightarrow> bool" where
  "f64_is_nan x \<longleftrightarrow> inf_idx < f64_idx x"

definition f64_is_inf :: "float64 \<Rightarrow> bool" where
  "f64_is_inf x \<longleftrightarrow> f64_idx x = inf_idx"

definition f64_finite :: "float64 \<Rightarrow> bool" where
  "f64_finite x \<longleftrightarrow> f64_idx x < inf_idx"

definition mag_of_idx :: "int \<Rightarrow> int" where
  "mag_of_idx i = (let e = i div 2 ^ 52; f = i mod 2 ^ 52
                   in if e = 0 then f else (2 ^ 52 + f) * 2 ^ nat (e - 1))"

definition f64_mag :: "float64 \<Rightarrow> int" where
  "f64_mag x = mag_of_idx (f64_idx x)"

lemma f64_idx_less: "f64_idx x < 2 ^ 63"
  by (simp add: f64_idx_def)

lemma f64_idx_nonneg [simp]: "0 \<le> f64_idx x"
  by (simp add: f64_idx_def)

lemma inf_idx_less: "inf_idx < 2 ^ 63"
  by (simp add: inf_idx_def)

lemma inf_idx_pos [simp]: "0 < inf_idx"
  by (simp add: inf_idx_def)

lemma inf_idx_nonneg [simp]: "0 \<le> inf_idx"
  by (simp add: inf_idx_def)

lemma inf_idx_nonzero [simp]: "inf_idx \<noteq> 0" "0 \<noteq> inf_idx"
  by (simp_all add: inf_idx_def)

lemma mk_f64_uint: "uint (f64_bits (mk_f64 s i)) = (if s then 2 ^ 63 else 0) + i mod 2 ^ 63"
proof -
  have "i mod 2 ^ 63 < (2::int) ^ 63" "0 \<le> i mod (2::int) ^ 63" by simp_all
  then have "(if s then 2 ^ 63 else 0) + i mod 2 ^ 63 < (2::int) ^ 64"
    "0 \<le> (if s then 2 ^ 63 else 0) + i mod (2::int) ^ 63" by (cases s; auto)+
  moreover have "uint (word_of_int n :: 64 word) = n" if "n < 2 ^ 64" "0 \<le> n" for n
    using that by (simp add: uint_word_of_int)
  ultimately show ?thesis unfolding mk_f64_def float64.sel by blast
qed

lemma f64_neg_mk [simp]: "f64_neg (mk_f64 s i) = s"
proof -
  have "i mod 2 ^ 63 < (2::int) ^ 63" "0 \<le> i mod (2::int) ^ 63" by simp_all
  then show ?thesis unfolding f64_neg_def mk_f64_uint by (cases s) auto
qed

lemma f64_idx_mk: "f64_idx (mk_f64 s i) = i mod 2 ^ 63"
  by (simp add: f64_idx_def mk_f64_uint)

lemma f64_idx_mk_le [simp]: "0 \<le> i \<Longrightarrow> i \<le> inf_idx \<Longrightarrow> f64_idx (mk_f64 s i) = i"
  using inf_idx_less by (simp add: f64_idx_mk)

lemma mk_f64_collapse [simp]: "mk_f64 (f64_neg x) (f64_idx x) = x"
proof -
  define u where "u = uint (f64_bits x)"
  have u: "0 \<le> u" "u < 2 ^ 64"
    using unsigned_less [of "f64_bits x"] by (simp_all add: u_def)
  have "(if f64_neg x then 2 ^ 63 else 0) + f64_idx x mod 2 ^ 63 = u"
  proof (cases "2 ^ 63 \<le> u")
    case True
    then have "(u - 2 ^ 63) mod 2 ^ 63 = u - 2 ^ 63"
      using u by (intro mod_pos_pos_trivial) auto
    then have "u mod 2 ^ 63 = u - 2 ^ 63" by simp
    with True show ?thesis by (simp add: f64_neg_def f64_idx_def flip: u_def)
  next
    case False
    with u show ?thesis by (simp add: f64_neg_def f64_idx_def flip: u_def)
  qed
  then have "mk_f64 (f64_neg x) (f64_idx x) = Float64 (word_of_int u)"
    unfolding mk_f64_def by simp
  then show ?thesis by (simp add: u_def)
qed

lemma f64_eqI:
  assumes "f64_neg x = f64_neg y" and "f64_idx x = f64_idx y"
  shows "x = y"
proof -
  have "x = mk_f64 (f64_neg x) (f64_idx x)" by simp
  also have "\<dots> = mk_f64 (f64_neg y) (f64_idx y)" by (simp only: assms)
  finally show ?thesis by simp
qed

section \<open>Rounding to nearest, ties to even\<close>

definition half_even :: "int \<Rightarrow> int \<Rightarrow> int" where
  "half_even n d = (let q = n div d; r = n mod d
                    in if 2 * r > d \<or> (2 * r = d \<and> odd q) then q + 1 else q)"

text \<open>The index of the float nearest to \<open>n / d\<close> units; it exceeds \<open>inf_idx\<close> on overflow.\<close>

definition round_idx :: "int \<Rightarrow> int \<Rightarrow> int" where
  "round_idx n d =
     (let q = n div d; k = (if q < 2 ^ 53 then 0 else nat (bitlen q - 53))
      in int k * 2 ^ 52 + half_even n (d * 2 ^ k))"

definition f64_round :: "bool \<Rightarrow> int \<Rightarrow> int \<Rightarrow> float64" where
  "f64_round s n d = mk_f64 s (min inf_idx (round_idx n d))"

lemma half_even_exact [simp]: "0 < d \<Longrightarrow> half_even (q * d) d = q"
  by (simp add: half_even_def)

lemma half_even_nonneg: "0 \<le> n \<Longrightarrow> 0 < d \<Longrightarrow> 0 \<le> half_even n d"
  by (simp add: half_even_def Let_def pos_imp_zdiv_nonneg_iff)

lemma round_idx_nonneg: "0 \<le> n \<Longrightarrow> 0 < d \<Longrightarrow> 0 \<le> round_idx n d"
  by (simp add: round_idx_def Let_def half_even_nonneg)

lemma bitlen_mult_power:
  assumes "2 ^ 52 \<le> m" and "m < 2 ^ 53"
  shows "bitlen (m * 2 ^ k) = 53 + int k"
proof -
  have "bitlen m \<le> 53" using assms by (simp add: bitlen_le_iff_power)
  moreover have "53 \<le> bitlen m" using assms by (simp add: bitlen_ge_iff_power)
  ultimately show ?thesis using assms(1) by (simp add: bitlen_pow2)
qed

lemma mag_of_idx_nonneg [simp]: "0 \<le> i \<Longrightarrow> 0 \<le> mag_of_idx i"
  by (simp add: mag_of_idx_def Let_def)

lemma f64_mag_nonneg [simp]: "0 \<le> f64_mag x"
  by (simp add: f64_mag_def)

text \<open>Rounding a value that is a float returns that float, whatever the denominator.\<close>

lemma round_idx_mag:
  assumes "0 < d" and "0 \<le> i"
  shows "round_idx (mag_of_idx i * d) d = i"
proof -
  define e f where "e = i div 2 ^ 52" and "f = i mod (2::int) ^ 52"
  have i: "i = e * 2 ^ 52 + f" and f: "0 \<le> f" "f < 2 ^ 52" and e0: "0 \<le> e"
    using assms(2) by (simp_all add: e_def f_def pos_imp_zdiv_nonneg_iff)
  have mag: "mag_of_idx i = (if e = 0 then f else (2 ^ 52 + f) * 2 ^ nat (e - 1))"
    by (simp add: mag_of_idx_def e_def f_def Let_def)
  consider (sub) "e = 0 \<or> e = 1" | (norm) "2 \<le> e" using e0 by linarith
  then show ?thesis
  proof cases
    case sub
    then have "mag_of_idx i = i" and "i < 2 ^ 53"
      using mag i f by auto
    then show ?thesis
      using assms by (simp add: round_idx_def Let_def)
  next
    case norm
    define m k where "m = 2 ^ 52 + f" and "k = nat (e - 1)"
    have m: "2 ^ 52 \<le> m" "m < 2 ^ 53" using f by (simp_all add: m_def)
    have mag': "mag_of_idx i = m * 2 ^ k" using norm mag by (simp add: m_def k_def)
    have k: "1 \<le> k" "int k = e - 1" using norm by (simp_all add: k_def)
    have "(2::int) ^ 1 \<le> 2 ^ k" using k(1) by (intro power_increasing) auto
    then have "(2::int) ^ 52 * 2 \<le> m * 2 ^ k"
      using m(1) by (intro mult_mono) auto
    then have big: "\<not> m * 2 ^ k < 2 ^ 53" by simp
    have b: "nat (bitlen (m * 2 ^ k) - 53) = k"
      using bitlen_mult_power [OF m] by simp
    have "half_even (m * 2 ^ k * d) (d * 2 ^ k) = m"
      using half_even_exact [of "d * 2 ^ k" m] assms by (simp add: ac_simps)
    then have "round_idx (mag_of_idx i * d) d = int k * 2 ^ 52 + m"
      unfolding round_idx_def Let_def mag' using assms big b by simp
    also have "\<dots> = i" using i by (simp add: m_def k(2) algebra_simps)
    finally show ?thesis .
  qed
qed

lemma f64_round_mag:
  assumes "0 < d" and "f64_idx x \<le> inf_idx"
  shows "f64_round (f64_neg x) (f64_mag x * d) d = x"
  using assms by (simp add: f64_round_def f64_mag_def round_idx_mag min_absorb2)

text \<open>Only the quotient of the two arguments matters.\<close>

lemma half_even_scale: "0 < c \<Longrightarrow> half_even (n * c) (d * c) = half_even n d"
  by (auto simp: half_even_def Let_def)

lemma round_idx_scale: "0 < c \<Longrightarrow> round_idx (n * c) (d * c) = round_idx n d"
  using half_even_scale [of c n "d * 2 ^ k" for k]
  by (simp add: round_idx_def Let_def mult.assoc mult.left_commute mult.commute [of c])

text \<open>For evaluation: rounding drops bits of the quotient instead of dividing twice.\<close>

lemma mult_add_cmp:
  assumes "0 \<le> r" "r < (d::int)"
  shows "d * h < d * m + r \<longleftrightarrow> h < m \<or> (h = m \<and> 0 < r)"
    and "d * m + r = d * h \<longleftrightarrow> m = h \<and> r = 0"
proof -
  have d: "0 < d" using assms by simp
  have lt: "d * m + r < d * h" if "m < h"
  proof -
    have "d * (m + 1) \<le> d * h" using that d by (intro mult_left_mono) auto
    then show ?thesis using assms by (simp add: algebra_simps)
  qed
  have gt: "d * h < d * m + r" if "h < m"
  proof -
    have "d * h < d * m" using that d by simp
    then show ?thesis using assms(1) by linarith
  qed
  show "d * h < d * m + r \<longleftrightarrow> h < m \<or> (h = m \<and> 0 < r)"
    using lt gt assms by (cases m h rule: linorder_cases) auto
  show "d * m + r = d * h \<longleftrightarrow> m = h \<and> r = 0"
    using lt gt assms by (cases m h rule: linorder_cases) auto
qed

lemma half_even_shift:
  assumes "0 < d"
  shows "half_even n (d * 2 ^ Suc k) =
    (let q = n div d; q1 = drop_bit (Suc k) q; r = take_bit (Suc k) q; h = 2 ^ k
     in if h < r \<or> (h = r \<and> (n mod d \<noteq> 0 \<or> odd q1)) then q1 + 1 else q1)"
proof -
  define q m where "q = n div d" and "m = n mod d"
  have m: "0 \<le> m" "m < d" using assms by (simp_all add: m_def)
  have "n mod (d * 2 ^ Suc k) = d * take_bit (Suc k) q + m"
    using assms by (simp add: zmod_zmult2_eq take_bit_eq_mod q_def m_def)
  moreover have "n div (d * 2 ^ Suc k) = drop_bit (Suc k) q"
    using assms by (simp add: zdiv_zmult2_eq drop_bit_eq_div q_def)
  moreover have P: "d * 2 ^ Suc k = 2 * (d * 2 ^ k)" by simp
  moreover have "d * 2 ^ Suc k < 2 * (d * r + m) \<longleftrightarrow> 2 ^ k < r \<or> (2 ^ k = r \<and> 0 < m)" for r
    unfolding P mult_less_cancel_left_pos [OF zero_less_numeral]
    by (rule mult_add_cmp(1) [OF m])
  moreover have "2 * (d * r + m) = d * 2 ^ Suc k \<longleftrightarrow> r = 2 ^ k \<and> m = 0" for r
    unfolding P using mult_add_cmp(2) [OF m, of r "2 ^ k"] by auto
  ultimately show ?thesis
    using m unfolding half_even_def Let_def q_def [symmetric] m_def [symmetric]
    by (simp only:) (auto simp: neq_iff)
qed

lemma round_idx_code [code]:
  "round_idx n d =
     (let q = n div d; b = bitlen q in
      if q < 2 ^ 53 then half_even n d
      else let k = nat (b - 54) in
        (b - 53) * 2 ^ 52 +
        (if d \<le> 0 then half_even n (d * 2 ^ Suc k)
         else let q1 = drop_bit (Suc k) q; r = take_bit (Suc k) q; h = 2 ^ k
              in if h < r \<or> (h = r \<and> (n mod d \<noteq> 0 \<or> odd q1)) then q1 + 1 else q1))"
proof (cases "n div d < 2 ^ 53")
  case True
  then show ?thesis by (simp add: round_idx_def Let_def)
next
  case False
  then have b: "54 \<le> bitlen (n div d)" by (simp add: bitlen_ge_iff_power)
  then have k: "nat (bitlen (n div d) - 53) = Suc (nat (bitlen (n div d) - 54))" by simp
  then have k': "int (Suc (nat (bitlen (n div d) - 54))) = bitlen (n div d) - 53"
    using b by simp
  show ?thesis
    using False half_even_shift [of d n "nat (bitlen (n div d) - 54)"]
    unfolding round_idx_def Let_def k k' by (simp only: if_False not_le k') (simp split: if_split)
qed
section \<open>Comparison\<close>

text \<open>Go's \<open><\<close> and \<open><=\<close> are false as soon as an operand is a NaN; \<open>-0\<close> equals \<open>0\<close>.\<close>

definition f64_key :: "float64 \<Rightarrow> int" where
  "f64_key x = (if f64_neg x then - f64_idx x else f64_idx x)"

instantiation float64 :: ord
begin

definition less_eq_float64 :: "float64 \<Rightarrow> float64 \<Rightarrow> bool" where
  "x \<le> y \<longleftrightarrow> \<not> f64_is_nan x \<and> \<not> f64_is_nan y \<and> f64_key x \<le> f64_key y"

definition less_float64 :: "float64 \<Rightarrow> float64 \<Rightarrow> bool" where
  "x < y \<longleftrightarrow> \<not> f64_is_nan x \<and> \<not> f64_is_nan y \<and> f64_key x < f64_key y"

instance ..

end

lemma f64_not_less:
  "\<not> f64_is_nan x \<Longrightarrow> \<not> f64_is_nan y \<Longrightarrow> \<not> x < y \<longleftrightarrow> y \<le> (x::float64)"
  by (auto simp: less_eq_float64_def less_float64_def)

lemma f64_less_imp_le: "x < y \<Longrightarrow> x \<le> (y::float64)"
  by (simp add: less_eq_float64_def less_float64_def)

lemma f64_order_no_nan: "x < y \<Longrightarrow> \<not> f64_is_nan x \<and> \<not> f64_is_nan (y::float64)"
  by (simp add: less_float64_def)

text \<open>Indices order magnitudes, so comparing keys compares the numbers denoted.\<close>

lemma mag_of_idx_Suc:
  assumes "0 \<le> i"
  shows "mag_of_idx i < mag_of_idx (i + 1)"
proof -
  define e f where "e = i div 2 ^ 52" and "f = i mod (2::int) ^ 52"
  have i: "i = e * 2 ^ 52 + f" and f: "0 \<le> f" "f < 2 ^ 52" and e0: "0 \<le> e"
    using assms by (simp_all add: e_def f_def pos_imp_zdiv_nonneg_iff)
  have m: "mag_of_idx i = (if e = 0 then f else (2 ^ 52 + f) * 2 ^ nat (e - 1))"
    by (simp add: mag_of_idx_def e_def f_def Let_def)
  show ?thesis
  proof (cases "f + 1 = 2 ^ 52")
    case True
    then have "i + 1 = (e + 1) * 2 ^ 52" using i by simp
    then have "mag_of_idx (i + 1) = 2 ^ 52 * 2 ^ nat e"
      using e0 by (simp add: mag_of_idx_def Let_def)
    moreover have "2 ^ nat e = 2 * (2::int) ^ nat (e - 1)" if "e \<noteq> 0"
      using that e0 by (simp flip: power_Suc add: Suc_nat_eq_nat_zadd1)
    ultimately show ?thesis using m f by auto
  next
    case False
    then have "(i + 1) div 2 ^ 52 = e" "(i + 1) mod 2 ^ 52 = f + 1"
      using i f by (simp_all add: div_pos_pos_trivial mod_pos_pos_trivial add.assoc)
    then have "mag_of_idx (i + 1) = (if e = 0 then f + 1 else (2 ^ 52 + (f + 1)) * 2 ^ nat (e - 1))"
      by (simp add: mag_of_idx_def Let_def)
    then show ?thesis using m by auto
  qed
qed

lemma mag_of_idx_less:
  assumes "0 \<le> i" and "i < j"
  shows "mag_of_idx i < mag_of_idx j"
  using assms(2)
proof (induction j rule: int_gr_induct)
  case base
  show ?case using assms(1) by (rule mag_of_idx_Suc)
next
  case (step j)
  then show ?case using mag_of_idx_Suc [of j] assms(1) by simp
qed

lemma mag_of_idx_less_iff:
  "0 \<le> i \<Longrightarrow> 0 \<le> j \<Longrightarrow> mag_of_idx i < mag_of_idx j \<longleftrightarrow> i < j"
  using mag_of_idx_less [of i j] mag_of_idx_less [of j i] by (cases i j rule: linorder_cases) auto

lemma mag_of_idx_0 [simp]: "mag_of_idx 0 = 0"
  by (simp add: mag_of_idx_def)

definition f64_val :: "float64 \<Rightarrow> int" where
  "f64_val x = (if f64_neg x then - f64_mag x else f64_mag x)"

lemma signed_less_iff:
  assumes "0 \<le> a" and "0 \<le> (b::int)"
  shows "(if s then - a else a) < (if t then - b else b) \<longleftrightarrow>
    (if s then (if t then b < a else 0 < a \<or> 0 < b) else \<not> t \<and> a < b)"
  using assms by (cases s; cases t) auto

lemma f64_key_less_iff: "f64_key x < f64_key y \<longleftrightarrow> f64_val x < f64_val y"
proof -
  have pos: "0 < mag_of_idx i \<longleftrightarrow> 0 < i" if "0 \<le> i" for i
    using mag_of_idx_less_iff [of 0 i] that by simp
  show ?thesis
    unfolding f64_key_def f64_val_def f64_mag_def
    by (simp only: signed_less_iff f64_idx_nonneg mag_of_idx_nonneg mag_of_idx_less_iff pos)
qed

lemma f64_less_iff_val:
  "f64_finite x \<Longrightarrow> f64_finite y \<Longrightarrow> x < y \<longleftrightarrow> f64_val x < f64_val y"
  by (simp add: less_float64_def f64_is_nan_def f64_finite_def f64_key_less_iff)

section \<open>Conversions and arithmetic\<close>

definition f64_of_int :: "int \<Rightarrow> float64" where
  "f64_of_int z = f64_round (z < 0) (\<bar>z\<bar> * 2 ^ 1074) 1"

text \<open>The integer part, as a conversion \<open>uint64(x)\<close> or \<open>int64(x)\<close> in range computes it.\<close>

definition f64_trunc :: "float64 \<Rightarrow> int" where
  "f64_trunc x = (if f64_neg x then -1 else 1) * (f64_mag x div 2 ^ 1074)"

instantiation float64 :: times
begin

definition times_float64 :: "float64 \<Rightarrow> float64 \<Rightarrow> float64" where
  "x * y =
     (let s = (f64_neg x \<noteq> f64_neg y) in
      if f64_is_nan x \<or> f64_is_nan y then f64_NaN
      else if f64_is_inf x \<or> f64_is_inf y
      then (if f64_idx x = 0 \<or> f64_idx y = 0 then f64_NaN else f64_Inf s)
      else f64_round s (f64_mag x * f64_mag y) (2 ^ 1074))"

instance ..

end

definition f64_div :: "float64 \<Rightarrow> float64 \<Rightarrow> float64" where
  "f64_div x y =
     (let s = (f64_neg x \<noteq> f64_neg y) in
      if f64_is_nan x \<or> f64_is_nan y then f64_NaN
      else if f64_is_inf x then (if f64_is_inf y then f64_NaN else f64_Inf s)
      else if f64_is_inf y then mk_f64 s 0
      else if f64_idx y = 0 then (if f64_idx x = 0 then f64_NaN else f64_Inf s)
      else f64_round s (f64_mag x * 2 ^ 1074) (f64_mag y))"

text \<open>
  For evaluation: mantissa and exponent, so that products and quotients stay small.
\<close>

definition man_of_idx :: "int \<Rightarrow> int" where
  "man_of_idx i = (if i div 2 ^ 52 = 0 then i mod 2 ^ 52 else 2 ^ 52 + i mod 2 ^ 52)"

definition exp_of_idx :: "int \<Rightarrow> nat" where
  "exp_of_idx i = nat (i div 2 ^ 52 - 1)"

definition scaled_idx :: "int \<Rightarrow> int \<Rightarrow> int \<Rightarrow> int" where
  "scaled_idx n d k = (if 0 \<le> k then round_idx (n * 2 ^ nat k) d
                       else round_idx n (d * 2 ^ nat (- k)))"

definition scaled_round :: "bool \<Rightarrow> int \<Rightarrow> int \<Rightarrow> int \<Rightarrow> float64" where
  "scaled_round s n d k = mk_f64 s (min inf_idx (scaled_idx n d k))"

lemma mag_eq_man_exp: "0 \<le> i \<Longrightarrow> mag_of_idx i = man_of_idx i * 2 ^ exp_of_idx i"
  by (simp add: mag_of_idx_def man_of_idx_def exp_of_idx_def Let_def)

lemma scaled_idx_eq:
  assumes k: "int a - int b = k"
  shows "round_idx (n * 2 ^ a) (d * 2 ^ b) = scaled_idx n d k"
proof (cases "0 \<le> k")
  case True
  then have "a = nat k + b" using k by simp
  then have e: "n * 2 ^ a = (n * 2 ^ nat k) * 2 ^ b" by (simp only: power_add mult.assoc)
  show ?thesis
    unfolding e by (subst round_idx_scale) (use True in \<open>simp_all add: scaled_idx_def\<close>)
next
  case False
  then have "b = nat (- k) + a" using k by simp
  then have e: "d * 2 ^ b = (d * 2 ^ nat (- k)) * 2 ^ a" by (simp only: power_add mult.assoc)
  show ?thesis
    unfolding e by (subst round_idx_scale) (use False in \<open>simp_all add: scaled_idx_def\<close>)
qed

lemma scaled_round_eq:
  "int a - int b = k \<Longrightarrow> f64_round s (n * 2 ^ a) (d * 2 ^ b) = scaled_round s n d k"
  by (simp only: f64_round_def scaled_round_def scaled_idx_eq)

lemma f64_round_mult_code:
  "f64_round s (f64_mag x * f64_mag y) (2 ^ 1074) =
     scaled_round s (man_of_idx (f64_idx x) * man_of_idx (f64_idx y)) 1
       (int (exp_of_idx (f64_idx x)) + int (exp_of_idx (f64_idx y)) - 1074)"
  using scaled_round_eq [of "exp_of_idx (f64_idx x) + exp_of_idx (f64_idx y)" 1074 _ s
      "man_of_idx (f64_idx x) * man_of_idx (f64_idx y)" 1]
  by (simp add: f64_mag_def mag_eq_man_exp power_add ac_simps)

lemma f64_round_div_code:
  "f64_round s (f64_mag x * 2 ^ 1074) (f64_mag y) =
     scaled_round s (man_of_idx (f64_idx x)) (man_of_idx (f64_idx y))
       (int (exp_of_idx (f64_idx x)) + 1074 - int (exp_of_idx (f64_idx y)))"
  using scaled_round_eq [of "exp_of_idx (f64_idx x) + 1074" "exp_of_idx (f64_idx y)" _ s
      "man_of_idx (f64_idx x)" "man_of_idx (f64_idx y)"]
  by (simp add: f64_mag_def mag_eq_man_exp power_add ac_simps)

lemma bitlen_div_power: "1 \<le> q div 2 ^ k \<Longrightarrow> bitlen q = bitlen (q div 2 ^ k) + int k"
proof (induction k arbitrary: q)
  case 0
  then show ?case by simp
next
  case (Suc k)
  have e: "q div 2 ^ Suc k = (q div 2) div 2 ^ k"
    by (simp add: zdiv_zmult2_eq)
  have "0 < q"
    using Suc.prems by (smt (verit) div_neg_pos_less0 zdiv_eq_0_iff zero_less_power)
  then have "bitlen q = bitlen (q div 2) + 1" by (simp add: compute_bitlen [of q])
  with Suc.IH [of "q div 2"] Suc.prems show ?case unfolding e by simp
qed

text \<open>Doublings of a quotient that already has 53 bits only move the exponent.\<close>

lemma round_idx_shift:
  assumes d: "0 < d" and q: "2 ^ 52 \<le> n div d"
  shows "round_idx (n * 2 ^ k) d = int k * 2 ^ 52 + round_idx n d"
proof -
  define Q where "Q = n * 2 ^ k div d"
  have Qq: "Q div 2 ^ k = n div d"
    using d div_mult_mult2 [of "2 ^ k" n d] by (simp add: Q_def flip: zdiv_zmult2_eq)
  then have bl: "bitlen Q = bitlen (n div d) + int k"
    using bitlen_div_power [of Q k] q by simp
  have b: "53 \<le> bitlen (n div d)" using q by (simp add: bitlen_ge_iff_power)
  have eq: "round_idx m d = (bitlen (m div d) - 53) * 2 ^ 52 + half_even m (d * 2 ^ nat (bitlen (m div d) - 53))"
    if "53 \<le> bitlen (m div d)" for m
  proof (cases "m div d < 2 ^ 53")
    case True
    then have "bitlen (m div d) = 53" using that by (simp add: bitlen_le_iff_power antisym)
    then show ?thesis using True by (simp add: round_idx_def Let_def)
  qed (use that in \<open>simp add: round_idx_def Let_def\<close>)
  have "nat (bitlen Q - 53) = nat (bitlen (n div d) - 53) + k" using b by (simp add: bl)
  then have "half_even (n * 2 ^ k) (d * 2 ^ nat (bitlen Q - 53)) =
      half_even n (d * 2 ^ nat (bitlen (n div d) - 53))"
    by (simp add: power_add half_even_scale flip: mult.assoc)
  then show ?thesis
    using eq [of "n * 2 ^ k"] eq [of n] b by (simp add: bl algebra_simps flip: Q_def)
qed

lemma quotient_big:
  assumes "0 < n" "0 < d" "54 + bitlen d - bitlen n \<le> int j"
  shows "2 ^ 52 \<le> n * 2 ^ j div (d::int)"
proof -
  define a b where "a = nat (bitlen n - 1)" and "b = nat (bitlen d)"
  have bn: "bitlen n = int a + 1" and bd: "bitlen d = int b"
    using assms(1,2) bitlen_nonneg [of n] bitlen_eq_zero_iff [of n] bitlen_nonneg [of d]
    by (simp_all add: a_def b_def)
  have n: "2 ^ a \<le> n" and d: "d < 2 ^ b"
    using bitlen_bounds [OF assms(1)] bitlen_bounds [OF assms(2)] by (simp_all add: bn bd)
  have "53 + b \<le> a + j" using assms(3) by (simp add: bn bd)
  then have "(2::int) ^ (52 + b) \<le> 2 ^ (a + j)" by (intro power_increasing) auto
  then have "2 ^ 52 * (2::int) ^ b \<le> 2 ^ a * 2 ^ j" by (simp only: power_add)
  moreover have "2 ^ 52 * d \<le> 2 ^ 52 * 2 ^ b" using d by simp
  moreover have "2 ^ a * 2 ^ j \<le> n * 2 ^ j" using n by simp
  ultimately have "2 ^ 52 * d \<le> n * 2 ^ j" by linarith
  then have "(2 ^ 52 * d) div d \<le> (n * 2 ^ j) div d" using assms(2) by (intro zdiv_mono1)
  then show ?thesis using assms(2) by simp
qed

lemma scaled_idx_code [code]:
  "scaled_idx n d k =
     (if 0 \<le> k then
        (let j = max 0 (54 + bitlen d - bitlen n) in
         if n \<le> 0 \<or> d \<le> 0 \<or> k \<le> j then round_idx (n * 2 ^ nat k) d
         else (k - j) * 2 ^ 52 + round_idx (n * 2 ^ nat j) d)
      else round_idx n (d * 2 ^ nat (- k)))"
proof -
  define j where "j = max 0 (54 + bitlen d - bitlen n)"
  have "round_idx (n * 2 ^ nat k) d = (k - j) * 2 ^ 52 + round_idx (n * 2 ^ nat j) d"
    if "0 < n" "0 < d" "j < k"
  proof -
    have j: "0 \<le> j" "54 + bitlen d - bitlen n \<le> int (nat j)" by (simp_all add: j_def)
    have k: "nat k = nat j + nat (k - j)" "int (nat (k - j)) = k - j" using that j by simp_all
    have e: "n * 2 ^ nat k = (n * 2 ^ nat j) * 2 ^ nat (k - j)" by (simp only: k power_add mult.assoc)
    show ?thesis
      unfolding e using round_idx_shift [OF that(2) quotient_big [OF that(1,2) j(2)], of "nat (k - j)"]
      by (simp only: k(2))
  qed
  then show ?thesis by (simp add: scaled_idx_def Let_def flip: j_def)
qed

lemma f64_of_int_code [code]: "f64_of_int z = scaled_round (z < 0) \<bar>z\<bar> 1 1074"
  by (simp add: f64_of_int_def scaled_round_def scaled_idx_def f64_round_def)

lemma times_float64_code [code]:
  "x * y =
     (let s = (f64_neg x \<noteq> f64_neg y) in
      if f64_is_nan x \<or> f64_is_nan y then f64_NaN
      else if f64_is_inf x \<or> f64_is_inf y
      then (if f64_idx x = 0 \<or> f64_idx y = 0 then f64_NaN else f64_Inf s)
      else scaled_round s (man_of_idx (f64_idx x) * man_of_idx (f64_idx y)) 1
             (int (exp_of_idx (f64_idx x)) + int (exp_of_idx (f64_idx y)) - 1074))"
  by (simp only: times_float64_def f64_round_mult_code)

lemma f64_div_code [code]:
  "f64_div x y =
     (let s = (f64_neg x \<noteq> f64_neg y) in
      if f64_is_nan x \<or> f64_is_nan y then f64_NaN
      else if f64_is_inf x then (if f64_is_inf y then f64_NaN else f64_Inf s)
      else if f64_is_inf y then mk_f64 s 0
      else if f64_idx y = 0 then (if f64_idx x = 0 then f64_NaN else f64_Inf s)
      else scaled_round s (man_of_idx (f64_idx x)) (man_of_idx (f64_idx y))
             (int (exp_of_idx (f64_idx x)) + 1074 - int (exp_of_idx (f64_idx y))))"
  by (simp only: f64_div_def f64_round_div_code)

lemma mult_power_div_power:
  "(m::int) * 2 ^ e div 2 ^ c = (if e \<le> c then drop_bit (c - e) m else m * 2 ^ (e - c))"
proof (cases "e \<le> c")
  case True
  then have "(2::int) ^ c = 2 ^ (c - e) * 2 ^ e" by (simp flip: power_add)
  then show ?thesis using True by (simp add: drop_bit_eq_div)
next
  case False
  then have "(2::int) ^ e = 2 ^ (e - c) * 2 ^ c" by (simp flip: power_add)
  then have "m * 2 ^ e div 2 ^ c = (m * 2 ^ (e - c)) * 2 ^ c div 2 ^ c"
    by (simp only: mult.assoc)
  then show ?thesis using False by simp
qed

lemma f64_trunc_code [code]:
  "f64_trunc x = (let m = man_of_idx (f64_idx x); e = exp_of_idx (f64_idx x)
     in (if f64_neg x then -1 else 1) *
        (if e \<le> 1074 then drop_bit (1074 - e) m else m * 2 ^ (e - 1074)))"
  by (simp only: f64_trunc_def f64_mag_def mag_eq_man_exp f64_idx_nonneg mult_power_div_power Let_def)

lemma f64_idx_round:
  "0 \<le> n \<Longrightarrow> 0 < d \<Longrightarrow> f64_idx (f64_round s n d) = min inf_idx (round_idx n d)"
  using round_idx_nonneg [of n d] by (simp add: f64_round_def min_def)

lemma f64_round_not_nan:
  "0 \<le> n \<Longrightarrow> 0 < d \<Longrightarrow> \<not> f64_is_nan (f64_round s n d)"
  by (simp add: f64_is_nan_def f64_idx_round)

lemma f64_round_neg [simp]: "f64_neg (f64_round s n d) = s"
  by (simp add: f64_round_def)

section \<open>Integers as floats\<close>

lemma div_mod_sum: "0 \<le> f \<Longrightarrow> f < b \<Longrightarrow> (a * b + f) div b = a \<and> (a * b + f) mod b = (f::int)"
  by simp

lemma mag_normal:
  assumes "2 ^ 52 \<le> q" "q < 2 ^ 53"
  shows "mag_of_idx (int k * 2 ^ 52 + q) = q * 2 ^ k"
proof -
  have e: "int k * 2 ^ 52 + q = (int k + 1) * 2 ^ 52 + (q - 2 ^ 52)" by (simp add: algebra_simps)
  have "((int k + 1) * 2 ^ 52 + (q - 2 ^ 52)) div 2 ^ 52 = int k + 1"
    "((int k + 1) * 2 ^ 52 + (q - 2 ^ 52)) mod 2 ^ 52 = q - 2 ^ 52"
    using assms div_mod_sum [of "q - 2 ^ 52" "2 ^ 52" "int k + 1"] by simp_all
  then show ?thesis unfolding e mag_of_idx_def Let_def by (simp add: nat_add_distrib)
qed

lemma f64_of_int_exact:
  assumes "0 < m" "m < 2 ^ 53" "n \<le> 900"
  shows "f64_mag (f64_of_int (m * 2 ^ n)) = m * 2 ^ n * 2 ^ 1074" "f64_finite (f64_of_int (m * 2 ^ n))"
proof -
  let ?b = "bitlen m"
  have b: "1 \<le> ?b" "?b \<le> 53" using assms(1,2)
    by (simp_all add: bitlen_ge_iff_power bitlen_le_iff_power)
  define q where "q = m * 2 ^ nat (53 - ?b)"
  define k where "k = n + 1074 - nat (53 - ?b)"
  have "2 ^ nat (?b - 1) \<le> m" "m < 2 ^ nat ?b"
    using bitlen_bounds [of m] assms(1) by simp_all
  then have "2 ^ nat (?b - 1) * 2 ^ nat (53 - ?b) \<le> q" "q < 2 ^ nat ?b * 2 ^ nat (53 - ?b)"
    by (simp_all add: q_def)
  moreover have "nat (?b - 1) + nat (53 - ?b) = 52" "nat ?b + nat (53 - ?b) = 53" using b by simp_all
  ultimately have q: "2 ^ 52 \<le> q" "q < 2 ^ 53" unfolding power_add [symmetric] by (simp_all only:)
  have "n + 1074 = k + nat (53 - ?b)" using b by (simp add: k_def)
  then have z: "m * 2 ^ n * 2 ^ 1074 = q * 2 ^ k"
    by (simp only: q_def power_add [symmetric] mult.assoc) (simp add: add.commute)
  have k: "k \<le> 1974" using assms(3) by (simp add: k_def)
  let ?i = "int k * 2 ^ 52 + q"
  have le: "0 \<le> ?i" "?i < inf_idx" using q k by (simp_all add: inf_idx_def)
  have r: "round_idx (q * 2 ^ k) 1 = ?i"
    using round_idx_mag [of 1 ?i] le(1) mag_normal [OF q, of k] by simp
  have idx: "f64_idx (f64_of_int (m * 2 ^ n)) = ?i"
  proof -
    have "(m * 2 ^ n < 0) = False" "\<bar>m * 2 ^ n\<bar> = m * 2 ^ n"
      using assms(1) by (simp_all add: mult_less_0_iff abs_mult)
    then have "f64_of_int (m * 2 ^ n) = mk_f64 False (min inf_idx ?i)"
      by (simp only: f64_of_int_def f64_round_def z r)
    then show ?thesis using le by (simp add: min_absorb2)
  qed
  show "f64_mag (f64_of_int (m * 2 ^ n)) = m * 2 ^ n * 2 ^ 1074"
    by (simp only: f64_mag_def idx mag_normal [OF q] z)
  show "f64_finite (f64_of_int (m * 2 ^ n))" using le by (simp add: f64_finite_def idx)
qed

lemma f64_of_int_neg: "f64_neg (f64_of_int z) \<longleftrightarrow> z < 0"
  by (simp add: f64_of_int_def)

section \<open>Rounding is monotonic\<close>

lemma half_even_bounds: "0 < d \<Longrightarrow> n div d \<le> half_even n d \<and> half_even n d \<le> n div d + 1"
  by (simp add: half_even_def Let_def)

lemma half_even_mono:
  assumes "n \<le> m" "0 < d"
  shows "half_even n d \<le> half_even m d"
proof (cases "n div d = m div d")
  case True
  then have "n mod d \<le> m mod d" using assms(1) by (simp add: minus_div_mult_eq_mod [symmetric])
  then show ?thesis using True by (auto simp: half_even_def Let_def)
next
  case False
  then have "n div d + 1 \<le> m div d" using zdiv_mono1 [OF assms] by simp
  then show ?thesis using half_even_bounds [OF assms(2), of n] half_even_bounds [OF assms(2), of m] by linarith
qed

lemma div_less_int:
  assumes "0 < (c::int)"
  shows "x div c < a \<longleftrightarrow> x < a * c"
proof -
  have x: "x = x div c * c + x mod c" "0 \<le> x mod c" "x mod c < c" using assms by simp_all
  show ?thesis
  proof (cases "x div c < a")
    case True
    then have "(x div c + 1) * c \<le> a * c" using assms by (intro mult_right_mono) simp_all
    then show ?thesis using True x unfolding distrib_right by linarith
  next
    case False
    then have "a * c \<le> x div c * c" using assms by (intro mult_right_mono) simp_all
    then show ?thesis using False x by linarith
  qed
qed

text \<open>The exponent that \<open>round_idx\<close> takes away, and the range it leaves.\<close>

definition shift_of :: "int \<Rightarrow> nat" where
  "shift_of q = (if q < 2 ^ 53 then 0 else nat (bitlen q - 53))"

lemma round_idx_shift_of: "round_idx n d = int (shift_of (n div d)) * 2 ^ 52 + half_even n (d * 2 ^ shift_of (n div d))"
  by (simp add: round_idx_def shift_of_def Let_def)

lemma shift_of_range:
  assumes "0 \<le> q"
  shows "q < 2 ^ (53 + shift_of q)" "0 < shift_of q \<Longrightarrow> 2 ^ (52 + shift_of q) \<le> q"
proof -
  have b: "53 < bitlen q" if "\<not> q < 2 ^ 53" using that bitlen_le_iff_power [of q 53] by simp
  have s: "53 + shift_of q = nat (bitlen q)" "52 + shift_of q = nat (bitlen q - 1)" if "\<not> q < 2 ^ 53"
    using that b [OF that] by (simp_all add: shift_of_def nat_add_distrib [symmetric] nat_diff_distrib)
  show "q < 2 ^ (53 + shift_of q)"
    by (cases "q < 2 ^ 53") (use assms bitlen_bounds [of q] s in \<open>auto simp: shift_of_def\<close>)
  show "2 ^ (52 + shift_of q) \<le> q" if "0 < shift_of q"
  proof -
    have "\<not> q < 2 ^ 53" using that by (auto simp: shift_of_def split: if_splits)
    moreover then have "0 < q" by simp
    ultimately show ?thesis using bitlen_bounds [of q] s(2) by simp
  qed
qed

lemma shift_of_mono: "0 \<le> q \<Longrightarrow> q \<le> q' \<Longrightarrow> shift_of q \<le> shift_of q'"
  using bitlen_le_iff_power [of q "bitlen q'"] bitlen_le_iff_power [of q' "bitlen q'"]
  by (auto simp: shift_of_def)

lemma round_idx_mono:
  assumes "0 \<le> n" "n \<le> m" "0 < d"
  shows "round_idx n d \<le> round_idx m d"
proof -
  let ?q = "n div d" and ?q' = "m div d" and ?k = "shift_of (n div d)" and ?k' = "shift_of (m div d)"
  have q: "0 \<le> ?q" "?q \<le> ?q'" using assms by (simp_all add: pos_imp_zdiv_nonneg_iff zdiv_mono1)
  show ?thesis
  proof (cases "?k = ?k'")
    case True
    then show ?thesis unfolding round_idx_shift_of True [symmetric] using half_even_mono [OF assms(2)] assms(3) by simp
  next
    case False
    then have k: "?k + 1 \<le> ?k'" using shift_of_mono [OF q] by simp
    have div: "x div (d * 2 ^ j) = x div d div 2 ^ j" for x j using assms(3) by (simp add: zdiv_zmult2_eq)
    have "?q div 2 ^ ?k < 2 ^ 53"
      using shift_of_range(1) [OF q(1)] by (simp add: power_add div_less_int)
    then have "half_even n (d * 2 ^ ?k) \<le> 2 ^ 53"
      using half_even_bounds [of "d * 2 ^ ?k" n] assms(3) by (simp add: div)
    moreover have "2 ^ 52 * 2 ^ ?k' \<le> ?q'"
      using shift_of_range(2) [of ?q'] q k by (simp add: power_add)
    then have "2 ^ 52 \<le> ?q' div 2 ^ ?k'" by (simp add: div_less_int flip: not_less)
    then have "2 ^ 52 \<le> half_even m (d * 2 ^ ?k')"
      using half_even_bounds [of "d * 2 ^ ?k'" m] assms(3) by (simp add: div)
    moreover have "(int ?k + 1) * 2 ^ 52 \<le> int ?k' * 2 ^ 52" using k by (intro mult_right_mono) simp_all
    ultimately show ?thesis unfolding round_idx_shift_of by (simp add: algebra_simps)
  qed
qed

text \<open>A value between two positive integers rounds to a float between theirs; here for powers of two.\<close>

lemma power_of_two_idx:
  assumes "n \<le> 900"
  shows "round_idx (2 ^ (n + 1074)) 1 = f64_idx (f64_of_int (2 ^ n))" "f64_idx (f64_of_int (2 ^ n)) < inf_idx"
    "f64_mag (f64_of_int (2 ^ n)) = 2 ^ (n + 1074)"
proof -
  have e: "f64_mag (f64_of_int (2 ^ n)) = 2 ^ (n + 1074)" "f64_finite (f64_of_int (2 ^ n))"
    using f64_of_int_exact [of 1 n] assms by (simp_all add: power_add)
  show "f64_mag (f64_of_int (2 ^ n)) = 2 ^ (n + 1074)" by (rule e(1))
  show "f64_idx (f64_of_int (2 ^ n)) < inf_idx" using e(2) by (simp add: f64_finite_def)
  show "round_idx (2 ^ (n + 1074)) 1 = f64_idx (f64_of_int (2 ^ n))"
    using round_idx_mag [of 1 "f64_idx (f64_of_int (2 ^ n))"] e(1) by (simp add: f64_mag_def)
qed

lemma f64_round_between:
  assumes "2 ^ (a + 1074) * d \<le> n" "n \<le> 2 ^ (b + 1074) * d" "0 < d" "a \<le> 900" "b \<le> 900"
  shows "f64_finite (f64_round s n d)" "2 ^ (a + 1074) \<le> f64_mag (f64_round s n d)" "f64_mag (f64_round s n d) \<le> 2 ^ (b + 1074)"
proof -
  have sc: "round_idx (2 ^ k * d) d = round_idx (2 ^ k) 1" for k
    using round_idx_scale [OF assms(3), of "2 ^ k" 1] by simp
  have n0: "0 \<le> n" by (rule order_trans [OF _ assms(1)]) (use assms(3) in simp)
  have pos: "0 \<le> 2 ^ (a + 1074) * d" using assms(3) by simp
  have lo: "f64_idx (f64_of_int (2 ^ a)) \<le> round_idx n d"
    using round_idx_mono [OF pos assms(1,3)] power_of_two_idx(1) [OF assms(4)] sc by simp
  have hi: "round_idx n d \<le> f64_idx (f64_of_int (2 ^ b))"
    using round_idx_mono [OF n0 assms(2,3)] power_of_two_idx(1) [OF assms(5)] sc by simp
  have i: "f64_idx (f64_round s n d) = round_idx n d"
    using f64_idx_round [OF n0 assms(3), of s] hi power_of_two_idx(2) [OF assms(5)] by simp
  have mono: "i \<le> j \<Longrightarrow> 0 \<le> i \<Longrightarrow> mag_of_idx i \<le> mag_of_idx j" for i j
    using mag_of_idx_less [of i j] by (cases "i = j") auto
  show "f64_finite (f64_round s n d)" using i hi power_of_two_idx(2) [OF assms(5)] by (simp add: f64_finite_def)
  show "2 ^ (a + 1074) \<le> f64_mag (f64_round s n d)"
    using mono [OF lo] power_of_two_idx(3) [OF assms(4)] by (simp add: f64_mag_def i)
  show "f64_mag (f64_round s n d) \<le> 2 ^ (b + 1074)"
    using mono [OF hi] round_idx_nonneg [OF n0 assms(3)] power_of_two_idx(3) [OF assms(5)] by (simp add: f64_mag_def i)
qed

text \<open>A positive integer is a positive, finite float.\<close>

lemma f64_of_int_between:
  assumes "0 < n" "n \<le> 2 ^ b" "b \<le> 900"
  shows "f64_finite (f64_of_int n)" "2 ^ 1074 \<le> f64_mag (f64_of_int n)" "f64_mag (f64_of_int n) \<le> 2 ^ (b + 1074)"
proof -
  have "2 ^ (0 + 1074) * 1 \<le> n * 2 ^ 1074" using assms(1) by simp
  moreover have "n * 2 ^ 1074 \<le> 2 ^ (b + 1074) * 1" using assms(2) by (simp add: power_add)
  ultimately show "f64_finite (f64_of_int n)" "2 ^ 1074 \<le> f64_mag (f64_of_int n)" "f64_mag (f64_of_int n) \<le> 2 ^ (b + 1074)"
    using f64_round_between [of 0 1 "n * 2 ^ 1074" b False] assms(1,3) unfolding f64_of_int_def by simp_all
qed

lemma f64_of_int_pos:
  assumes "0 < n" "n \<le> 2 ^ 900"
  shows "f64_of_int 0 < f64_of_int n"
proof -
  have z: "f64_finite (f64_of_int 0)" "f64_val (f64_of_int 0) = 0" by code_simp+
  have "(0::int) < 2 ^ 1074" by simp
  then have "0 < f64_mag (f64_of_int n)" using f64_of_int_between(2) [OF assms] by (rule less_le_trans) simp
  then show ?thesis using f64_of_int_between(1) [OF assms] z assms(1)
    by (simp add: f64_less_iff_val f64_val_def f64_of_int_neg)
qed

end
