(* ===== verification/Go_Strconv.thy ===== *)
theory Go_Strconv
  imports Go_Float Go_Strings
begin

text \<open>
  \<open>strconv.ParseFloat(s, 64)\<close> and \<open>strconv.FormatFloat(x, 'f', -1, 64)\<close>. Parsing accepts what
  Go accepts (signs, decimal and hexadecimal mantissas, exponents, underscores between digits,
  \<open>inf\<close>, \<open>infinity\<close>, \<open>nan\<close>) and rounds correctly; a syntax error and an overflow are both
  \<open>None\<close>, since the callers only look at whether there is an error. Formatting prints the
  shortest decimal that parses back to the same value. The main lemma is that round trip; the
  locale \<open>float_text\<close> states it as the contract that the rule engine relies on.
\<close>

section \<open>Decimal values\<close>

text \<open>The index of the float nearest to \<open>m * 10 ^ p\<close>, for \<open>m \<ge> 0\<close>.\<close>

definition dec_idx :: "int \<Rightarrow> int \<Rightarrow> int" where
  "dec_idx m p = (if 0 \<le> p then scaled_idx (m * 10 ^ nat p) 1 1074
                  else scaled_idx m (10 ^ nat (- p)) 1074)"

definition dec_f64 :: "bool \<Rightarrow> int \<Rightarrow> int \<Rightarrow> float64" where
  "dec_f64 s m p = mk_f64 s (min inf_idx (dec_idx m p))"

lemma dec_idx_nonneg: "0 \<le> m \<Longrightarrow> 0 \<le> dec_idx m p"
  by (simp add: dec_idx_def scaled_idx_def round_idx_nonneg)

section \<open>Parsing\<close>

definition is_hex_letter :: "char \<Rightarrow> bool" where
  "is_hex_letter c \<longleftrightarrow> lower_char c \<in> set ''abcdef''"

definition hex_val :: "char \<Rightarrow> int" where
  "hex_val c = of_char (lower_char c) - 87"

text \<open>
  The mantissa: digits and one dot; underscores are skipped here and checked later. The
  result is whether there were digits, the digits' value, the number of fractional digits
  and the rest of the input.
\<close>

fun scan_mant :: "bool \<Rightarrow> string \<Rightarrow> bool \<Rightarrow> bool \<Rightarrow> int \<Rightarrow> int \<Rightarrow> bool \<times> int \<times> int \<times> string" where
  "scan_mant hex [] dot digs m f = (digs, m, f, [])"
| "scan_mant hex (c # cs) dot digs m f =
     (if c = CHR ''_'' then scan_mant hex cs dot digs m f
      else if c = CHR ''.'' then
        (if dot then (digs, m, f, c # cs) else scan_mant hex cs True digs m f)
      else if is_digit c then
        scan_mant hex cs dot True (m * (if hex then 16 else 10) + digit_val c)
          (if dot then f + 1 else f)
      else if hex \<and> is_hex_letter c then
        scan_mant hex cs dot True (m * 16 + hex_val c) (if dot then f + 1 else f)
      else (digs, m, f, c # cs))"

fun scan_exp :: "string \<Rightarrow> int \<Rightarrow> int \<times> string" where
  "scan_exp [] e = (e, [])"
| "scan_exp (c # cs) e =
     (if c = CHR ''_'' then scan_exp cs e
      else if is_digit c then scan_exp cs (if e < 10000 then e * 10 + digit_val c else e)
      else (e, c # cs))"

fun scan_sign :: "string \<Rightarrow> bool \<times> string" where
  "scan_sign (c # cs) =
     (if c = CHR ''-'' then (True, cs) else if c = CHR ''+'' then (False, cs) else (False, c # cs))"
| "scan_sign [] = (False, [])"

text \<open>The optional exponent part; \<open>None\<close> when it is malformed or required and absent.\<close>

definition parse_exp :: "bool \<Rightarrow> string \<Rightarrow> (int \<times> string) option" where
  "parse_exp hex r =
     (case r of
        c # r1 \<Rightarrow>
          if lower_char c = (if hex then CHR ''p'' else CHR ''e'') then
            (case scan_sign r1 of (neg, r2) \<Rightarrow>
               (case r2 of
                  d # _ \<Rightarrow> if is_digit d
                           then (case scan_exp r2 0 of (e, r3) \<Rightarrow> Some (if neg then - e else e, r3))
                           else None
                | [] \<Rightarrow> None))
          else if hex then None else Some (0, r)
      | [] \<Rightarrow> if hex then None else Some (0, []))"

text \<open>Underscores may only separate digits (or follow a base prefix).\<close>

datatype under_prev = UStart | UDigit | UUnder | UOther

fun under_ok :: "bool \<Rightarrow> under_prev \<Rightarrow> string \<Rightarrow> bool" where
  "under_ok hex p [] = (p \<noteq> UUnder)"
| "under_ok hex p (c # cs) =
     (if is_digit c \<or> (hex \<and> is_hex_letter c) then under_ok hex UDigit cs
      else if c = CHR ''_'' then p = UDigit \<and> under_ok hex UUnder cs
      else p \<noteq> UUnder \<and> under_ok hex UOther cs)"

definition has_base_prefix :: "string \<Rightarrow> bool" where
  "has_base_prefix t =
     (case t of c # d # _ \<Rightarrow> c = CHR ''0'' \<and> lower_char d \<in> set ''box'' | _ \<Rightarrow> False)"

definition underscoreOK :: "string \<Rightarrow> bool" where
  "underscoreOK s =
     (let t = snd (scan_sign s) in
      if has_base_prefix t then under_ok (lower_char (t ! 1) = CHR ''x'') UDigit (drop 2 t)
      else under_ok False UStart t)"

definition is_hex_number :: "string \<Rightarrow> bool" where
  "is_hex_number t =
     (case t of c # d # _ # _ \<Rightarrow> c = CHR ''0'' \<and> lower_char d = CHR ''x'' | _ \<Rightarrow> False)"

definition hex_f64 :: "bool \<Rightarrow> int \<Rightarrow> int \<Rightarrow> float64" where
  "hex_f64 s m k = scaled_round s m 1 (k + 1074)"

definition parse_number :: "string \<Rightarrow> float64 option" where
  "parse_number s =
     (case scan_sign s of (neg, t) \<Rightarrow>
      let hex = is_hex_number t in
      (case scan_mant hex (if hex then drop 2 t else t) False False 0 0 of (digs, m, f, r) \<Rightarrow>
         if \<not> digs then None
         else (case parse_exp hex r of
             None \<Rightarrow> None
           | Some (e, r3) \<Rightarrow>
               if r3 \<noteq> [] \<or> (CHR ''_'' \<in> set s \<and> \<not> underscoreOK s) then None
               else (let x = (if hex then hex_f64 neg m (e - 4 * f) else dec_f64 neg m (e - f))
                     in if f64_is_inf x then None else Some x))))"

definition ParseFloat :: "string \<Rightarrow> float64 option" where
  "ParseFloat s =
     (let l = lower_ascii s in
      if l \<in> set [''inf'', ''+inf'', ''infinity'', ''+infinity''] then Some (f64_Inf False)
      else if l \<in> set [''-inf'', ''-infinity''] then Some (f64_Inf True)
      else if l = ''nan'' then Some f64_NaN
      else parse_number s)"

section \<open>Formatting\<close>

text \<open>
  The magnitude with index \<open>i\<close>, divided by \<open>10 ^ p\<close>, as a numerator and a denominator.
\<close>

definition dec_frac :: "int \<Rightarrow> int \<Rightarrow> int \<times> int" where
  "dec_frac i p =
     (let k = int (exp_of_idx i) - 1074;
          a = man_of_idx i * 10 ^ nat (- p); b = 10 ^ nat p
      in if 0 \<le> k then (a * 2 ^ nat k, b) else (a, b * 2 ^ nat (- k)))"

text \<open>
  From the top digit position downwards: the first position at which cutting the magnitude
  off, or cutting it off and adding one, still rounds to the index \<open>i\<close>; the nearer of the
  two when both do. At position \<open>-1074\<close> the cut is exact.
\<close>

function shortest :: "int \<Rightarrow> int \<Rightarrow> int \<times> int" where
  "shortest i p =
     (case dec_frac i p of (n, d) \<Rightarrow>
      let lo = n div d in
      if p \<le> -1074 then (lo, p)
      else (let down = (dec_idx lo p = i); up = (dec_idx (lo + 1) p = i) in
            if down \<and> up then (half_even n d, p)
            else if down then (lo, p)
            else if up then (lo + 1, p)
            else shortest i (p - 1)))"
  by pat_completeness auto
termination by (relation "measure (\<lambda>(i, p). nat (p + 1075))") auto

declare shortest.simps [simp del]

definition top_pos :: "int \<Rightarrow> int" where
  "top_pos i =
     ((bitlen (man_of_idx i) + int (exp_of_idx i) - 1074) * 30103) div 100000 + 1"

definition shortest_dec :: "int \<Rightarrow> int \<times> int" where
  "shortest_dec i = shortest i (max (-1074) (top_pos i))"

definition show_dec :: "int \<Rightarrow> int \<Rightarrow> string" where
  "show_dec m p =
     (if 0 \<le> p then show_nat m @ replicate (nat p) CHR ''0''
      else let s = show_nat m; k = nat (- p) in
           if k < length s then take (length s - k) s @ CHR ''.'' # drop (length s - k) s
           else ''0.'' @ replicate (k - length s) CHR ''0'' @ s)"

definition FormatFloat :: "float64 \<Rightarrow> string" where
  "FormatFloat x =
     (if f64_is_nan x then ''NaN''
      else if f64_is_inf x then (if f64_neg x then ''-Inf'' else ''+Inf'')
      else (if f64_neg x then ''-'' else []) @
           (if f64_idx x = 0 then ''0''
            else case shortest_dec (f64_idx x) of (m, p) \<Rightarrow> show_dec m p))"

section \<open>The round trip\<close>

lemma man_of_idx_nonneg [simp]: "0 \<le> man_of_idx i"
  by (auto simp: man_of_idx_def zdiv_eq_0_iff)

lemma dec_frac_exact:
  assumes "c = 1074"
  shows "case dec_frac i (- int c) of (n, d) \<Rightarrow>
    n div d * 2 ^ c = man_of_idx i * 2 ^ exp_of_idx i * 10 ^ c"
proof -
  define e where "e = exp_of_idx i"
  have k: "int e - 1074 = int e - int c" using assms by simp
  have ten: "(10::int) ^ c = 5 ^ c * 2 ^ c" by (simp flip: power_mult_distrib)
  show ?thesis
  proof (cases "c \<le> e")
    case True
    then have "0 \<le> int e - int c" "nat (int e - int c) = e - c" by simp_all
    moreover have "(2::int) ^ e = 2 ^ (e - c) * 2 ^ c" using True by (simp flip: power_add)
    ultimately show ?thesis
      by (simp add: dec_frac_def Let_def k flip: e_def)
  next
    case False
    then have "\<not> 0 \<le> int e - int c" "nat (- (int e - int c)) = c - e" by simp_all
    moreover have two: "(2::int) ^ c = 2 ^ e * 2 ^ (c - e)" using False by (simp flip: power_add)
    moreover have "man_of_idx i * 10 ^ c div 2 ^ (c - e) = man_of_idx i * 5 ^ c * 2 ^ e"
      unfolding ten two by (simp add: mult.assoc [symmetric])
    ultimately show ?thesis
      by (simp add: dec_frac_def Let_def k ten flip: e_def) 
  qed
qed

lemma dec_frac_pos: "dec_frac i p = (n, d) \<Longrightarrow> 0 \<le> n \<and> 0 < d"
  by (auto simp: dec_frac_def Let_def split: if_splits)

lemma dec_idx_exact:
  assumes "0 \<le> i" and "dec_frac i (- int c) = (n, d)" and "c = 1074"
  shows "dec_idx (n div d) (- int c) = i"
proof -
  have e: "n div d * 2 ^ c = mag_of_idx i * 10 ^ c"
    using dec_frac_exact [OF assms(3), of i] assms(1,2) by (simp add: mag_eq_man_exp)
  have c0: "\<not> 0 \<le> - int c" "nat (- (- int c)) = c" and c: "int c - int 0 = 1074"
    using assms(3) by simp_all
  have "dec_idx (n div d) (- int c) = scaled_idx (n div d) (10 ^ c) 1074"
    by (simp only: dec_idx_def c0 if_False)
  also have "\<dots> = round_idx (n div d * 2 ^ c) (10 ^ c)"
    using scaled_idx_eq [OF c, of "n div d" "10 ^ c"] by (simp only: power_0 mult_1_right)
  also have "\<dots> = i" unfolding e by (rule round_idx_mag) (use assms(1) in simp_all)
  finally show ?thesis .
qed

lemma half_even_cases: "half_even n d = n div d \<or> half_even n d = n div d + 1"
  by (simp add: half_even_def Let_def)

lemma shortest_sound:
  assumes "0 \<le> i" and "- 1074 \<le> p" and "shortest i p = (m, q)"
  shows "0 \<le> m \<and> - 1074 \<le> q \<and> dec_idx m q = i"
  using assms
proof (induction i p rule: shortest.induct)
  case (1 i p)
  obtain n d where nd: "dec_frac i p = (n, d)" by force
  then have pos: "0 \<le> n div d" using dec_frac_pos by (simp add: pos_imp_zdiv_nonneg_iff)
  show ?case
  proof (cases "p \<le> - 1074")
    case True
    then have p: "p = - int 1074" using 1(3) by simp
    have "dec_idx (n div d) p = i"
      using dec_idx_exact [OF 1(2), of 1074 n d] nd p by (simp only:)
    moreover have "shortest i p = (n div d, p)"
      using nd True by (simp add: shortest.simps [of i p] Let_def)
    ultimately show ?thesis using 1(3,4) pos by simp
  next
    case False
    then show ?thesis
      using 1 nd pos half_even_cases [of n d]
      by (auto simp: shortest.simps [of i p] Let_def split: if_splits)
  qed
qed

lemma shortest_dec_sound:
  "0 \<le> i \<Longrightarrow> shortest_dec i = (m, q) \<Longrightarrow> 0 \<le> m \<and> dec_idx m q = i"
  unfolding shortest_dec_def using shortest_sound [OF _ max.cobounded1] by blast

section \<open>Scanning what was printed\<close>

lemma is_digit_not: "is_digit c \<Longrightarrow> c \<noteq> CHR ''_'' \<and> c \<noteq> CHR ''.'' \<and> c \<noteq> CHR ''-'' \<and> c \<noteq> CHR ''+''"
  by (auto simp: is_digit_def digit_val_def)

lemma scan_digits:
  "list_all is_digit ds \<Longrightarrow>
   scan_mant False (ds @ r) dot digs m f =
     scan_mant False r dot (digs \<or> ds \<noteq> []) (dec_value m ds) (if dot then f + int (length ds) else f)"
proof (induction ds arbitrary: digs m f)
  case Nil
  then show ?case by simp
next
  case (Cons c ds)
  then show ?case using is_digit_not [of c] by (simp add: add.assoc)
qed

lemma dec_value_zeros: "dec_value m (replicate n CHR ''0'') = m * 10 ^ n"
  by (induction n arbitrary: m) (simp_all add: digit_val_def)

lemma digits_zeros: "list_all is_digit (replicate n CHR ''0'')"
  by (induction n) (simp_all add: is_digit_def digit_val_def)

lemma scan_show_dec:
  assumes "0 \<le> m"
  shows "\<exists>M F. scan_mant False (show_dec m p) False False 0 0 = (True, M, F, []) \<and>
    (if 0 \<le> p then M = m * 10 ^ nat p \<and> F = 0 else M = m \<and> F = - p)"
proof -
  note d = show_nat_digits [OF assms]
  show ?thesis
  proof (cases "0 \<le> p")
    case True
    then show ?thesis
      using d digits_zeros assms
      by (simp add: show_dec_def scan_digits dec_value_zeros dec_value_append
          scan_digits [where r = "[]", simplified] list_all_append)
  next
    case False
    define s k where "s = show_nat m" and "k = nat (- p)"
    have sd: "list_all is_digit s" and sv: "dec_value 0 s = m" and s: "s \<noteq> []"
      using d assms by (simp_all add: s_def)
    have split: "take n s @ drop n s = s" for n by simp
    have td: "list_all is_digit (take n s)" "list_all is_digit (drop n s)" for n
      using sd by (auto simp: list_all_iff dest: in_set_takeD in_set_dropD)
    have tv: "dec_value (dec_value 0 (take n s)) (drop n s) = m" for n
      using sv dec_value_append [of 0 "take n s" "drop n s"] by simp
    show ?thesis
    proof (cases "k < length s")
      case True
      then show ?thesis
        using False td tv assms s
        by (simp add: show_dec_def Let_def scan_digits scan_digits [where r = "[]", simplified]
            flip: s_def k_def) (simp add: k_def)
    next
      case False2: False
      have z: "list_all is_digit (replicate j CHR ''0'' @ s)" for j
        using sd digits_zeros by simp
      have "is_digit CHR ''0''" "digit_val CHR ''0'' = 0"
        by (simp_all add: is_digit_def digit_val_def)
      then show ?thesis
        using False False2 sv z [of "k - length s"] assms
        by (simp add: show_dec_def Let_def scan_digits [where r = "[]", simplified] dec_value_append
            dec_value_zeros flip: s_def k_def) (simp add: k_def)
    qed
  qed
qed

text \<open>What a printed magnitude looks like: digits and dots, starting with a digit.\<close>

definition plain_number :: "string \<Rightarrow> bool" where
  "plain_number t \<longleftrightarrow> t \<noteq> [] \<and> is_digit (hd t) \<and> (\<forall>c \<in> set t. is_digit c \<or> c = CHR ''.'')"

lemma plain_show_dec: "0 \<le> m \<Longrightarrow> plain_number (show_dec m p)"
proof -
  assume m: "0 \<le> m"
  define s where "s = show_nat m"
  have s: "s \<noteq> []" "\<forall>c \<in> set s. is_digit c"
    using show_nat_digits [OF m] by (simp_all add: s_def list_all_iff)
  have z: "is_digit CHR ''0''" by (simp add: is_digit_def digit_val_def)
  show ?thesis
    using s z
    by (auto simp: plain_number_def show_dec_def Let_def hd_append hd_take
        dest: in_set_takeD in_set_dropD simp flip: s_def)
qed

lemma plain_zero: "plain_number ''0''"
  by (simp add: plain_number_def is_digit_def digit_val_def)

lemma lower_char_plain:
  "is_digit c \<or> c = CHR ''.'' \<or> c = CHR ''-'' \<Longrightarrow> lower_char c = c \<and> c \<noteq> CHR ''n'' \<and> c \<noteq> CHR ''x'' \<and> c \<noteq> CHR ''_''"
  by (auto simp: is_digit_def digit_val_def lower_char_def)

lemma ParseFloat_no_n:
  assumes "lower_ascii s = s" and "CHR ''n'' \<notin> set s"
  shows "ParseFloat s = parse_number s"
proof -
  have "s \<noteq> w" if "CHR ''n'' \<in> set w" for w using that assms(2) by auto
  then show ?thesis
    unfolding ParseFloat_def assms(1) Let_def
    by (simp only: list.set insert_iff empty_iff if_False HOL.simp_thms)
qed

lemma ParseFloat_special:
  "ParseFloat [] = None" "ParseFloat ''+Inf'' = Some (f64_Inf False)"
  "ParseFloat ''-Inf'' = Some (f64_Inf True)"
  by code_simp+

lemma ParseFloat_plain:
  assumes t: "plain_number t" and scan: "scan_mant False t False False 0 0 = (True, M, F, [])"
    and fin: "\<not> f64_is_inf (dec_f64 neg M (- F))"
  shows "ParseFloat ((if neg then ''-'' else []) @ t) = Some (dec_f64 neg M (- F))"
proof -
  define s where "s = (if neg then ''-'' else []) @ t"
  have chars: "is_digit c \<or> c = CHR ''.'' \<or> c = CHR ''-''" if "c \<in> set s" for c
    using t that by (auto simp: plain_number_def s_def split: if_splits)
  have low: "lower_ascii s = s"
    unfolding lower_ascii_def by (rule map_idI) (use chars lower_char_plain in blast)
  have n: "CHR ''n'' \<notin> set s" "CHR ''_'' \<notin> set s" using chars lower_char_plain by blast+
  have sg: "scan_sign s = (neg, t)"
    using t is_digit_not [of "hd t"] by (cases t) (auto simp: plain_number_def s_def)
  have hex: "\<not> is_hex_number t"
  proof
    assume "is_hex_number t"
    then obtain c d r where "t = c # d # r" "lower_char d = CHR ''x''"
      by (auto simp: is_hex_number_def split: list.splits)
    then show False using t lower_char_plain [of d] by (auto simp: plain_number_def)
  qed
  have "parse_number s = Some (dec_f64 neg M (- F))"
    unfolding parse_number_def sg by (simp add: hex scan fin n(2) parse_exp_def)
  then show ?thesis using ParseFloat_no_n [OF low n(1)] by (simp flip: s_def)
qed

lemma ParseFloat_FormatFloat:
  assumes "\<not> f64_is_nan x"
  shows "ParseFloat (FormatFloat x) = Some x"
proof -
  define i where "i = f64_idx x"
  have x: "mk_f64 (f64_neg x) i = x" by (simp add: i_def)
  have "0 \<le> i" "i \<le> inf_idx" using assms by (simp_all add: f64_is_nan_def i_def)
  then consider (inf) "i = inf_idx" | (zero) "i = 0" | (pos) "0 < i" "i < inf_idx"
    by linarith
  then show ?thesis
  proof cases
    case inf
    then have "FormatFloat x = (if f64_neg x then ''-Inf'' else ''+Inf'')"
      using assms by (simp add: FormatFloat_def f64_is_inf_def i_def)
    moreover have "f64_Inf (f64_neg x) = x" using x inf by (simp add: f64_Inf_def)
    ultimately show ?thesis using ParseFloat_special by (auto split: if_splits)
  next
    case zero
    then have "FormatFloat x = (if f64_neg x then ''-'' else []) @ ''0''"
      using assms by (simp add: FormatFloat_def f64_is_inf_def i_def)
    moreover have "dec_f64 (f64_neg x) 0 (- 0) = x"
      using x zero by (simp add: dec_f64_def dec_idx_def scaled_idx_def round_idx_def half_even_def)
    moreover have "scan_mant False ''0'' False False 0 0 = (True, 0, 0, [])"
      by (simp add: is_digit_def digit_val_def)
    moreover have "\<not> f64_is_inf x" using zero inf_idx_pos by (simp add: f64_is_inf_def i_def)
    ultimately show ?thesis using ParseFloat_plain [OF plain_zero, of 0 0 "f64_neg x"] by simp
  next
    case pos
    obtain m p where mp: "shortest_dec i = (m, p)" by force
    have m: "0 \<le> m" "dec_idx m p = i" using shortest_dec_sound [OF _ mp] pos by simp_all
    have f: "FormatFloat x = (if f64_neg x then ''-'' else []) @ show_dec m p"
      using assms pos mp by (simp add: FormatFloat_def f64_is_inf_def i_def)
    obtain M F where scan: "scan_mant False (show_dec m p) False False 0 0 = (True, M, F, [])"
      and MF: "if 0 \<le> p then M = m * 10 ^ nat p \<and> F = 0 else M = m \<and> F = - p"
      using scan_show_dec [OF m(1), of p] by blast
    have "dec_idx M (- F) = i" using MF m by (auto simp: dec_idx_def split: if_splits)
    then have d: "dec_f64 (f64_neg x) M (- F) = x" using pos x by (simp add: dec_f64_def min_def)
    have "\<not> f64_is_inf x" using pos by (simp add: f64_is_inf_def i_def)
    then show ?thesis
      using ParseFloat_plain [OF plain_show_dec [OF m(1)] scan, of "f64_neg x"] d f by simp
  qed
qed

section \<open>The contract the callers rely on\<close>

text \<open>
  A printer and a parser of numbers, as the rule engine uses them: a number that is not a NaN
  survives printing and parsing, and no printed number is empty.
\<close>

locale float_text =
  fixes fmt :: "float64 \<Rightarrow> string" and parse :: "string \<Rightarrow> float64 option"
  assumes parse_fmt: "\<not> f64_is_nan x \<Longrightarrow> parse (fmt x) = Some x"
    and parse_empty: "parse [] = None"
begin

lemma fmt_inj: "\<not> f64_is_nan x \<Longrightarrow> \<not> f64_is_nan y \<Longrightarrow> fmt x = fmt y \<longleftrightarrow> x = y"
  by (metis parse_fmt option.inject)

lemma fmt_nonempty: "\<not> f64_is_nan x \<Longrightarrow> fmt x \<noteq> []"
  using parse_fmt [of x] parse_empty by auto

end



interpretation strconv: float_text FormatFloat ParseFloat
  by unfold_locales (simp_all add: ParseFloat_FormatFloat ParseFloat_special(1))

end
