(* ===== verification/Go_Time.thy ===== *)
theory Go_Time
  imports Go_Strconv
begin

text \<open>
  \<open>time.ParseDuration\<close>, with Go's units, its \<open>float64\<close> arithmetic on fractions and its
  overflow checks in \<open>uint64\<close> arithmetic. Every error is \<open>None\<close>: the callers only look at
  whether there is one. Also the duration constants the program uses
  and \<open>Duration.Seconds\<close>.
\<close>

section \<open>Constants\<close>

definition Nanosecond :: duration where "Nanosecond = 1"
definition Microsecond :: duration where "Microsecond = 1000"
definition Millisecond :: duration where "Millisecond = 1000000"
definition Second :: duration where "Second = 1000000000"
definition Minute :: duration where "Minute = 60000000000"
definition Hour :: duration where "Hour = 3600000000000"

lemmas time_units = Nanosecond_def Microsecond_def Millisecond_def Second_def Minute_def Hour_def

definition unit_of :: "string \<Rightarrow> duration option" where
  "unit_of u =
     (if u = ''ns'' then Some Nanosecond
      else if u \<in> set [''us'', [CHR 0xC2, CHR 0xB5, CHR ''s''], [CHR 0xCE, CHR 0xBC, CHR ''s'']]
      then Some Microsecond
      else if u = ''ms'' then Some Millisecond
      else if u = ''s'' then Some Second
      else if u = ''m'' then Some Minute
      else if u = ''h'' then Some Hour
      else None)"

section \<open>Scanning\<close>

fun leading_int :: "string \<Rightarrow> int \<Rightarrow> (int \<times> string) option" where
  "leading_int [] x = Some (x, [])"
| "leading_int (c # cs) x =
     (if \<not> is_digit c then Some (x, c # cs)
      else if 2 ^ 63 div 10 < x then None
      else let y = x * 10 + digit_val c in if 2 ^ 63 < y then None else leading_int cs y)"

fun leading_fraction :: "string \<Rightarrow> int \<Rightarrow> float64 \<Rightarrow> bool \<Rightarrow> int \<times> float64 \<times> string" where
  "leading_fraction [] x scale ovf = (x, scale, [])"
| "leading_fraction (c # cs) x scale ovf =
     (if \<not> is_digit c then (x, scale, c # cs)
      else if ovf then leading_fraction cs x scale True
      else if (2 ^ 63 - 1) div 10 < x then leading_fraction cs x scale True
      else let y = x * 10 + digit_val c in
        if 2 ^ 63 < y then leading_fraction cs x scale True
        else leading_fraction cs y (scale * f64_of_int 10) False)"

definition unit_char :: "char \<Rightarrow> bool" where
  "unit_char c \<longleftrightarrow> c \<noteq> CHR ''.'' \<and> \<not> is_digit c"

text \<open>The optional \<open>(\.[0-9]*)?\<close>: value, scale, rest and whether there were digits.\<close>

definition dur_fraction :: "string \<Rightarrow> int \<times> float64 \<times> string \<times> bool" where
  "dur_fraction s =
     (case s of
        c # t \<Rightarrow>
          if c = CHR ''.'' then
            (case leading_fraction t 0 (f64_of_int 1) False of
               (f, scale, r) \<Rightarrow> (f, scale, r, length r \<noteq> length t))
          else (0, f64_of_int 1, s, False)
      | [] \<Rightarrow> (0, f64_of_int 1, s, False))"

text \<open>The unit and the value of one component, from its integer part \<open>v\<close> and its fraction.\<close>

definition dur_value :: "int \<Rightarrow> int \<Rightarrow> float64 \<Rightarrow> string \<Rightarrow> (int \<times> string) option" where
  "dur_value v f scale s =
     (let u = takeWhile unit_char s; r = dropWhile unit_char s in
      if u = [] then None
      else case unit_of u of
          None \<Rightarrow> None
        | Some w \<Rightarrow>
            if 2 ^ 63 div w < v then None
            else let v' = v * w + (if 0 < f
                   then f64_trunc (f64_of_int f * f64_div (f64_of_int w) scale) else 0)
                 in if 2 ^ 63 < v' then None else Some (v', r))"

text \<open>One component \<open>[0-9]*(\.[0-9]*)?[a-z]+\<close>: its value in nanoseconds and the rest.\<close>

definition dur_component :: "string \<Rightarrow> (int \<times> string) option" where
  "dur_component s =
     (if s = [] \<or> \<not> (hd s = CHR ''.'' \<or> is_digit (hd s)) then None
      else case leading_int s 0 of
          None \<Rightarrow> None
        | Some (v, s1) \<Rightarrow>
            (case dur_fraction s1 of
               (f, scale, s2, post) \<Rightarrow>
                 if length s1 = length s \<and> \<not> post then None else dur_value v f scale s2))"

lemma leading_int_suffix: "leading_int s x = Some (v, r) \<Longrightarrow> suffix r s"
  by (induction s x rule: leading_int.induct)
     (auto simp: Let_def split: if_splits intro: suffix_ConsI)

lemma leading_fraction_suffix: "leading_fraction s x sc b = (f, sc', r) \<Longrightarrow> suffix r s"
  by (induction s x sc b rule: leading_fraction.induct)
     (auto simp: Let_def split: if_splits intro: suffix_ConsI)

lemma dur_fraction_suffix: "dur_fraction s = (f, sc, r, b) \<Longrightarrow> suffix r s"
  by (auto simp: dur_fraction_def split: list.splits if_splits prod.splits
      dest!: leading_fraction_suffix intro: suffix_ConsI)

lemma dur_value_shorter: "dur_value v f sc s = Some (v', r) \<Longrightarrow> length r < length s"
  by (cases s)
     (auto simp: dur_value_def Let_def less_Suc_eq_le length_dropWhile_le
       split: if_splits option.splits)

lemma dur_component_shorter:
  "dur_component s = Some (v, r) \<Longrightarrow> length r < length s"
  by (fastforce simp: dur_component_def split: if_splits option.splits prod.splits
      dest!: leading_int_suffix dur_fraction_suffix dur_value_shorter suffix_length_le)

text \<open>The sum of the components is computed in \<open>uint64\<close>.\<close>

function dur_sum :: "string \<Rightarrow> int \<Rightarrow> int option" where
  "dur_sum s d =
     (if s = [] then Some d
      else case dur_component s of
          None \<Rightarrow> None
        | Some (v, r) \<Rightarrow>
            let d' = (d + v) mod 2 ^ 64 in if 2 ^ 63 < d' then None else dur_sum r d')"
  by pat_completeness auto
termination
  by (relation "measure (length \<circ> fst)") (auto dest: dur_component_shorter)

declare dur_sum.simps [simp del]

definition ParseDuration :: "string \<Rightarrow> duration option" where
  "ParseDuration s =
     (case scan_sign s of (neg, t) \<Rightarrow>
        if t = ''0'' then Some 0
        else if t = [] then None
        else case dur_sum t 0 of
            None \<Rightarrow> None
          | Some d \<Rightarrow> if neg then Some (i64 (- i64 d))
                      else if 2 ^ 63 - 1 < d then None else Some d)"

lemma dur_sum_bounds: "0 \<le> d \<Longrightarrow> d \<le> 2 ^ 63 \<Longrightarrow> dur_sum s d = Some e \<Longrightarrow> 0 \<le> e \<and> e \<le> 2 ^ 63"
proof (induction s d rule: dur_sum.induct)
  case (1 s d)
  show ?case
  proof (cases "s = []")
    case True
    then show ?thesis using 1(2,3,4) by (simp add: dur_sum.simps [of "[]" d])
  next
    case False
    then show ?thesis
      using 1(4) 1(1) by (auto simp: dur_sum.simps [of s d] Let_def split: option.splits if_splits)
  qed
qed

lemma ParseDuration_i64: "ParseDuration s = Some d \<Longrightarrow> is_i64 d"
  using dur_sum_bounds [of 0 "snd (scan_sign s)"]
  by (auto simp: ParseDuration_def is_i64_def [of 0] split: prod.splits if_splits option.splits)
     (auto simp: is_i64_def)

section \<open>Seconds\<close>

text \<open>\<open>Duration.Seconds\<close> adds the whole seconds and the fraction as floats.\<close>

definition f64_add_finite :: "float64 \<Rightarrow> float64 \<Rightarrow> float64" where
  "f64_add_finite x y = (let s = f64_val x + f64_val y in f64_round (s < 0) \<bar>s\<bar> 1)"

definition Seconds :: "duration \<Rightarrow> float64" where
  "Seconds d =
     (let sec = sgn d * (\<bar>d\<bar> div 10 ^ 9); nsec = sgn d * (\<bar>d\<bar> mod 10 ^ 9)
      in f64_add_finite (f64_of_int sec) (f64_div (f64_of_int nsec) (f64_of_int (10 ^ 9))))"

end
