(* ===== verification/Channels.thy ===== *)
theory Channels
  imports Prelude
begin

text \<open>
  Go's buffered channels, as the program uses them, and the envelope the stages pass along
  (\<open>internal/pipeline/traced.go\<close>). A send proceeds only while there is room in the buffer, a
  receive only while there is a value; whether a blocked goroutine waits or takes another arm of
  its \<open>select\<close> is up to the caller. The laws the stages rely on form a locale, interpreted on the
  model of a channel.
\<close>

section \<open>Channels\<close>

record 'a chan =
  ch_buf :: "'a list"
  ch_cap :: nat

definition make_chan :: "int \<Rightarrow> 'a chan" where
  "make_chan n = \<lparr>ch_buf = [], ch_cap = nat n\<rparr>"

definition try_send :: "'a \<Rightarrow> 'a chan \<Rightarrow> 'a chan option" where
  "try_send x c =
     (if length (ch_buf c) < ch_cap c then Some (c\<lparr>ch_buf := ch_buf c @ [x]\<rparr>) else None)"

definition try_recv :: "'a chan \<Rightarrow> ('a \<times> 'a chan) option" where
  "try_recv c = (case ch_buf c of [] \<Rightarrow> None | x # xs \<Rightarrow> Some (x, c\<lparr>ch_buf := xs\<rparr>))"

section \<open>The contract\<close>

locale bounded_fifo =
  fixes send :: "'a \<Rightarrow> 'c \<Rightarrow> 'c option"
    and recv :: "'c \<Rightarrow> ('a \<times> 'c) option"
    and contents :: "'c \<Rightarrow> 'a list"
    and capacity :: "'c \<Rightarrow> nat"
  assumes send_blocked: "send x c = None \<longleftrightarrow> capacity c \<le> length (contents c)"
    and send_appends: "send x c = Some c' \<Longrightarrow> contents c' = contents c @ [x]"
    and send_capacity: "send x c = Some c' \<Longrightarrow> capacity c' = capacity c"
    and recv_blocked: "recv c = None \<longleftrightarrow> contents c = []"
    and recv_takes: "recv c = Some (x, c') \<Longrightarrow> contents c = x # contents c'"
    and recv_capacity: "recv c = Some (x, c') \<Longrightarrow> capacity c' = capacity c"
begin

lemma send_bounded: "send x c = Some c' \<Longrightarrow> length (contents c') \<le> capacity c'"
  using send_blocked [of x c] send_appends [of x c c'] send_capacity [of x c c']
  by (auto simp: not_le)

lemma recv_bounded:
  "recv c = Some (x, c') \<Longrightarrow> length (contents c) \<le> capacity c \<Longrightarrow> length (contents c') \<le> capacity c'"
  using recv_takes [of c x c'] recv_capacity [of c x c'] by simp

text \<open>What was received, followed by what is buffered, is what was sent: the channel is a FIFO.\<close>

lemma send_history:
  "sent = received @ contents c \<Longrightarrow> send x c = Some c' \<Longrightarrow> sent @ [x] = received @ contents c'"
  by (simp add: send_appends)

lemma recv_history:
  "sent = received @ contents c \<Longrightarrow> recv c = Some (x, c') \<Longrightarrow> sent = (received @ [x]) @ contents c'"
  by (simp add: recv_takes)

lemma full_blocks: "length (contents c) = capacity c \<Longrightarrow> send x c = None"
  by (simp add: send_blocked)

end

interpretation channel: bounded_fifo try_send try_recv ch_buf ch_cap
  by unfold_locales (auto simp: try_send_def try_recv_def split: if_splits list.splits)

section \<open>The envelope\<close>

text \<open>\<open>context.Context\<close> is the type variable \<open>'c\<close>: the stages only pass contexts on.\<close>

record ('a, 'c) Traced =
  tr_Value :: 'a
  tr_Ctx :: 'c
  tr_StartedAt :: time

definition NewTraced :: "'c \<Rightarrow> 'a \<Rightarrow> time \<Rightarrow> ('a, 'c) Traced" where
  "NewTraced ctx v now = \<lparr>tr_Value = v, tr_Ctx = ctx, tr_StartedAt = now\<rparr>"

section \<open>Telemetry, as the stages use it\<close>

text \<open>
  The stage toggles of the tracing configuration, what \<open>Tracer.Start\<close> makes of a context (code of
  OpenTelemetry, a parameter), and the counters of one stage.
\<close>

record 'c tel =
  tl_Adapter :: bool
  tl_Normalizer :: bool
  tl_Enricher :: bool
  tl_Engine :: bool
  tl_Emitter :: bool
  tl_Start :: "string \<Rightarrow> 'c \<Rightarrow> 'c"

record counters =
  n_received :: int
  n_dropped :: int
  n_emitted :: int

definition no_counts :: counters where
  "no_counts = \<lparr>n_received = 0, n_dropped = 0, n_emitted = 0\<rparr>"

lemma no_counts_simps [simp]:
  "n_received no_counts = 0" "n_dropped no_counts = 0" "n_emitted no_counts = 0"
  by (simp_all add: no_counts_def)

definition count_received :: "counters \<Rightarrow> counters" where
  "count_received m = m\<lparr>n_received := n_received m + 1\<rparr>"

definition count_dropped :: "counters \<Rightarrow> counters" where
  "count_dropped m = m\<lparr>n_dropped := n_dropped m + 1\<rparr>"

definition count_emitted :: "counters \<Rightarrow> counters" where
  "count_emitted m = m\<lparr>n_emitted := n_emitted m + 1\<rparr>"

lemma count_simps [simp]:
  "n_received (count_received m) = n_received m + 1" "n_dropped (count_received m) = n_dropped m"
  "n_emitted (count_received m) = n_emitted m"
  "n_received (count_dropped m) = n_received m" "n_dropped (count_dropped m) = n_dropped m + 1"
  "n_emitted (count_dropped m) = n_emitted m"
  "n_received (count_emitted m) = n_received m" "n_dropped (count_emitted m) = n_dropped m"
  "n_emitted (count_emitted m) = n_emitted m + 1"
  by (simp_all add: count_received_def count_dropped_def count_emitted_def)

text \<open>How the context behaves while a stage runs: \<open>ctx.Err() != nil\<close> when the \<open>i\<close>-th event has been
  received, and whether the \<open>ctx.Done()\<close> arm is taken in the \<open>k\<close>-th send.\<close>

record stage_env =
  se_cancelled :: "nat \<Rightarrow> bool"
  se_send_aborted :: "nat \<Rightarrow> bool"

definition calm :: stage_env where
  "calm = \<lparr>se_cancelled = (\<lambda>_. False), se_send_aborted = (\<lambda>_. False)\<rparr>"

lemma calm_simps [simp]: "\<not> se_cancelled calm i" "\<not> se_send_aborted calm i"
  by (simp_all add: calm_def)

end
