(* ===== verification/Event_Types.thy ===== *)
theory Event_Types
  imports Go_Strconv
begin

text \<open>
  The data that flows through the pipeline, from \<open>internal/types/types.go\<close>: raw chain events,
  normalised events, enriched events (which embed a normalised event, here a record extension)
  and signals. \<open>map[string]any\<close> holds values of any dynamic type; the program only ever asks
  whether a value is nil or a string, so the other types are one constructor.
\<close>

section \<open>Identifiers\<close>

type_synonym ChainID = string
type_synonym EventType = string

definition ChainEthereum :: ChainID where "ChainEthereum = ''ethereum''"
definition ChainArbitrum :: ChainID where "ChainArbitrum = ''arbitrum''"
definition ChainBase :: ChainID where "ChainBase = ''base''"
definition ChainSolana :: ChainID where "ChainSolana = ''solana''"
definition ChainCosmosHub :: ChainID where "ChainCosmosHub = ''cosmoshub''"

definition EventBridgeDeposit :: EventType where "EventBridgeDeposit = ''bridge_deposit''"
definition EventTokenApproval :: EventType where "EventTokenApproval = ''token_approval''"
definition EventDEXSwap :: EventType where "EventDEXSwap = ''dex_swap''"
definition EventIBCSendPacket :: EventType where "EventIBCSendPacket = ''ibc_send_packet''"
definition EventIBCAckPacket :: EventType where "EventIBCAckPacket = ''ibc_ack_packet''"
definition EventTokenAccCreate :: EventType where "EventTokenAccCreate = ''token_account_create''"

lemmas chain_ids = ChainEthereum_def ChainArbitrum_def ChainBase_def ChainSolana_def
  ChainCosmosHub_def

lemmas event_types = EventBridgeDeposit_def EventTokenApproval_def EventDEXSwap_def
  EventIBCSendPacket_def EventIBCAckPacket_def EventTokenAccCreate_def

section \<open>Dynamically typed values\<close>

datatype any = AnyNil | AnyString string | AnyOther string

type_synonym data_map = "string \<rightharpoonup> any"

text \<open>Indexing a Go map: the zero value, nil, when the key is absent.\<close>

definition data_get :: "data_map \<Rightarrow> string \<Rightarrow> any" where
  "data_get d k = (case d k of None \<Rightarrow> AnyNil | Some v \<Rightarrow> v)"

text \<open>The type assertion \<open>v.(string)\<close>.\<close>

fun as_string :: "any \<Rightarrow> string option" where
  "as_string (AnyString s) = Some s"
| "as_string _ = None"

lemma data_get_upd [simp]: "data_get (d(k \<mapsto> v)) k' = (if k' = k then v else data_get d k')"
  by (simp add: data_get_def)

section \<open>Events and signals\<close>

record RawEvent =
  re_Chain :: ChainID
  re_Block :: uint64
  re_TxHash :: string
  re_Timestamp :: int64
  re_EventType :: EventType
  re_Data :: data_map

record ChainEvent =
  Chain :: ChainID
  Block :: uint64
  TxHash :: string
  Timestamp :: int64
  EventTy :: EventType
  Token :: string
  Amount :: string
  SourceAddress :: string
  ContractAddress :: string
  DestChain :: "ChainID option"
  RawData :: data_map

record EnrichedEvent = ChainEvent +
  ContractName :: "string option"
  Protocol :: "string option"
  AmountUSD :: "float64 option"

record Signal =
  sg_ID :: string
  sg_SignalType :: string
  sg_SourceChain :: ChainID
  sg_DestinationChain :: "ChainID option"
  sg_Token :: string
  sg_Amount :: string
  sg_AmountUSD :: "float64 option"
  sg_DetectedAt :: int64
  sg_EstimatedActionTime :: "int64 option"
  sg_Confidence :: float64
  sg_Metadata :: "string \<rightharpoonup> string"

text \<open>A concrete event, used where a property is instantiated.\<close>

definition demo_event :: "EventType \<Rightarrow> string \<Rightarrow> float64 option \<Rightarrow> EnrichedEvent" where
  "demo_event ty addr usd =
     \<lparr>Chain = ChainEthereum, Block = 100, TxHash = ''0xabc'', Timestamp = 1700000000,
      EventTy = ty, Token = ''USDC'', Amount = ''5'', SourceAddress = addr,
      ContractAddress = ''0xbridge'', DestChain = Some ChainSolana, RawData = Map.empty,
      ContractName = None, Protocol = Some ''wormhole'', AmountUSD = usd\<rparr>"

lemma demo_event_simps [simp]:
  "EventTy (demo_event ty addr usd) = ty" "SourceAddress (demo_event ty addr usd) = addr"
  "AmountUSD (demo_event ty addr usd) = usd" "Chain (demo_event ty addr usd) = ChainEthereum"
  "Token (demo_event ty addr usd) = ''USDC''" "Amount (demo_event ty addr usd) = ''5''"
  "DestChain (demo_event ty addr usd) = Some ChainSolana"
  by (simp_all add: demo_event_def)

end
