(* ===== verification/Tracker.thy ===== *)
theory Tracker
  imports Event_Types "HOL-Library.AList"
begin

text \<open>
  The status tracker (\<open>internal/status/tracker.go\<close>). Its map holds pointers and \<open>Snapshot\<close> hands
  out pointers to clones, so the cells live in an explicit heap and what a caller sees through a
  pointer is read from the heap at that time. Each operation runs under the tracker's lock and is
  atomic.
\<close>

section \<open>State\<close>

record ChainState =
  cs_Connected :: bool
  cs_LastBlock :: uint64
  cs_LastEventAt :: int64

record heap =
  hp_cells :: "nat \<Rightarrow> ChainState"
  hp_next :: nat

record Tracker =
  tk_chains :: "(ChainID \<times> nat) list"
  tk_startedAt :: time

definition zero_state :: ChainState where
  "zero_state = \<lparr>cs_Connected = False, cs_LastBlock = 0, cs_LastEventAt = 0\<rparr>"

definition alloc :: "ChainState \<Rightarrow> heap \<Rightarrow> nat \<times> heap" where
  "alloc s h = (hp_next h, h\<lparr>hp_cells := (hp_cells h)(hp_next h := s), hp_next := Suc (hp_next h)\<rparr>)"

definition update_cell :: "nat \<Rightarrow> (ChainState \<Rightarrow> ChainState) \<Rightarrow> heap \<Rightarrow> heap" where
  "update_cell p f h = h\<lparr>hp_cells := (hp_cells h)(p := f (hp_cells h p))\<rparr>"

section \<open>Operations\<close>

definition NewTracker :: "time \<Rightarrow> Tracker" where
  "NewTracker now = \<lparr>tk_chains = [], tk_startedAt = now\<rparr>"

definition getOrCreate :: "ChainID \<Rightarrow> Tracker \<Rightarrow> heap \<Rightarrow> nat \<times> Tracker \<times> heap" where
  "getOrCreate chain t h =
     (case map_of (tk_chains t) chain of
        Some s \<Rightarrow> (s, t, h)
      | None \<Rightarrow> (let (s, h') = alloc zero_state h in
          (s, t\<lparr>tk_chains := AList.update chain s (tk_chains t)\<rparr>, h')))"

definition SetConnected :: "ChainID \<Rightarrow> bool \<Rightarrow> Tracker \<Rightarrow> heap \<Rightarrow> Tracker \<times> heap" where
  "SetConnected chain conn t h =
     (let (s, t', h') = getOrCreate chain t h in
      (t', update_cell s (\<lambda>st. st\<lparr>cs_Connected := conn\<rparr>) h'))"

definition UpdateBlock :: "ChainID \<Rightarrow> uint64 \<Rightarrow> int64 \<Rightarrow> Tracker \<Rightarrow> heap \<Rightarrow> Tracker \<times> heap" where
  "UpdateBlock chain block timestamp t h =
     (let (s, t', h') = getOrCreate chain t h in
      (t', update_cell s (\<lambda>st. st\<lparr>cs_LastBlock := block, cs_LastEventAt := timestamp\<rparr>) h'))"

fun clone_all :: "(ChainID \<times> nat) list \<Rightarrow> (ChainID \<times> nat) list \<Rightarrow> heap \<Rightarrow> (ChainID \<times> nat) list \<times> heap"
where
  "clone_all cp [] h = (cp, h)"
| "clone_all cp ((k, v) # kvs) h =
     (let (clone, h') = alloc (hp_cells h v) h in clone_all (AList.update k clone cp) kvs h')"

definition Snapshot :: "time \<Rightarrow> Tracker \<Rightarrow> heap \<Rightarrow> (ChainID \<times> nat) list \<times> duration \<times> heap" where
  "Snapshot now t h =
     (let (cp, h') = clone_all [] (tk_chains t) h in (cp, now - tk_startedAt t, h'))"

section \<open>What is seen through the pointers\<close>

definition view :: "heap \<Rightarrow> (ChainID \<times> nat) list \<Rightarrow> ChainID \<Rightarrow> ChainState option" where
  "view h m chain = map_option (hp_cells h) (map_of m chain)"

definition tracker_ok :: "Tracker \<Rightarrow> heap \<Rightarrow> bool" where
  "tracker_ok t h \<longleftrightarrow> distinct (map fst (tk_chains t)) \<and> inj_on (map_of (tk_chains t)) (dom (map_of (tk_chains t))) \<and>
     (\<forall>c p. map_of (tk_chains t) c = Some p \<longrightarrow> p < hp_next h)"

definition state_of :: "heap \<Rightarrow> Tracker \<Rightarrow> ChainID \<Rightarrow> ChainState" where
  "state_of h t chain = (case view h (tk_chains t) chain of Some s \<Rightarrow> s | None \<Rightarrow> zero_state)"

lemma view_None [simp]: "view h m c = None \<longleftrightarrow> map_of m c = None"
  by (simp add: view_def)

lemma tracker_okD:
  "tracker_ok t h \<Longrightarrow> map_of (tk_chains t) c = Some p \<Longrightarrow> p < hp_next h"
  "tracker_ok t h \<Longrightarrow> map_of (tk_chains t) c = Some p \<Longrightarrow> map_of (tk_chains t) d = Some p \<Longrightarrow> c = d"
  unfolding tracker_ok_def by blast (metis domI inj_onD)

lemma getOrCreate_spec:
  assumes "tracker_ok t h" "getOrCreate chain t h = (s, t', h')"
  shows "tracker_ok t' h'" "map_of (tk_chains t') chain = Some s" "hp_cells h' s = state_of h t chain"
    "\<And>c. c \<noteq> chain \<Longrightarrow> view h' (tk_chains t') c = view h (tk_chains t) c"
    "\<And>p. p < hp_next h \<Longrightarrow> hp_cells h' p = hp_cells h p"
    "hp_next h \<le> hp_next h'" "map_of (tk_chains t) chain = None \<Longrightarrow> s = hp_next h"
    "map_of (tk_chains t) chain \<noteq> None \<Longrightarrow> map_of (tk_chains t) chain = Some s"
proof -
  have "tracker_ok t' h' \<and> map_of (tk_chains t') chain = Some s \<and> hp_cells h' s = state_of h t chain \<and>
    (\<forall>c. c \<noteq> chain \<longrightarrow> view h' (tk_chains t') c = view h (tk_chains t) c) \<and>
    (\<forall>p. p < hp_next h \<longrightarrow> hp_cells h' p = hp_cells h p) \<and> hp_next h \<le> hp_next h' \<and>
    (map_of (tk_chains t) chain = None \<longrightarrow> s = hp_next h) \<and>
    (map_of (tk_chains t) chain \<noteq> None \<longrightarrow> map_of (tk_chains t) chain = Some s)"
  proof (cases "map_of (tk_chains t) chain")
    case (Some p)
    then show ?thesis using assms by (simp add: getOrCreate_def state_of_def view_def)
  next
    case None
    let ?n = "hp_next h"
    have e: "s = ?n" "tk_chains t' = AList.update chain ?n (tk_chains t)"
      "hp_cells h' = (hp_cells h)(?n := zero_state)" "hp_next h' = Suc ?n"
      using assms(2) None by (auto simp: getOrCreate_def alloc_def)
    have m: "map_of (tk_chains t') = (map_of (tk_chains t))(chain \<mapsto> ?n)"
      by (simp add: e(2) update_conv')
    have lt: "\<And>c p. map_of (tk_chains t) c = Some p \<Longrightarrow> p < ?n" using tracker_okD(1) [OF assms(1)] .
    then have fresh: "map_of (tk_chains t) c \<noteq> Some ?n" for c by blast
    have "inj_on ((map_of (tk_chains t))(chain \<mapsto> ?n)) (dom ((map_of (tk_chains t))(chain \<mapsto> ?n)))"
      using assms(1) fresh unfolding tracker_ok_def inj_on_def dom_def
      by (metis (mono_tags, lifting) fun_upd_apply mem_Collect_eq)
    moreover have "distinct (map fst (tk_chains t'))"
      using assms(1) by (simp add: e(2) distinct_update tracker_ok_def)
    moreover have "p < Suc ?n" if "((map_of (tk_chains t))(chain \<mapsto> ?n)) c = Some p" for c p
      using that lt less_SucI by (metis lessI map_upd_Some_unfold)
    ultimately have "tracker_ok t' h'" unfolding tracker_ok_def m e(4) by blast
    moreover have "view h' (tk_chains t') c = view h (tk_chains t) c" if "c \<noteq> chain" for c
      using lt [of c] that by (cases "map_of (tk_chains t) c") (auto simp: view_def m e(3))
    ultimately show ?thesis using None lt
      by (auto simp: m e(1,3,4) state_of_def view_def)
  qed
  then show "tracker_ok t' h'" "map_of (tk_chains t') chain = Some s" "hp_cells h' s = state_of h t chain"
    "\<And>c. c \<noteq> chain \<Longrightarrow> view h' (tk_chains t') c = view h (tk_chains t) c"
    "\<And>p. p < hp_next h \<Longrightarrow> hp_cells h' p = hp_cells h p"
    "hp_next h \<le> hp_next h'" "map_of (tk_chains t) chain = None \<Longrightarrow> s = hp_next h"
    "map_of (tk_chains t) chain \<noteq> None \<Longrightarrow> map_of (tk_chains t) chain = Some s"
    by blast+
qed

lemma update_cell_simps [simp]:
  "hp_cells (update_cell p f h) = (hp_cells h)(p := f (hp_cells h p))" "hp_next (update_cell p f h) = hp_next h"
  by (simp_all add: update_cell_def)

text \<open>Both writers in one: create the chain's cell if need be, then change it.\<close>

definition write_state :: "(ChainState \<Rightarrow> ChainState) \<Rightarrow> ChainID \<Rightarrow> Tracker \<Rightarrow> heap \<Rightarrow> Tracker \<times> heap" where
  "write_state f chain t h =
     (let (s, t', h') = getOrCreate chain t h in (t', update_cell s f h'))"

lemma SetConnected_write:
  "SetConnected chain b = write_state (\<lambda>st. st\<lparr>cs_Connected := b\<rparr>) chain"
  by (simp add: fun_eq_iff SetConnected_def write_state_def)

lemma UpdateBlock_write:
  "UpdateBlock chain blk ts = write_state (\<lambda>st. st\<lparr>cs_LastBlock := blk, cs_LastEventAt := ts\<rparr>) chain"
  by (simp add: fun_eq_iff UpdateBlock_def write_state_def)

lemma write_state_spec:
  assumes ok: "tracker_ok t h" and w: "write_state f chain t h = (t', h')"
  shows "tracker_ok t' h'"
    "view h' (tk_chains t') = (view h (tk_chains t))(chain \<mapsto> f (state_of h t chain))"
    "\<And>p. p < hp_next h \<Longrightarrow> p \<notin> ran (map_of (tk_chains t)) \<Longrightarrow> hp_cells h' p = hp_cells h p"
    "hp_next h \<le> hp_next h'"
    "ran (map_of (tk_chains t')) \<subseteq> ran (map_of (tk_chains t)) \<union> {hp_next h..}"
proof -
  obtain s h1 where g: "getOrCreate chain t h = (s, t', h1)" and h': "h' = update_cell s f h1"
    using w by (auto simp: write_state_def split: prod.splits)
  note spec = getOrCreate_spec [OF ok g]
  show "tracker_ok t' h'" using spec(1) by (simp add: tracker_ok_def h')
  show "view h' (tk_chains t') = (view h (tk_chains t))(chain \<mapsto> f (state_of h t chain))"
  proof
    fix c
    show "view h' (tk_chains t') c = ((view h (tk_chains t))(chain \<mapsto> f (state_of h t chain))) c"
    proof (cases "c = chain")
      case True
      then show ?thesis using spec(2,3) by (simp add: view_def h')
    next
      case False
      then have "map_of (tk_chains t') c \<noteq> Some s" using tracker_okD(2) [OF spec(1) spec(2)] by blast
      then have "view h' (tk_chains t') c = view h1 (tk_chains t') c"
        by (cases "map_of (tk_chains t') c") (auto simp: view_def h')
      then show ?thesis using False spec(4) by simp
    qed
  qed
  show "hp_cells h' p = hp_cells h p" if "p < hp_next h" "p \<notin> ran (map_of (tk_chains t))" for p
  proof -
    have "p \<noteq> s" using that spec(7,8) by (cases "map_of (tk_chains t) chain") (auto simp: ran_def)
    then show ?thesis using spec(5) [OF that(1)] by (simp add: h')
  qed
  show "hp_next h \<le> hp_next h'" using spec(6) by (simp add: h')
  have "map_of (tk_chains t') = map_of (tk_chains t) \<or> s = hp_next h \<and>
      map_of (tk_chains t') = (map_of (tk_chains t))(chain \<mapsto> s)"
    using g by (auto simp: getOrCreate_def alloc_def update_conv' split: option.splits)
  then show "ran (map_of (tk_chains t')) \<subseteq> ran (map_of (tk_chains t)) \<union> {hp_next h..}"
    by (auto simp: ran_def split: if_splits)
qed

text \<open>C17. The two writers change the state of their own chain and of no other: seen from outside, the
  tracker is a map from chains to states, in which \<open>SetConnected\<close> sets the flag and keeps the
  block, \<open>UpdateBlock\<close> sets block and time and keeps the flag, and a chain first heard of starts
  from the zero state.\<close>

theorem tracker_refines_map:
  assumes "tracker_ok t h"
  shows "(case SetConnected chain b t h of (t', h') \<Rightarrow> tracker_ok t' h' \<and>
      view h' (tk_chains t') =
        (view h (tk_chains t))(chain \<mapsto> state_of h t chain\<lparr>cs_Connected := b\<rparr>)) \<and>
    (case UpdateBlock chain blk ts t h of (t', h') \<Rightarrow> tracker_ok t' h' \<and>
      view h' (tk_chains t') = (view h (tk_chains t))
        (chain \<mapsto> state_of h t chain\<lparr>cs_LastBlock := blk, cs_LastEventAt := ts\<rparr>))"
  using write_state_spec(1,2) [OF assms] unfolding SetConnected_write UpdateBlock_write
  by (auto split: prod.split)

section \<open>Snapshots are isolated\<close>

lemma alloc_simps [simp]:
  "fst (alloc s h) = hp_next h" "hp_cells (snd (alloc s h)) = (hp_cells h)(hp_next h := s)"
  "hp_next (snd (alloc s h)) = Suc (hp_next h)"
  by (simp_all add: alloc_def)

lemma clone_all_spec:
  assumes "clone_all cp kvs h = (cp', h')" "distinct (map fst kvs)"
    and "\<And>c p. map_of kvs c = Some p \<Longrightarrow> p < hp_next h"
    and "\<And>c p. map_of cp c = Some p \<Longrightarrow> p < hp_next h"
  shows "(\<forall>c. view h' cp' c = (case map_of kvs c of Some p \<Rightarrow> Some (hp_cells h p) | None \<Rightarrow> view h cp c)) \<and>
    (\<forall>p < hp_next h. hp_cells h' p = hp_cells h p) \<and> hp_next h \<le> hp_next h' \<and>
    ran (map_of cp') \<subseteq> ran (map_of cp) \<union> {hp_next h..<hp_next h'}"
  using assms
proof (induction cp kvs h rule: clone_all.induct)
  case (1 cp h)
  then show ?case by simp
next
  case (2 cp k v kvs h)
  let ?n = "hp_next h"
  let ?h1 = "snd (alloc (hp_cells h v) h)"
  let ?cp1 = "AList.update k ?n cp"
  have r: "clone_all ?cp1 kvs ?h1 = (cp', h')" using 2(2) by (simp add: split_def)
  have k: "map_of kvs k = None" using 2(3) by (simp add: map_of_eq_None_iff)
  have v: "v < ?n" using 2(4) [of k v] by simp
  have lt: "map_of kvs c = Some p \<Longrightarrow> p < ?n" for c p using 2(4) [of c p] k by (cases "c = k") auto
  have IH: "(\<forall>c. view h' cp' c = (case map_of kvs c of Some p \<Rightarrow> Some (hp_cells ?h1 p) | None \<Rightarrow> view ?h1 ?cp1 c)) \<and>
    (\<forall>p < hp_next ?h1. hp_cells h' p = hp_cells ?h1 p) \<and> hp_next ?h1 \<le> hp_next h' \<and>
    ran (map_of cp') \<subseteq> ran (map_of ?cp1) \<union> {hp_next ?h1..<hp_next h'}"
  proof (rule 2(1) [OF refl _ r])
    show "(?n, ?h1) = alloc (hp_cells h v) h" by (simp add: alloc_def)
    show "distinct (map fst kvs)" using 2(3) by simp
    show "map_of kvs c = Some p \<Longrightarrow> p < hp_next ?h1" for c p using lt by fastforce
    show "map_of ?cp1 c = Some p \<Longrightarrow> p < hp_next ?h1" for c p
      using 2(5) [of c p] by (auto simp: update_conv' split: if_splits)
  qed
  have view1: "view ?h1 ?cp1 c = (if c = k then Some (hp_cells h v) else view h cp c)" for c
    using 2(5) [of c] by (cases "map_of cp c") (auto simp: view_def update_conv')
  have "view h' cp' c = (case map_of ((k, v) # kvs) c of Some p \<Rightarrow> Some (hp_cells h p) | None \<Rightarrow> view h cp c)" for c
    using IH lt [of c] k view1 [of c] by (auto split: option.split)
  moreover have "ran (map_of cp') \<subseteq> ran (map_of cp) \<union> {?n..<hp_next h'}"
  proof
    fix x assume "x \<in> ran (map_of cp')"
    moreover have "ran (map_of ?cp1) \<subseteq> ran (map_of cp) \<union> {?n}"
      by (auto simp: ran_def update_conv' split: if_splits)
    moreover have "Suc ?n \<le> hp_next h'" "ran (map_of cp') \<subseteq> ran (map_of ?cp1) \<union> {Suc ?n..<hp_next h'}"
      using IH by simp_all
    ultimately show "x \<in> ran (map_of cp) \<union> {?n..<hp_next h'}" by fastforce
  qed
  moreover have "(\<forall>p < ?n. hp_cells h' p = hp_cells h p) \<and> ?n \<le> hp_next h'" using IH by simp
  ultimately show ?case by blast
qed

datatype tracker_op =
    OpConnected ChainID bool
  | OpBlock ChainID uint64 int64
  | OpSnapshot time

fun tracker_step :: "tracker_op \<Rightarrow> Tracker \<times> heap \<Rightarrow> Tracker \<times> heap" where
  "tracker_step (OpConnected c b) (t, h) = SetConnected c b t h"
| "tracker_step (OpBlock c blk ts) (t, h) = UpdateBlock c blk ts t h"
| "tracker_step (OpSnapshot now) (t, h) = (case Snapshot now t h of (cp, d, h') \<Rightarrow> (t, h'))"

fun tracker_run :: "tracker_op list \<Rightarrow> Tracker \<times> heap \<Rightarrow> Tracker \<times> heap" where
  "tracker_run [] s = s"
| "tracker_run (x # xs) s = tracker_run xs (tracker_step x s)"

definition uptime :: "time \<Rightarrow> Tracker \<Rightarrow> duration" where
  "uptime now t = now - tk_startedAt t"

lemma Snapshot_spec:
  assumes ok: "tracker_ok t h" and s: "Snapshot now t h = (cp, d, h')"
  shows "view h' cp = view h (tk_chains t)" "view h' (tk_chains t) = view h (tk_chains t)"
    "tracker_ok t h'" "\<forall>p < hp_next h. hp_cells h' p = hp_cells h p" "hp_next h \<le> hp_next h'"
    "ran (map_of cp) \<subseteq> {hp_next h..<hp_next h'}"
proof -
  have c: "clone_all [] (tk_chains t) h = (cp, h')" using s by (auto simp: Snapshot_def split: prod.splits)
  have d: "distinct (map fst (tk_chains t))" using ok by (simp add: tracker_ok_def)
  note lt = tracker_okD(1) [OF ok]
  have spec: "(\<forall>c. view h' cp c = (case map_of (tk_chains t) c of Some p \<Rightarrow> Some (hp_cells h p) | None \<Rightarrow> view h [] c)) \<and>
    (\<forall>p < hp_next h. hp_cells h' p = hp_cells h p) \<and> hp_next h \<le> hp_next h' \<and>
    ran (map_of cp) \<subseteq> ran (map_of ([] :: (ChainID \<times> nat) list)) \<union> {hp_next h..<hp_next h'}"
    by (rule clone_all_spec [OF c d]) (use lt in auto)
  then show "view h' cp = view h (tk_chains t)"
    by (auto simp: fun_eq_iff view_def split: option.split)
  show "view h' (tk_chains t) = view h (tk_chains t)"
  proof
    fix x show "view h' (tk_chains t) x = view h (tk_chains t) x"
      using spec lt [of x] by (cases "map_of (tk_chains t) x") (auto simp: view_def)
  qed
  show "tracker_ok t h'" using ok spec unfolding tracker_ok_def by (meson order_less_le_trans)
  show "\<forall>p < hp_next h. hp_cells h' p = hp_cells h p" "hp_next h \<le> hp_next h'"
    "ran (map_of cp) \<subseteq> {hp_next h..<hp_next h'}" using spec by auto
qed

lemma tracker_step_frame:
  assumes "tracker_ok t h" "tracker_step x (t, h) = (t', h')" "p < hp_next h"
    and "p \<notin> ran (map_of (tk_chains t))"
  shows "tracker_ok t' h' \<and> hp_cells h' p = hp_cells h p \<and> p < hp_next h' \<and> p \<notin> ran (map_of (tk_chains t'))"
proof (cases x)
  case (OpSnapshot now)
  obtain cp d where s: "Snapshot now t h = (cp, d, h')" and "t' = t"
    using assms(2) OpSnapshot by (auto split: prod.splits)
  then show ?thesis using Snapshot_spec [OF assms(1) s] assms(3,4) by auto
next
  case (OpConnected c b)
  then have "write_state (\<lambda>st. st\<lparr>cs_Connected := b\<rparr>) c t h = (t', h')"
    using assms(2) by (simp add: SetConnected_write)
  from write_state_spec [OF assms(1) this] show ?thesis using assms(3,4) by force
next
  case (OpBlock c blk ts)
  then have "write_state (\<lambda>st. st\<lparr>cs_LastBlock := blk, cs_LastEventAt := ts\<rparr>) c t h = (t', h')"
    using assms(2) by (simp add: UpdateBlock_write)
  from write_state_spec [OF assms(1) this] show ?thesis using assms(3,4) by force
qed

lemma tracker_run_frame:
  "tracker_ok t h \<Longrightarrow> p < hp_next h \<Longrightarrow> p \<notin> ran (map_of (tk_chains t)) \<Longrightarrow>
   hp_cells (snd (tracker_run xs (t, h))) p = hp_cells h p"
proof (induction xs arbitrary: t h)
  case Nil
  then show ?case by simp
next
  case (Cons x xs)
  obtain t' h' where s: "tracker_step x (t, h) = (t', h')" by force
  from tracker_step_frame [OF Cons.prems(1) s Cons.prems(2,3)] Cons.IH show ?case by (simp add: s)
qed

text \<open>C18. A snapshot shows the states of all chains at the time it is taken and the uptime; it leaves
  the tracker as it was; and no later operation, however many, changes what is seen through it,
  although the tracker updates its cells in place.\<close>

theorem Snapshot_isolated:
  assumes "tracker_ok t h" "Snapshot now t h = (cp, d, h')"
  shows "view h' cp = view h (tk_chains t) \<and> d = uptime now t \<and>
    view h' (tk_chains t) = view h (tk_chains t) \<and>
    view (snd (tracker_run ops (t, h'))) cp = view h (tk_chains t)"
proof -
  note spec = Snapshot_spec [OF assms]
  have ran: "p < hp_next h' \<and> p \<notin> ran (map_of (tk_chains t))" if "map_of cp c = Some p" for c p
  proof -
    have p: "hp_next h \<le> p" "p < hp_next h'" using that spec(6) by (auto simp: ran_def)
    then show ?thesis using tracker_okD(1) [OF assms(1)] by (fastforce simp: ran_def)
  qed
  have "view (snd (tracker_run ops (t, h'))) cp = view h' cp"
  proof
    fix c show "view (snd (tracker_run ops (t, h'))) cp c = view h' cp c"
      using ran [of c] tracker_run_frame [OF spec(3)]
      by (cases "map_of cp c") (auto simp: view_def)
  qed
  then show ?thesis using spec(1,2) assms(2)
    by (auto simp: uptime_def Snapshot_def split: prod.splits)
qed

definition demo_heap :: heap where
  "demo_heap = \<lparr>hp_cells = (\<lambda>_. zero_state)(0 := \<lparr>cs_Connected = True, cs_LastBlock = 7, cs_LastEventAt = 9\<rparr>),
                hp_next = 1\<rparr>"

definition demo_tracker :: Tracker where
  "demo_tracker = \<lparr>tk_chains = [(ChainEthereum, 0)], tk_startedAt = 5\<rparr>"

lemma demo_tracker_ok: "tracker_ok demo_tracker demo_heap"
  by (auto simp: tracker_ok_def demo_tracker_def demo_heap_def inj_on_def split: if_splits)

lemma demo_view:
  "view demo_heap (tk_chains demo_tracker) ChainEthereum
     = Some \<lparr>cs_Connected = True, cs_LastBlock = 7, cs_LastEventAt = 9\<rparr>"
  by (simp add: view_def demo_tracker_def demo_heap_def)

lemma tracker_refines_map_witness:
  "(case SetConnected ChainEthereum False demo_tracker demo_heap of (t', h') \<Rightarrow>
      view h' (tk_chains t') ChainEthereum
        = Some \<lparr>cs_Connected = False, cs_LastBlock = 7, cs_LastEventAt = 9\<rparr>)"
  using tracker_refines_map [OF demo_tracker_ok, THEN conjunct1, of ChainEthereum False]
  by (auto simp: state_of_def demo_view split: prod.splits)

lemma Snapshot_isolated_witness:
  "(case Snapshot 25 demo_tracker demo_heap of (cp, d, h') \<Rightarrow> d = 20 \<and>
      view (snd (tracker_run [OpBlock ChainEthereum 8 10] (demo_tracker, h'))) cp ChainEthereum
        = Some \<lparr>cs_Connected = True, cs_LastBlock = 7, cs_LastEventAt = 9\<rparr>)"
proof -
  obtain cp d h' where s: "Snapshot 25 demo_tracker demo_heap = (cp, d, h')"
    by (metis prod_cases3)
  have u: "uptime 25 demo_tracker = 20" by (simp add: uptime_def demo_tracker_def)
  from Snapshot_isolated [OF demo_tracker_ok s, of "[OpBlock ChainEthereum 8 10]"]
  show ?thesis unfolding s prod.case by (simp only: u demo_view simp_thms)
qed

end
