(* ===== verification/Emitter.thy ===== *)
theory Emitter
  imports Go_Time Channels Event_Types Tracker Go_Float "HOL-Library.Sublist"
begin

text \<open>
  The gRPC emitter (\<open>internal/signal/grpc/grpc.go\<close>): every subscriber has a filter and a bounded
  channel; \<open>Emit\<close> offers a signal to each and drops it where the channel is full. A listener is a
  pointer in the source: here it carries a number, its identity, which \<open>SubscribeSignals\<close> hands out
  and by which the deferred clean-up removes it. The channels are used through the laws of
  \<open>bounded_fifo\<close>. \<open>Emit\<close> holds the read lock for its whole loop and only the loop of \<open>Run\<close> calls it,
  so that a subscriber's receive during \<open>Emit\<close> is one before or after it.
\<close>

section \<open>Messages\<close>

record pbSignal =
  pb_Id :: string
  pb_SignalType :: string
  pb_SourceChain :: string
  pb_DestinationChain :: string
  pb_Token :: string
  pb_Amount :: string
  pb_AmountUsd :: float64
  pb_DetectedAt :: int64
  pb_EstimatedActionTime :: int64
  pb_Confidence :: float64
  pb_Metadata :: "string \<rightharpoonup> string"

record SignalFilter =
  fl_SignalTypes :: "string list"
  fl_SourceChains :: "string list"
  fl_DestinationChains :: "string list"
  fl_Tokens :: "string list"
  fl_MinConfidence :: float64

record ChainStatus =
  st_ChainId :: string
  st_Connected :: bool
  st_LastBlock :: uint64
  st_LastEventAt :: int64

record StatusResponse =
  sr_SignalsEmitted :: int64
  sr_UptimeSeconds :: int64
  sr_Chains :: "ChainStatus list"

definition toProto :: "Signal \<Rightarrow> pbSignal" where
  "toProto sig =
     (let p = \<lparr>pb_Id = sg_ID sig, pb_SignalType = sg_SignalType sig, pb_SourceChain = sg_SourceChain sig,
            pb_DestinationChain = [], pb_Token = sg_Token sig, pb_Amount = sg_Amount sig,
            pb_AmountUsd = f64_of_int 0, pb_DetectedAt = sg_DetectedAt sig, pb_EstimatedActionTime = 0,
            pb_Confidence = sg_Confidence sig, pb_Metadata = sg_Metadata sig\<rparr>;
          p = (case sg_DestinationChain sig of Some v \<Rightarrow> p\<lparr>pb_DestinationChain := v\<rparr> | None \<Rightarrow> p);
          p = (case sg_AmountUSD sig of Some v \<Rightarrow> p\<lparr>pb_AmountUsd := v\<rparr> | None \<Rightarrow> p);
          p = (case sg_EstimatedActionTime sig of Some v \<Rightarrow> p\<lparr>pb_EstimatedActionTime := v\<rparr> | None \<Rightarrow> p)
      in p)"

definition matchesFilter :: "SignalFilter \<Rightarrow> pbSignal \<Rightarrow> bool" where
  "matchesFilter f sig =
     (if 0 < length (fl_SignalTypes f) \<and> pb_SignalType sig \<notin> set (fl_SignalTypes f) then False
      else if 0 < length (fl_SourceChains f) \<and> pb_SourceChain sig \<notin> set (fl_SourceChains f) then False
      else if 0 < length (fl_DestinationChains f) \<and> pb_DestinationChain sig \<notin> set (fl_DestinationChains f) then False
      else if 0 < length (fl_Tokens f) \<and> pb_Token sig \<notin> set (fl_Tokens f) then False
      else if f64_of_int 0 < fl_MinConfidence f \<and> pb_Confidence sig < fl_MinConfidence f then False
      else True)"

section \<open>The emitter\<close>

record listener =
  li_id :: nat
  li_filter :: SignalFilter
  li_ch :: "pbSignal chan"

record Emitter =
  em_subscriberBufSize :: int
  em_listeners :: "listener list"
  em_dropped :: int64
  em_emitted :: int64
  em_next :: nat

definition NewEmitter :: "int \<Rightarrow> Emitter" where
  "NewEmitter subscriberBufSize =
     \<lparr>em_subscriberBufSize = subscriberBufSize, em_listeners = [], em_dropped = 0, em_emitted = 0, em_next = 0\<rparr>"

text \<open>The loop of \<open>Emit\<close>: the listeners afterwards, and by how much both counters grow. The counters are of
  type \<open>atomic.Int64\<close> and wrap around.\<close>

fun offer :: "pbSignal \<Rightarrow> listener list \<Rightarrow> listener list \<times> int \<times> int" where
  "offer sig [] = ([], 0, 0)"
| "offer sig (l # ls) =
     (case offer sig ls of (ls', emitted, dropped) \<Rightarrow>
        if \<not> matchesFilter (li_filter l) sig then (l # ls', emitted, dropped)
        else (case try_send sig (li_ch l) of
                Some ch \<Rightarrow> (l\<lparr>li_ch := ch\<rparr> # ls', emitted + 1, dropped)
              | None \<Rightarrow> (l # ls', emitted, dropped + 1)))"

definition Emit :: "Signal \<Rightarrow> Emitter \<Rightarrow> Emitter" where
  "Emit sig e =
     (case offer (toProto sig) (em_listeners e) of (ls, emitted, dropped) \<Rightarrow>
        e\<lparr>em_listeners := ls, em_emitted := i64 (em_emitted e + emitted), em_dropped := i64 (em_dropped e + dropped)\<rparr>)"

text \<open>The entry and the deferred exit of \<open>SubscribeSignals\<close>. The entry is for a buffer size that is not negative: with
  a negative one \<open>make\<close> panics (\<open>subscribing_panics\<close>), which ends the process; that is a step of \<open>Oracle_Process\<close>.\<close>

definition subscribing_panics :: "Emitter \<Rightarrow> bool" where
  "subscribing_panics e \<longleftrightarrow> em_subscriberBufSize e < 0"

definition subscribe :: "SignalFilter \<Rightarrow> Emitter \<Rightarrow> nat \<times> Emitter" where
  "subscribe f e =
     (let l = \<lparr>li_id = em_next e, li_filter = f, li_ch = make_chan (em_subscriberBufSize e)\<rparr>
      in (li_id l, e\<lparr>em_listeners := em_listeners e @ [l], em_next := Suc (em_next e)\<rparr>))"

definition unsubscribe :: "nat \<Rightarrow> Emitter \<Rightarrow> Emitter" where
  "unsubscribe l e = e\<lparr>em_listeners := filter (\<lambda>existing. li_id existing \<noteq> l) (em_listeners e)\<rparr>"

text \<open>A receive in the loop of \<open>SubscribeSignals\<close>.\<close>

fun recv_at :: "nat \<Rightarrow> listener list \<Rightarrow> (pbSignal \<times> listener list) option" where
  "recv_at i [] = None"
| "recv_at i (l # ls) =
     (if li_id l = i then (case try_recv (li_ch l) of
          None \<Rightarrow> None
        | Some (sig, ch) \<Rightarrow> Some (sig, l\<lparr>li_ch := ch\<rparr> # ls))
      else (case recv_at i ls of None \<Rightarrow> None | Some (sig, ls') \<Rightarrow> Some (sig, l # ls')))"

definition chain_status :: "heap \<Rightarrow> ChainID \<times> nat \<Rightarrow> ChainStatus" where
  "chain_status h c =
     (let state = hp_cells h (snd c)
      in \<lparr>st_ChainId = fst c, st_Connected = cs_Connected state, st_LastBlock = cs_LastBlock state,
          st_LastEventAt = cs_LastEventAt state\<rparr>)"

definition GetStatus :: "time \<Rightarrow> Emitter \<Rightarrow> Tracker option \<Rightarrow> heap \<Rightarrow> StatusResponse \<times> heap" where
  "GetStatus now e tracker h =
     (let resp = \<lparr>sr_SignalsEmitted = em_emitted e, sr_UptimeSeconds = 0, sr_Chains = []\<rparr>
      in case tracker of
           None \<Rightarrow> (resp, h)
         | Some t \<Rightarrow> (case Snapshot now t h of (states, up, h') \<Rightarrow>
             (resp\<lparr>sr_UptimeSeconds := f64_trunc (Seconds up), sr_Chains := map (chain_status h') states\<rparr>, h')))"

text \<open>The loop of \<open>Run\<close>: it ends when the context is cancelled or the signals are used up.\<close>

fun emitter_run :: "(nat \<Rightarrow> bool) \<Rightarrow> nat \<Rightarrow> (Signal, 'c) Traced list \<Rightarrow> Emitter \<times> counters \<Rightarrow> Emitter \<times> counters" where
  "emitter_run cancelled i [] (e, m) = (e, m)"
| "emitter_run cancelled i (traced # ins) (e, m) =
     (if cancelled i then (e, m)
      else emitter_run cancelled (Suc i) ins (Emit (tr_Value traced) e, count_received m))"

lemma emitter_run_calm:
  "emitter_run (\<lambda>_. False) i ins (e, m) =
     (fold (Emit \<circ> tr_Value) ins e, m\<lparr>n_received := n_received m + int (length ins)\<rparr>)"
  by (induction ins arbitrary: i e m) (simp_all add: count_received_def)

section \<open>Runs of the service\<close>

text \<open>
  A run is a sequence of actions of the emitter and of the subscribers' goroutines, in any
  interleaving: a client subscribes, a signal is emitted, a subscriber's goroutine takes a signal
  and sends it to its client, its client is gone, or the send fails with the signal taken. What a
  client was sent is recorded by identity.
\<close>

datatype act = Subscribe SignalFilter | EmitSig Signal | Deliver nat | Hangup nat | SendFails nat

record service =
  sv_em :: Emitter
  sv_sent :: "nat \<Rightarrow> pbSignal list"

definition subscribed :: "nat \<Rightarrow> service \<Rightarrow> listener option" where
  "subscribed i s = find (\<lambda>l. li_id l = i) (em_listeners (sv_em s))"

fun sv_step :: "act \<Rightarrow> service \<Rightarrow> service option" where
  "sv_step (Subscribe f) s =
     (if subscribing_panics (sv_em s) then None else Some (s\<lparr>sv_em := snd (subscribe f (sv_em s))\<rparr>))"
| "sv_step (EmitSig sig) s = Some (s\<lparr>sv_em := Emit sig (sv_em s)\<rparr>)"
| "sv_step (Deliver i) s =
     (case recv_at i (em_listeners (sv_em s)) of
        None \<Rightarrow> None
      | Some (sig, ls) \<Rightarrow> Some (s\<lparr>sv_em := (sv_em s)\<lparr>em_listeners := ls\<rparr>,
            sv_sent := (sv_sent s)(i := sv_sent s i @ [sig])\<rparr>))"
| "sv_step (Hangup i) s =
     (if subscribed i s = None then None else Some (s\<lparr>sv_em := unsubscribe i (sv_em s)\<rparr>))"
| "sv_step (SendFails i) s =
     (case recv_at i (em_listeners (sv_em s)) of
        None \<Rightarrow> None
      | Some (sig, ls) \<Rightarrow> Some (s\<lparr>sv_em := unsubscribe i ((sv_em s)\<lparr>em_listeners := ls\<rparr>)\<rparr>))"

fun sv_run :: "act list \<Rightarrow> service \<Rightarrow> service option" where
  "sv_run [] s = Some s"
| "sv_run (a # as) s = (case sv_step a s of None \<Rightarrow> None | Some t \<Rightarrow> sv_run as t)"

definition start :: "int \<Rightarrow> service" where
  "start bufSize = \<lparr>sv_em = NewEmitter bufSize, sv_sent = (\<lambda>_. [])\<rparr>"

section \<open>What one subscriber sees\<close>

text \<open>What \<open>Emit\<close> does to one listener.\<close>

definition offer1 :: "pbSignal \<Rightarrow> listener \<Rightarrow> listener" where
  "offer1 sig l =
     (if matchesFilter (li_filter l) sig
      then (case try_send sig (li_ch l) of Some ch \<Rightarrow> l\<lparr>li_ch := ch\<rparr> | None \<Rightarrow> l) else l)"

lemma offer1_simps [simp]: "li_id (offer1 sig l) = li_id l" "li_filter (offer1 sig l) = li_filter l"
  by (simp_all add: offer1_def split: option.split)

lemma offer_listeners: "fst (offer sig ls) = map (offer1 sig) ls"
  by (induction ls) (auto simp: offer1_def split: prod.splits option.split)

lemma offer_counts:
  "offer sig ls = (ls', m, d) \<Longrightarrow>
   m + d = int (length (filter (\<lambda>l. matchesFilter (li_filter l) sig) ls)) \<and> 0 \<le> m \<and> 0 \<le> d \<and>
   d = int (length (filter (\<lambda>l. matchesFilter (li_filter l) sig \<and> try_send sig (li_ch l) = None) ls))"
  by (induction ls arbitrary: ls' m d) (auto split: prod.splits option.splits if_splits)

lemma Emit_listeners [simp]: "em_listeners (Emit sig e) = map (offer1 (toProto sig)) (em_listeners e)"
  using offer_listeners [of "toProto sig" "em_listeners e"] by (simp add: Emit_def split_beta)

lemma Emit_static [simp]:
  "em_next (Emit sig e) = em_next e" "em_subscriberBufSize (Emit sig e) = em_subscriberBufSize e"
  by (simp_all add: Emit_def split: prod.split)

lemma find_map: "find P (map f xs) = map_option f (find (P \<circ> f) xs)"
  by (induction xs) auto

lemma find_append: "find P (xs @ ys) = (case find P xs of Some x \<Rightarrow> Some x | None \<Rightarrow> find P ys)"
  by (induction xs) auto

lemma find_unsubscribed:
  "find (\<lambda>l. li_id l = i) (filter (\<lambda>l. li_id l \<noteq> j) ls) =
   (if i = j then None else find (\<lambda>l. li_id l = i) ls)"
  by (induction ls) auto

lemma recv_at_None: "find (\<lambda>l. li_id l = i) ls = None \<Longrightarrow> recv_at i ls = None"
  by (induction ls) (auto split: if_splits)

lemma recv_at_empty:
  "find (\<lambda>l. li_id l = i) ls = Some l \<Longrightarrow> try_recv (li_ch l) = None \<Longrightarrow> recv_at i ls = None"
  by (induction ls) (auto split: if_splits)

lemma recv_at_Some:
  assumes "find (\<lambda>l. li_id l = i) ls = Some l" "try_recv (li_ch l) = Some (sig, ch)"
  shows "\<exists>ls'. recv_at i ls = Some (sig, ls') \<and>
     (\<forall>j. find (\<lambda>l. li_id l = j) ls' = (if j = i then Some (l\<lparr>li_ch := ch\<rparr>) else find (\<lambda>l. li_id l = j) ls))"
  using assms
proof (induction ls)
  case (Cons k ls)
  show ?case
  proof (cases "li_id k = i")
    case True
    then show ?thesis using Cons.prems by auto
  next
    case False
    then obtain ls' where "recv_at i ls = Some (sig, ls')"
      "\<forall>j. find (\<lambda>l. li_id l = j) ls' = (if j = i then Some (l\<lparr>li_ch := ch\<rparr>) else find (\<lambda>l. li_id l = j) ls)"
      using Cons by auto
    then show ?thesis using False by (intro exI [of _ "k # ls'"]) auto
  qed
qed simp

lemma recv_at_update:
  assumes "recv_at i ls = Some (sig, ls')"
  shows "\<exists>l ch. find (\<lambda>l. li_id l = i) ls = Some l \<and> try_recv (li_ch l) = Some (sig, ch) \<and>
     (\<forall>j. find (\<lambda>l. li_id l = j) ls' = (if j = i then Some (l\<lparr>li_ch := ch\<rparr>) else find (\<lambda>l. li_id l = j) ls))"
proof -
  obtain l where l: "find (\<lambda>l. li_id l = i) ls = Some l" using assms recv_at_None [of i ls] by fastforce
  obtain sig' ch where ch: "try_recv (li_ch l) = Some (sig', ch)"
    using assms recv_at_empty [OF l] by fastforce
  from recv_at_Some [OF l ch] assms l ch show ?thesis by auto
qed

text \<open>The part of the state that belongs to subscriber \<open>i\<close>, and what an action does to it.\<close>

type_synonym mine = "listener option \<times> pbSignal list"

definition mine :: "nat \<Rightarrow> service \<Rightarrow> mine" where
  "mine i s = (subscribed i s, sv_sent s i)"

fun mine_step :: "nat \<Rightarrow> act \<Rightarrow> mine \<Rightarrow> mine option" where
  "mine_step i (Subscribe f) (lo, sent) = Some (lo, sent)"
| "mine_step i (EmitSig sig) (lo, sent) = Some (map_option (offer1 (toProto sig)) lo, sent)"
| "mine_step i (Deliver j) (lo, sent) =
     (if j \<noteq> i then Some (lo, sent)
      else (case lo of None \<Rightarrow> None
        | Some l \<Rightarrow> (case try_recv (li_ch l) of None \<Rightarrow> None
            | Some (sig, ch) \<Rightarrow> Some (Some (l\<lparr>li_ch := ch\<rparr>), sent @ [sig]))))"
| "mine_step i (Hangup j) (lo, sent) =
     (if j \<noteq> i then Some (lo, sent) else if lo = None then None else Some (None, sent))"
| "mine_step i (SendFails j) (lo, sent) =
     (if j \<noteq> i then Some (lo, sent)
      else (case lo of None \<Rightarrow> None
        | Some l \<Rightarrow> (case try_recv (li_ch l) of None \<Rightarrow> None | Some _ \<Rightarrow> Some (None, sent))))"

lemma sv_step_mine:
  assumes "sv_step a s = Some t" "i < em_next (sv_em s)"
  shows "mine_step i a (mine i s) = Some (mine i t) \<and> em_next (sv_em s) \<le> em_next (sv_em t)"
proof (cases a)
  case (Subscribe f)
  then show ?thesis using assms
    by (auto simp: mine_def subscribed_def subscribe_def find_append split: option.split if_splits)
next
  case (EmitSig sig)
  then show ?thesis using assms by (auto simp: mine_def subscribed_def find_map comp_def)
next
  case (Deliver j)
  then obtain sig ls where r: "recv_at j (em_listeners (sv_em s)) = Some (sig, ls)"
    and t: "t = s\<lparr>sv_em := (sv_em s)\<lparr>em_listeners := ls\<rparr>, sv_sent := (sv_sent s)(j := sv_sent s j @ [sig])\<rparr>"
    using assms(1) by (auto split: option.splits)
  from recv_at_update [OF r] Deliver show ?thesis by (auto simp: t mine_def subscribed_def)
next
  case (Hangup j)
  then show ?thesis using assms
    by (auto simp: mine_def subscribed_def unsubscribe_def find_unsubscribed split: if_splits)
next
  case (SendFails j)
  then obtain sig ls where r: "recv_at j (em_listeners (sv_em s)) = Some (sig, ls)"
    and t: "t = s\<lparr>sv_em := unsubscribe j ((sv_em s)\<lparr>em_listeners := ls\<rparr>)\<rparr>"
    using assms(1) by (auto split: option.splits)
  from recv_at_update [OF r] SendFails show ?thesis
    by (auto simp: t mine_def subscribed_def unsubscribe_def find_unsubscribed)
qed

fun concerns :: "nat \<Rightarrow> act \<Rightarrow> bool" where
  "concerns i (Subscribe f) = False"
| "concerns i (EmitSig sig) = True"
| "concerns i (Deliver j) = (j = i)"
| "concerns i (Hangup j) = (j = i)"
| "concerns i (SendFails j) = (j = i)"

lemma mine_step_other: "\<not> concerns i a \<Longrightarrow> mine_step i a m = Some m"
  by (cases a; cases m) auto

lemma sv_step_enabled:
  assumes "mine_step i a (mine i s) = Some m" "concerns i a"
  shows "\<exists>t. sv_step a s = Some t"
proof (cases a)
  case (Deliver j)
  then show ?thesis using assms recv_at_Some [of i "em_listeners (sv_em s)"]
    by (fastforce simp: mine_def subscribed_def split: option.splits)
next
  case (SendFails j)
  then show ?thesis using assms recv_at_Some [of i "em_listeners (sv_em s)"]
    by (fastforce simp: mine_def subscribed_def split: option.splits)
qed (use assms in \<open>auto simp: mine_def split: if_splits\<close>)

text \<open>C23. Subscribers are isolated: from any state, whatever the other subscribers do meanwhile (come, take
  nothing, read slowly, fail or leave), subscriber \<open>i\<close> is sent the same signals and has the same
  buffer as in the run in which only its own actions and the emissions happen.\<close>

theorem subscribers_are_isolated:
  assumes "sv_run acts s = Some t" "i < em_next (sv_em s)"
  shows "\<exists>t'. sv_run (filter (concerns i) acts) s = Some t' \<and> subscribed i t' = subscribed i t \<and>
    sv_sent t' i = sv_sent t i"
proof -
  have "\<exists>t'. sv_run (filter (concerns i) acts) s' = Some t' \<and> mine i t' = mine i t"
    if "mine i s' = mine i s" "i < em_next (sv_em s')" for s'
    using assms that
  proof (induction acts arbitrary: s s')
    case (Cons a acts)
    obtain u where u: "sv_step a s = Some u" "sv_run acts u = Some t"
      using Cons.prems(1) by (auto split: option.splits)
    note m = sv_step_mine [OF u(1) Cons.prems(2)]
    have i: "i < em_next (sv_em u)" using m Cons.prems(2) by simp
    show ?case
    proof (cases "concerns i a")
      case False
      then have "mine i s' = mine i u" using m mine_step_other [of i a] Cons.prems(3) by simp
      then show ?thesis using Cons.IH [OF u(2) i, of s'] False Cons.prems(4) by simp
    next
      case True
      have m': "mine_step i a (mine i s') = Some (mine i u)" using m Cons.prems(3) by simp
      then obtain u' where u': "sv_step a s' = Some u'" using sv_step_enabled True by blast
      from sv_step_mine [OF this Cons.prems(4)] m' have "mine i u' = mine i u" "i < em_next (sv_em u')"
        using Cons.prems(4) by auto
      then show ?thesis using Cons.IH [OF u(2) i, of u'] True u' by simp
    qed
  qed simp
  from this [OF refl assms(2)] show ?thesis by (auto simp: mine_def)
qed

section \<open>The stream of a subscriber\<close>

fun emitted_signal :: "act \<Rightarrow> pbSignal list" where
  "emitted_signal (EmitSig sig) = [toProto sig]"
| "emitted_signal _ = []"

text \<open>The signals that a subscriber with filter \<open>f\<close> wants among those emitted.\<close>

definition wanted :: "SignalFilter \<Rightarrow> act list \<Rightarrow> pbSignal list" where
  "wanted f acts = filter (matchesFilter f) (concat (map emitted_signal acts))"

lemma wanted_snoc: "wanted f (acts @ [a]) = wanted f acts @ filter (matchesFilter f) (emitted_signal a)"
  by (simp add: wanted_def)

lemma wanted_Nil [simp]: "wanted f [] = []"
  by (simp add: wanted_def)

text \<open>Subscriber \<open>i\<close> never falls behind by its buffer of \<open>n\<close>: whenever a signal it wants is emitted, fewer than \<open>n\<close> of those
  before it are still to be taken.\<close>

definition keeps_up :: "SignalFilter \<Rightarrow> nat \<Rightarrow> nat \<Rightarrow> act list \<Rightarrow> bool" where
  "keeps_up f n i acts \<longleftrightarrow>
     (\<forall>k < length acts. wanted f [acts ! k] \<noteq> [] \<longrightarrow>
        length (wanted f (take k acts)) < n + count_list (take k acts) (Deliver i))"

lemma keeps_up_snoc:
  "keeps_up f n i (acts @ [a]) \<longleftrightarrow>
   keeps_up f n i acts \<and> (wanted f [a] \<noteq> [] \<longrightarrow> length (wanted f acts) < n + count_list acts (Deliver i))"
  by (auto simp: keeps_up_def less_Suc_eq nth_append)

definition stream_ok :: "SignalFilter \<Rightarrow> nat \<Rightarrow> act list \<Rightarrow> nat \<Rightarrow> service \<Rightarrow> bool" where
  "stream_ok f n acts i s \<longleftrightarrow> i < em_next (sv_em s) \<and> subseq (sv_sent s i) (wanted f acts) \<and>
     (\<forall>l. subscribed i s = Some l \<longrightarrow> li_filter l = f \<and> ch_cap (li_ch l) = n \<and> length (ch_buf (li_ch l)) \<le> n \<and>
        subseq (sv_sent s i @ ch_buf (li_ch l)) (wanted f acts) \<and> length (sv_sent s i) = count_list acts (Deliver i) \<and>
        (keeps_up f n i acts \<longrightarrow> sv_sent s i @ ch_buf (li_ch l) = wanted f acts))"

lemma find_in_set: "find P xs = Some x \<Longrightarrow> x \<in> set xs \<and> P x"
  by (induction xs) (auto split: if_splits)

lemma stream_ok_emit:
  assumes ok: "stream_ok f n acts i s"
  shows "stream_ok f n (acts @ [EmitSig sig]) i (s\<lparr>sv_em := Emit sig (sv_em s)\<rparr>)"
proof -
  let ?p = "toProto sig" and ?t = "s\<lparr>sv_em := Emit sig (sv_em s)\<rparr>" and ?acts = "acts @ [EmitSig sig]"
  have sub: "subscribed i ?t = map_option (offer1 ?p) (subscribed i s)"
    by (simp add: subscribed_def find_map comp_def)
  have w: "wanted f ?acts = wanted f acts @ (if matchesFilter f ?p then [?p] else [])" "wanted f [EmitSig sig] = (if matchesFilter f ?p then [?p] else [])"
    by (simp_all add: wanted_def)
  have old: "subseq (sv_sent s i) (wanted f acts)" "i < em_next (sv_em s)"
    using ok by (simp_all add: stream_ok_def)
  have "li_filter l' = f \<and> ch_cap (li_ch l') = n \<and> length (ch_buf (li_ch l')) \<le> n \<and>
      subseq (sv_sent s i @ ch_buf (li_ch l')) (wanted f ?acts) \<and> length (sv_sent s i) = count_list ?acts (Deliver i) \<and>
      (keeps_up f n i ?acts \<longrightarrow> sv_sent s i @ ch_buf (li_ch l') = wanted f ?acts)"
    if l': "subscribed i ?t = Some l'" for l'
  proof -
    obtain l where l: "subscribed i s = Some l" "l' = offer1 ?p l" using l' sub by auto
    have lok: "li_filter l = f" "ch_cap (li_ch l) = n" "length (ch_buf (li_ch l)) \<le> n"
      "subseq (sv_sent s i @ ch_buf (li_ch l)) (wanted f acts)" "length (sv_sent s i) = count_list acts (Deliver i)"
      "keeps_up f n i acts \<longrightarrow> sv_sent s i @ ch_buf (li_ch l) = wanted f acts"
      using ok l(1) by (simp_all add: stream_ok_def)
    have cnt: "count_list ?acts (Deliver i) = count_list acts (Deliver i)" by simp
    consider (skip) "\<not> matchesFilter f ?p" | (full) "matchesFilter f ?p" "try_send ?p (li_ch l) = None"
      | (room) ch where "matchesFilter f ?p" "try_send ?p (li_ch l) = Some ch" by fastforce
    then show ?thesis
    proof cases
      case skip
      then have "l' = l" using l(2) lok(1) by (simp add: offer1_def)
      then show ?thesis using skip lok by (simp add: w keeps_up_snoc)
    next
      case full
      then have "l' = l" using l(2) by (simp add: offer1_def)
      moreover have "\<not> keeps_up f n i ?acts"
      proof
        assume "keeps_up f n i ?acts"
        then have k: "sv_sent s i @ ch_buf (li_ch l) = wanted f acts" "length (wanted f acts) < n + count_list acts (Deliver i)"
          using lok(6) full(1) by (simp_all add: keeps_up_snoc w)
        have "n \<le> length (ch_buf (li_ch l))" using full(2) lok(2) by (simp add: channel.send_blocked)
        then show False using k(2) lok(5) by (simp flip: k(1))
      qed
      ultimately show ?thesis using full lok subseq_rev_drop_many
        by (auto simp: w intro: subseq_order.trans)
    next
      case room
      then have "li_ch l' = ch" "li_filter l' = f" using l(2) lok(1) by (simp_all add: offer1_def)
      moreover have "ch_buf ch = ch_buf (li_ch l) @ [?p]" "ch_cap ch = n" "length (ch_buf ch) \<le> n"
        using channel.send_appends [OF room(2)] channel.send_capacity [OF room(2)] channel.send_bounded [OF room(2)] lok(2)
        by simp_all
      ultimately show ?thesis using room(1) lok list_emb_append_mono [OF lok(4), of "[?p]" "[?p]"]
        by (simp add: w keeps_up_snoc)
    qed
  qed
  moreover have "subseq (sv_sent s i) (wanted f ?acts)"
    using old(1) by (simp add: w subseq_rev_drop_many)
  ultimately show ?thesis using old by (simp add: stream_ok_def)
qed

lemma stream_ok_step:
  assumes ok: "stream_ok f n acts i s" and step: "sv_step a s = Some t"
  shows "stream_ok f n (acts @ [a]) i t"
proof (cases "\<exists>sig. a = EmitSig sig")
  case True
  then show ?thesis using stream_ok_emit [OF ok] step by auto
next
  case False
  have i: "i < em_next (sv_em s)" using ok by (simp add: stream_ok_def)
  note m = sv_step_mine [OF step i]
  have "wanted f [a] = []" using False by (cases a) (auto simp: wanted_def)
  then have w: "wanted f (acts @ [a]) = wanted f acts" "keeps_up f n i (acts @ [a]) \<longleftrightarrow> keeps_up f n i acts"
    by (simp_all add: wanted_def keeps_up_snoc)
  have "(mine i t = mine i s \<and> a \<noteq> Deliver i) \<or> (subscribed i t = None \<and> sv_sent t i = sv_sent s i) \<or>
    (\<exists>l sig ch. a = Deliver i \<and> subscribed i s = Some l \<and> try_recv (li_ch l) = Some (sig, ch) \<and>
       subscribed i t = Some (l\<lparr>li_ch := ch\<rparr>) \<and> sv_sent t i = sv_sent s i @ [sig])"
    using m False by (cases a) (auto simp: mine_def split: if_splits option.splits)
  then show ?thesis
  proof (elim disjE exE conjE)
    assume "mine i t = mine i s" "a \<noteq> Deliver i"
    then show ?thesis using ok m i by (simp add: stream_ok_def w mine_def)
  next
    assume "subscribed i t = None" "sv_sent t i = sv_sent s i"
    then show ?thesis using ok m i by (simp add: stream_ok_def w)
  next
    fix l sig ch
    assume recv: "a = Deliver i" "subscribed i s = Some l" "try_recv (li_ch l) = Some (sig, ch)"
      "subscribed i t = Some (l\<lparr>li_ch := ch\<rparr>)" "sv_sent t i = sv_sent s i @ [sig]"
    have b: "ch_buf (li_ch l) = sig # ch_buf ch" "ch_cap ch = ch_cap (li_ch l)"
      using channel.recv_takes [OF recv(3)] channel.recv_capacity [OF recv(3)] by simp_all
    have "subseq (sv_sent s i @ sig # ch_buf ch) (wanted f acts)"
      using ok recv(2) b by (simp add: stream_ok_def)
    then have "subseq (sv_sent s i @ [sig]) (wanted f acts)"
      using subseq_rev_drop_many [of "sv_sent s i @ [sig]" "sv_sent s i @ [sig]" "ch_buf ch"]
      by (auto intro: subseq_order.trans)
    then show ?thesis using ok recv m i b w by (simp add: stream_ok_def)
  qed
qed

lemma sv_run_append: "sv_run (as @ bs) s = (case sv_run as s of None \<Rightarrow> None | Some t \<Rightarrow> sv_run bs t)"
  by (induction as arbitrary: s) (auto split: option.split)

lemma stream_ok_run:
  "sv_run acts s = Some t \<Longrightarrow> stream_ok f n [] i s \<Longrightarrow> stream_ok f n acts i t"
proof (induction acts arbitrary: t rule: rev_induct)
  case (snoc a acts)
  then obtain u where "sv_run acts s = Some u" "sv_step a u = Some t"
    by (auto simp: sv_run_append split: option.splits)
  then show ?case using stream_ok_step snoc by blast
qed simp

text \<open>Identities are handed out in order, and nothing was sent to one not handed out yet.\<close>

definition fresh_above :: "service \<Rightarrow> bool" where
  "fresh_above s \<longleftrightarrow> (\<forall>x \<in> set (map li_id (em_listeners (sv_em s))). x < em_next (sv_em s)) \<and>
     (\<forall>i \<ge> em_next (sv_em s). sv_sent s i = [])"

lemma recv_at_ids: "recv_at i ls = Some (sig, ls') \<Longrightarrow> map li_id ls' = map li_id ls \<and> i \<in> set (map li_id ls)"
  by (induction ls arbitrary: ls') (auto split: if_splits option.splits)

lemma sv_step_static:
  assumes "sv_step a s = Some t" "fresh_above s"
  shows "fresh_above t \<and> em_subscriberBufSize (sv_em t) = em_subscriberBufSize (sv_em s) \<and>
    em_next (sv_em t) = em_next (sv_em s) + (case a of Subscribe f \<Rightarrow> 1 | _ \<Rightarrow> 0)"
proof (cases a)
  case (Deliver i)
  then obtain sig ls where r: "recv_at i (em_listeners (sv_em s)) = Some (sig, ls)"
    and t: "t = s\<lparr>sv_em := (sv_em s)\<lparr>em_listeners := ls\<rparr>, sv_sent := (sv_sent s)(i := sv_sent s i @ [sig])\<rparr>"
    using assms(1) by (auto split: option.splits)
  from recv_at_ids [OF r] assms(2) have "i < em_next (sv_em s)" by (auto simp: fresh_above_def)
  then show ?thesis using assms(2) recv_at_ids [OF r] by (auto simp: Deliver fresh_above_def t simp del: set_map)
next
  case (SendFails i)
  then obtain sig ls where r: "recv_at i (em_listeners (sv_em s)) = Some (sig, ls)"
    and t: "t = s\<lparr>sv_em := unsubscribe i ((sv_em s)\<lparr>em_listeners := ls\<rparr>)\<rparr>"
    using assms(1) by (auto split: option.splits)
  from recv_at_ids [OF r] have "li_id ` set ls = li_id ` set (em_listeners (sv_em s))" by (metis set_map)
  then have "\<forall>l \<in> set ls. li_id l < em_next (sv_em s)" using assms(2) unfolding fresh_above_def
    by (metis image_eqI set_map)
  then show ?thesis using assms(2) by (simp add: SendFails fresh_above_def t unsubscribe_def)
next
  case (Subscribe f)
  then show ?thesis using assms by (auto simp: fresh_above_def subscribe_def less_Suc_eq split: if_splits)
next
  case (EmitSig sig)
  then show ?thesis using assms by (auto simp: fresh_above_def)
next
  case (Hangup i)
  then show ?thesis using assms by (auto simp: fresh_above_def unsubscribe_def split: if_splits)
qed

definition is_subscribe :: "act \<Rightarrow> bool" where
  "is_subscribe a \<longleftrightarrow> (case a of Subscribe f \<Rightarrow> True | _ \<Rightarrow> False)"

lemma sv_run_static:
  "sv_run acts s = Some t \<Longrightarrow> fresh_above s \<Longrightarrow>
   fresh_above t \<and> em_subscriberBufSize (sv_em t) = em_subscriberBufSize (sv_em s) \<and>
   em_next (sv_em t) = em_next (sv_em s) + length (filter is_subscribe acts)"
proof (induction acts arbitrary: s)
  case (Cons a acts)
  then obtain u where u: "sv_step a s = Some u" "sv_run acts u = Some t" by (auto split: option.splits)
  show ?case using sv_step_static [OF u(1) Cons.prems(2)] Cons.IH [OF u(2)]
    by (cases a) (auto simp: is_subscribe_def)
qed simp

lemma subscriber_stream_ok:
  assumes "sv_run (before @ Subscribe f # acts) (start n) = Some t" "i = length (filter is_subscribe before)"
  shows "0 \<le> n \<and> stream_ok f (nat n) acts i t"
proof -
  obtain s where s: "sv_run before (start n) = Some s" "\<not> subscribing_panics (sv_em s)"
    and t: "sv_run acts (s\<lparr>sv_em := snd (subscribe f (sv_em s))\<rparr>) = Some t"
    using assms(1) by (auto simp: sv_run_append split: option.splits if_splits)
  have "fresh_above (start n)" by (simp add: fresh_above_def start_def NewEmitter_def)
  from sv_run_static [OF s(1) this] have st: "fresh_above s" "em_subscriberBufSize (sv_em s) = n"
    "em_next (sv_em s) = i" by (simp_all add: start_def NewEmitter_def assms(2))
  have none: "find (\<lambda>l. li_id l = i) (em_listeners (sv_em s)) = None"
    using st by (auto simp: fresh_above_def find_None_iff)
  let ?s = "s\<lparr>sv_em := snd (subscribe f (sv_em s))\<rparr>"
  have "stream_ok f (nat n) [] i ?s"
    using st none by (auto simp: stream_ok_def subscribe_def subscribed_def find_append make_chan_def fresh_above_def)
  then show ?thesis using stream_ok_run [OF t] s(2) st(2) by (simp add: subscribing_panics_def)
qed

text \<open>C22. The stream of a subscriber, for any run of the service in which it is the \<open>i\<close>-th to subscribe:
  what it was sent, followed by what its buffer holds, is a subsequence of the signals it wants
  that were emitted since it came, in order and without duplicates, never a signal its filter
  excludes; the buffer is never longer than configured; and while it is subscribed it misses none of them as long as it
  itself keeps up, whatever the other subscribers do: if at each of them fewer than the buffer holds were still to be
  taken by it, then it has them all.\<close>

theorem subscriber_stream:
  assumes "sv_run (before @ Subscribe f # acts) (start n) = Some t" "i = length (filter is_subscribe before)"
  shows "subseq (sv_sent t i) (wanted f acts) \<and>
    (\<forall>l. subscribed i t = Some l \<longrightarrow> int (length (ch_buf (li_ch l))) \<le> n \<and>
       subseq (sv_sent t i @ ch_buf (li_ch l)) (wanted f acts) \<and>
       (keeps_up f (nat n) i acts \<longrightarrow> sv_sent t i @ ch_buf (li_ch l) = wanted f acts))"
  using subscriber_stream_ok [OF assms] by (fastforce simp: stream_ok_def)

section \<open>Filters, counters and the status\<close>

text \<open>A signal passes a filter exactly when each list of the filter is empty or holds the signal's
  value, and the signal's confidence is not below a positive minimum; in particular the empty
  filter passes every signal.\<close>

theorem matchesFilter_iff:
  "(matchesFilter f sig \<longleftrightarrow>
     (fl_SignalTypes f = [] \<or> pb_SignalType sig \<in> set (fl_SignalTypes f)) \<and>
     (fl_SourceChains f = [] \<or> pb_SourceChain sig \<in> set (fl_SourceChains f)) \<and>
     (fl_DestinationChains f = [] \<or> pb_DestinationChain sig \<in> set (fl_DestinationChains f)) \<and>
     (fl_Tokens f = [] \<or> pb_Token sig \<in> set (fl_Tokens f)) \<and>
     \<not> (f64_of_int 0 < fl_MinConfidence f \<and> pb_Confidence sig < fl_MinConfidence f)) \<and>
   matchesFilter \<lparr>fl_SignalTypes = [], fl_SourceChains = [], fl_DestinationChains = [], fl_Tokens = [],
     fl_MinConfidence = f64_of_int 0\<rparr> sig"
proof -
  have "\<not> f64_of_int 0 < f64_of_int 0" by code_simp
  then show ?thesis by (auto simp: matchesFilter_def)
qed

text \<open>Emitting is accounted for: each subscriber whose filter passes the signal is counted once, as
  emitted if its buffer has room and as dropped exactly if it is full, in counters that wrap around; \<open>Emit\<close> never waits,
  adds or removes a subscriber.\<close>

theorem Emit_accounts:
  "\<exists>m d. m + d = length (filter (\<lambda>l. matchesFilter (li_filter l) (toProto sig)) (em_listeners e)) \<and>
     d = length (filter (\<lambda>l. matchesFilter (li_filter l) (toProto sig) \<and>
       ch_cap (li_ch l) \<le> length (ch_buf (li_ch l))) (em_listeners e)) \<and>
     em_emitted (Emit sig e) = i64 (em_emitted e + int m) \<and> em_dropped (Emit sig e) = i64 (em_dropped e + int d) \<and>
     map li_id (em_listeners (Emit sig e)) = map li_id (em_listeners e)"
proof -
  have l: "em_listeners (Emit sig e) = map (offer1 (toProto sig)) (em_listeners e)" by simp
  obtain ls m d where o: "offer (toProto sig) (em_listeners e) = (ls, m, d)" by (metis prod_cases3)
  have c: "em_emitted (Emit sig e) = i64 (em_emitted e + m)" "em_dropped (Emit sig e) = i64 (em_dropped e + d)"
    by (simp_all add: Emit_def o)
  show ?thesis unfolding l c using offer_counts [OF o]
    by (intro exI [of _ "nat m"] exI [of _ "nat d"]) (auto simp: channel.send_blocked)
qed

lemma chain_status_view:
  "map_of (map (\<lambda>st. (st_ChainId st, (st_Connected st, st_LastBlock st, st_LastEventAt st))) (map (chain_status h) m)) c =
   map_option (\<lambda>s. (cs_Connected s, cs_LastBlock s, cs_LastEventAt s)) (view h m c)"
  by (induction m) (auto simp: chain_status_def view_def Let_def)

text \<open>The status shows the number of signals emitted and, for each chain the tracker has heard of, its
  state at that time; asking for it does not change what the tracker shows. Without a tracker it
  shows no chains and no uptime.\<close>

theorem GetStatus_shows_tracker:
  assumes "tracker_ok t h" "GetStatus now e (Some t) h = (resp, h')"
  shows "sr_SignalsEmitted resp = em_emitted e \<and>
    (\<forall>c. map_of (map (\<lambda>st. (st_ChainId st, (st_Connected st, st_LastBlock st, st_LastEventAt st))) (sr_Chains resp)) c =
       map_option (\<lambda>s. (cs_Connected s, cs_LastBlock s, cs_LastEventAt s)) (view h (tk_chains t) c)) \<and>
    view h' (tk_chains t) = view h (tk_chains t) \<and>
    GetStatus now e None h = (\<lparr>sr_SignalsEmitted = em_emitted e, sr_UptimeSeconds = 0, sr_Chains = []\<rparr>, h)"
proof -
  obtain cp d h1 where s: "Snapshot now t h = (cp, d, h1)" by (metis prod_cases3)
  have r: "sr_Chains resp = map (chain_status h1) cp" "sr_SignalsEmitted resp = em_emitted e" "h' = h1"
    using assms(2) by (auto simp: GetStatus_def s Let_def)
  have "view h1 cp = view h (tk_chains t)" "view h1 (tk_chains t) = view h (tk_chains t)"
    using Snapshot_spec(1,2) [OF assms(1) s] .
  then show ?thesis unfolding r(1) chain_status_view using r(2,3) by (simp add: GetStatus_def)
qed

section \<open>Instances\<close>

definition demo_filter :: SignalFilter where
  "demo_filter = \<lparr>fl_SignalTypes = [''s''], fl_SourceChains = [], fl_DestinationChains = [], fl_Tokens = [],
     fl_MinConfidence = f64_of_int 0\<rparr>"

definition demo_sig :: "string \<Rightarrow> string \<Rightarrow> Signal" where
  "demo_sig ident ty = \<lparr>sg_ID = ident, sg_SignalType = ty, sg_SourceChain = ChainEthereum, sg_DestinationChain = None,
     sg_Token = ''usdc'', sg_Amount = ''5'', sg_AmountUSD = None, sg_DetectedAt = 0, sg_EstimatedActionTime = None,
     sg_Confidence = f64_of_int 1, sg_Metadata = Map.empty\<rparr>"

lemma demo_matches: "matchesFilter demo_filter (toProto (demo_sig i ty)) \<longleftrightarrow> ty = ''s''"
proof -
  have "\<not> f64_of_int 0 < f64_of_int 0" by code_simp
  then show ?thesis by (simp add: matchesFilter_def demo_filter_def toProto_def demo_sig_def)
qed

definition demo_acts :: "act list" where
  "demo_acts = [EmitSig (demo_sig ''1'' ''s''), EmitSig (demo_sig ''2'' ''x''), EmitSig (demo_sig ''3'' ''s''), Deliver 0]"

definition demo_service :: service where
  "demo_service = \<lparr>sv_em = \<lparr>em_subscriberBufSize = 1,
     em_listeners = [\<lparr>li_id = 0, li_filter = demo_filter, li_ch = \<lparr>ch_buf = [], ch_cap = 1\<rparr>\<rparr>],
     em_dropped = 1, em_emitted = 1, em_next = 1\<rparr>,
     sv_sent = (\<lambda>_. [])(0 := [toProto (demo_sig ''1'' ''s'')])\<rparr>"

lemma demo_service_run: "sv_run ([] @ Subscribe demo_filter # demo_acts) (start 1) = Some demo_service"
  by (simp add: demo_acts_def start_def NewEmitter_def subscribe_def Emit_def make_chan_def try_send_def
      try_recv_def demo_matches demo_service_def subscribing_panics_def i64_id is_i64_def Let_def)

definition demo_kept_up :: "act list" where
  "demo_kept_up = [EmitSig (demo_sig ''1'' ''s''), Deliver 0, EmitSig (demo_sig ''2'' ''x''), EmitSig (demo_sig ''3'' ''s'')]"

lemma demo_keeps_up: "keeps_up demo_filter 1 0 demo_kept_up" "\<not> keeps_up demo_filter 1 0 demo_acts"
proof -
  have w: "wanted demo_filter [EmitSig (demo_sig i ty)] = (if ty = ''s'' then [toProto (demo_sig i ty)] else [])"
    "wanted demo_filter (EmitSig (demo_sig i ty) # as) = (if ty = ''s'' then [toProto (demo_sig i ty)] else []) @ wanted demo_filter as"
    "wanted demo_filter (Deliver j # as) = wanted demo_filter as" for i ty j as
    by (simp_all add: wanted_def demo_matches)
  show "keeps_up demo_filter 1 0 demo_kept_up" by (simp add: keeps_up_def demo_kept_up_def All_less_Suc numeral_eq_Suc w)
  show "\<not> keeps_up demo_filter 1 0 demo_acts"
    by (simp add: keeps_up_def demo_acts_def All_less_Suc numeral_eq_Suc w)
qed

lemma subscriber_stream_witness:
  "\<exists>t l. sv_run ([] @ Subscribe demo_filter # demo_kept_up) (start 1) = Some t \<and> subscribed 0 t = Some l \<and>
     sv_sent t 0 @ ch_buf (li_ch l) = wanted demo_filter demo_kept_up"
proof -
  have "\<exists>t l. sv_run ([] @ Subscribe demo_filter # demo_kept_up) (start 1) = Some t \<and> subscribed 0 t = Some l"
    by (simp add: demo_kept_up_def start_def NewEmitter_def subscribe_def subscribing_panics_def Emit_def make_chan_def try_send_def
      try_recv_def demo_matches subscribed_def Let_def)
  then obtain t l where t: "sv_run ([] @ Subscribe demo_filter # demo_kept_up) (start 1) = Some t" "subscribed 0 t = Some l"
    by blast
  show ?thesis using subscriber_stream [OF t(1) refl] t demo_keeps_up by auto
qed

lemma subscribers_are_isolated_witness:
  "\<exists>t'. sv_run (filter (concerns 0) (demo_acts @ [Subscribe demo_filter]))
      (demo_service\<lparr>sv_sent := (\<lambda>_. [])\<rparr>\<lparr>sv_em := snd (subscribe demo_filter (NewEmitter 1))\<rparr>) = Some t' \<and>
    sv_sent t' 0 = [toProto (demo_sig ''1'' ''s'')]"
proof -
  let ?s = "demo_service\<lparr>sv_sent := (\<lambda>_. [])\<rparr>\<lparr>sv_em := snd (subscribe demo_filter (NewEmitter 1))\<rparr>"
  have "\<exists>t. sv_run (demo_acts @ [Subscribe demo_filter]) ?s = Some t \<and> sv_sent t 0 = [toProto (demo_sig ''1'' ''s'')]"
    by (simp add: demo_acts_def NewEmitter_def subscribe_def Emit_def make_chan_def try_send_def
      try_recv_def demo_matches demo_service_def subscribing_panics_def i64_id is_i64_def Let_def)
  then obtain t where t: "sv_run (demo_acts @ [Subscribe demo_filter]) ?s = Some t"
    "sv_sent t 0 = [toProto (demo_sig ''1'' ''s'')]" by blast
  have "0 < em_next (sv_em ?s)" by (simp add: subscribe_def)
  from subscribers_are_isolated [OF t(1) this] t(2) show ?thesis by auto
qed

lemma GetStatus_shows_tracker_witness:
  "(case GetStatus 25 (NewEmitter 1) (Some demo_tracker) demo_heap of (resp, h') \<Rightarrow>
      map_of (map (\<lambda>st. (st_ChainId st, (st_Connected st, st_LastBlock st, st_LastEventAt st))) (sr_Chains resp)) ChainEthereum
        = Some (True, 7, 9))"
proof -
  obtain resp h' where g: "GetStatus 25 (NewEmitter 1) (Some demo_tracker) demo_heap = (resp, h')" by force
  from GetStatus_shows_tracker [OF demo_tracker_ok g] show ?thesis by (simp add: g demo_view)
qed

end
