(* ===== verification/Rules.thy ===== *)
theory Rules
  imports Event_Types
begin

text \<open>
  The rule side of the engine: the rule types of \<open>internal/engine/rules.go\<close>, the check that
  \<open>LoadRules\<close> makes (\<open>load.go\<close>), and the evaluation of rules on one event (\<open>engine.go\<close>).
  Decoding the TOML file is koanf's work and a parameter: \<open>LoadRules\<close> starts from its result.
  A signal's identifier and detection time come from \<open>uuid.NewString\<close> and the clock; the
  \<open>k\<close>-th signal that is built takes both from \<open>gen k\<close>.
\<close>

section \<open>Types\<close>

record Condition =
  c_Field :: string
  c_Op :: string
  c_Value :: string

record Rule =
  r_Name :: string
  r_Trigger :: string
  r_Conditions :: "Condition list"
  r_Signal :: string
  r_Confidence :: float64
  r_MetadataFields :: "string list"

record Correlation =
  co_Name :: string
  co_Sequence :: "string list"
  co_Window :: string
  co_SameFields :: "string list"
  co_Signal :: string
  co_Confidence :: float64
  co_MinFirstCount :: int
  co_windowDuration :: duration

record RulesConfig =
  rc_Rules :: "Rule list"
  rc_Correlations :: "Correlation list"

section \<open>Loading\<close>

datatype load_error = DecodeFailed string | BadSequence string int

fun check_sequences :: "Correlation list \<Rightarrow> load_error + unit" where
  "check_sequences [] = Inr ()"
| "check_sequences (corr # cs) =
     (if length (co_Sequence corr) \<noteq> 2
      then Inl (BadSequence (co_Name corr) (int (length (co_Sequence corr))))
      else check_sequences cs)"

definition LoadRules :: "string + RulesConfig \<Rightarrow> load_error + RulesConfig" where
  "LoadRules decoded =
     (case decoded of
        Inl e \<Rightarrow> Inl (DecodeFailed e)
      | Inr cfg \<Rightarrow> (case check_sequences (rc_Correlations cfg) of
            Inl e \<Rightarrow> Inl e
          | Inr _ \<Rightarrow> Inr cfg))"

section \<open>Conditions\<close>

definition getFieldValue :: "string \<Rightarrow> EnrichedEvent \<Rightarrow> string" where
  "getFieldValue field ev =
     (if field = ''amount_usd'' then
        (case AmountUSD ev of Some v \<Rightarrow> FormatFloat v | None \<Rightarrow> [])
      else if field = ''destination_chain'' then
        (case DestChain ev of Some v \<Rightarrow> v | None \<Rightarrow> [])
      else if field = ''source_chain'' then Chain ev
      else if field = ''token'' then Token ev
      else if field = ''amount'' then Amount ev
      else if field = ''source_address'' then SourceAddress ev
      else if field = ''protocol'' then (case Protocol ev of Some v \<Rightarrow> v | None \<Rightarrow> [])
      else if field = ''contract_name'' then (case ContractName ev of Some v \<Rightarrow> v | None \<Rightarrow> [])
      else if field = ''contract_address'' then ContractAddress ev
      else [])"

definition compareNumeric :: "string \<Rightarrow> string \<Rightarrow> string \<Rightarrow> bool" where
  "compareNumeric op fieldStr valueStr =
     (case (ParseFloat fieldStr, ParseFloat valueStr) of
        (Some fieldVal, Some valueVal) \<Rightarrow>
          (if op = ''gt'' then valueVal < fieldVal
           else if op = ''lt'' then fieldVal < valueVal
           else if op = ''gte'' then valueVal \<le> fieldVal
           else if op = ''lte'' then fieldVal \<le> valueVal
           else False)
      | _ \<Rightarrow> False)"

text \<open>The loop of the operator \<open>in\<close> over the comma-separated items.\<close>

fun in_items :: "string list \<Rightarrow> string \<Rightarrow> bool" where
  "in_items [] v = False"
| "in_items (s # ss) v = (if TrimSpace s = v then True else in_items ss v)"

definition evalCondition :: "Condition \<Rightarrow> EnrichedEvent \<Rightarrow> bool" where
  "evalCondition c ev =
     (let fieldVal = getFieldValue (c_Field c) ev in
      if c_Op c = ''eq'' then fieldVal = c_Value c
      else if c_Op c = ''gt'' \<or> c_Op c = ''lt'' \<or> c_Op c = ''gte'' \<or> c_Op c = ''lte''
      then compareNumeric (c_Op c) fieldVal (c_Value c)
      else if c_Op c = ''in'' then in_items (split_on CHR '','' (c_Value c)) fieldVal
      else if c_Op c = ''contains'' then sublist (c_Value c) fieldVal
      else False)"

fun matchConditions :: "Condition list \<Rightarrow> EnrichedEvent \<Rightarrow> bool" where
  "matchConditions [] ev = True"
| "matchConditions (c # cs) ev = (if \<not> evalCondition c ev then False else matchConditions cs ev)"

section \<open>Signals\<close>

type_synonym sig_source = "nat \<Rightarrow> string \<times> int64"

definition newSignal ::
  "sig_source \<Rightarrow> nat \<Rightarrow> string \<Rightarrow> float64 \<Rightarrow> EnrichedEvent \<Rightarrow> (string \<rightharpoonup> string) \<Rightarrow> Signal"
where
  "newSignal gen k signalType confidence ev metadata =
     \<lparr>sg_ID = fst (gen k), sg_SignalType = signalType, sg_SourceChain = Chain ev,
      sg_DestinationChain = DestChain ev, sg_Token = Token ev, sg_Amount = Amount ev,
      sg_AmountUSD = AmountUSD ev, sg_DetectedAt = snd (gen k), sg_EstimatedActionTime = None,
      sg_Confidence = confidence, sg_Metadata = metadata\<rparr>"

fun add_metadata ::
  "string list \<Rightarrow> EnrichedEvent \<Rightarrow> (string \<rightharpoonup> string) \<Rightarrow> (string \<rightharpoonup> string)" where
  "add_metadata [] ev meta = meta"
| "add_metadata (f # fs) ev meta =
     (let v = getFieldValue f ev in
      add_metadata fs ev (if v \<noteq> [] then meta(f \<mapsto> v) else meta))"

definition buildMetadata :: "string list \<Rightarrow> EnrichedEvent \<Rightarrow> (string \<rightharpoonup> string)" where
  "buildMetadata flds ev = add_metadata flds ev Map.empty"

fun evaluate_rules ::
  "sig_source \<Rightarrow> nat \<Rightarrow> Rule list \<Rightarrow> EnrichedEvent \<Rightarrow> Signal list" where
  "evaluate_rules gen k [] ev = []"
| "evaluate_rules gen k (rule # rules) ev =
     (if r_Trigger rule \<noteq> EventTy ev then evaluate_rules gen k rules ev
      else if \<not> matchConditions (r_Conditions rule) ev then evaluate_rules gen k rules ev
      else newSignal gen k (r_Signal rule) (r_Confidence rule) ev
             (buildMetadata (r_MetadataFields rule) ev)
           # evaluate_rules gen (Suc k) rules ev)"

definition Evaluate :: "sig_source \<Rightarrow> nat \<Rightarrow> RulesConfig \<Rightarrow> EnrichedEvent \<Rightarrow> Signal list" where
  "Evaluate gen k cfg ev = evaluate_rules gen k (rc_Rules cfg) ev"


section \<open>Comparing numbers\<close>

text \<open>What an operator of a numeric condition says about two numbers.\<close>

fun numeric_op :: "string \<Rightarrow> float64 \<Rightarrow> float64 \<Rightarrow> bool" where
  "numeric_op op x v =
     ((op = ''gt'' \<and> v < x) \<or> (op = ''lt'' \<and> x < v) \<or>
      (op = ''gte'' \<and> v \<le> x) \<or> (op = ''lte'' \<and> x \<le> v))"

definition numeric_ops :: "string set" where
  "numeric_ops = {''gt'', ''lt'', ''gte'', ''lte''}"

lemma compareNumeric_iff:
  "compareNumeric op s t \<longleftrightarrow>
     (\<exists>x v. ParseFloat s = Some x \<and> ParseFloat t = Some v \<and> numeric_op op x v)"
  by (auto simp: compareNumeric_def split: option.split)

lemma evalCondition_numeric:
  "c_Op c \<in> numeric_ops \<Longrightarrow>
   evalCondition c ev \<longleftrightarrow> compareNumeric (c_Op c) (getFieldValue (c_Field c) ev) (c_Value c)"
  by (auto simp: evalCondition_def numeric_ops_def)

lemma numeric_op_nan:
  "f64_is_nan x \<or> f64_is_nan v \<Longrightarrow> \<not> numeric_op op x v"
  by (auto dest: f64_order_no_nan simp: less_eq_float64_def)

lemma ParseFloat_NaN: "ParseFloat ''NaN'' = Some f64_NaN" "f64_is_nan f64_NaN"
  by code_simp+

lemma FormatFloat_nan: "f64_is_nan x \<Longrightarrow> FormatFloat x = ''NaN''"
  by (simp add: FormatFloat_def)

lemma numeric_op_FormatFloat:
  "(\<exists>y. ParseFloat (FormatFloat x) = Some y \<and> numeric_op op y v) \<longleftrightarrow> numeric_op op x v"
  by (cases "f64_is_nan x")
    (auto simp: FormatFloat_nan ParseFloat_NaN numeric_op_nan strconv.parse_fmt
      simp del: numeric_op.simps)

lemma in_items_iff: "in_items ss v \<longleftrightarrow> v \<in> TrimSpace ` set ss"
  by (induction ss) auto

lemma matchConditions_iff: "matchConditions cs ev \<longleftrightarrow> (\<forall>c\<in>set cs. evalCondition c ev)"
  by (induction cs) auto

lemma add_metadata_lookup:
  "add_metadata fs ev m k =
     (if k \<in> set fs \<and> getFieldValue k ev \<noteq> [] then Some (getFieldValue k ev) else m k)"
  by (induction fs arbitrary: m) (auto simp: Let_def)

text \<open>C36. A numeric condition on \<open>amount_usd\<close> compares the amount itself with the number in the
  rule: although the amount is printed and parsed again on the way, no precision is lost, for any
  float (infinities, zeros, subnormals and NaN included).\<close>

theorem amount_usd_condition_exact:
  assumes "c_Field c = ''amount_usd''" "c_Op c \<in> numeric_ops" "AmountUSD ev = Some x"
    and "ParseFloat (c_Value c) = Some v"
  shows "evalCondition c ev \<longleftrightarrow> numeric_op (c_Op c) x v"
  using assms numeric_op_FormatFloat [of x "c_Op c" v]
  by (simp add: evalCondition_numeric compareNumeric_iff getFieldValue_def del: numeric_op.simps)

lemma amount_usd_condition_exact_witness:
  "evalCondition \<lparr>c_Field = ''amount_usd'', c_Op = ''gte'', c_Value = ''0.1''\<rparr>
     (demo_event EventBridgeDeposit ''0x1'' (Some (f64_div (f64_of_int 1) (f64_of_int 10))))"
proof -
  have v: "ParseFloat ''0.1'' = Some (f64_div (f64_of_int 1) (f64_of_int 10))"
    and le: "f64_div (f64_of_int 1) (f64_of_int 10) \<le> f64_div (f64_of_int 1) (f64_of_int 10)"
    by code_simp+
  show ?thesis
    by (subst amount_usd_condition_exact
        [where x = "f64_div (f64_of_int 1) (f64_of_int 10)", OF _ _ _ _])
      (simp_all add: numeric_ops_def v, rule le)
qed

text \<open>A numeric condition holds only where the field has a value that parses as a number and
  the rule's operand parses too; so an event whose amount in USD is absent satisfies no numeric
  condition on it, not even both of \<open>gt\<close> and its complement \<open>lte\<close>.\<close>

theorem unpriced_event_fails_numeric:
  assumes "c_Op c \<in> numeric_ops"
    and "ParseFloat (getFieldValue (c_Field c) ev) = None \<or> ParseFloat (c_Value c) = None
         \<or> (c_Field c = ''amount_usd'' \<and> AmountUSD ev = None)"
  shows "\<not> evalCondition c ev"
  using assms
  by (auto simp: evalCondition_numeric compareNumeric_iff getFieldValue_def strconv.parse_empty)

lemma unpriced_event_fails_numeric_witness:
  "\<not> evalCondition \<lparr>c_Field = ''amount_usd'', c_Op = ''lte'', c_Value = ''100''\<rparr>
     (demo_event EventBridgeDeposit ''0x1'' None)"
  by (rule unpriced_event_fails_numeric) (simp_all add: numeric_ops_def)

text \<open>The operator \<open>in\<close> is membership: for any list of items without a comma, written as the
  comma-separated text of a rule with any surrounding space, the condition holds exactly when the
  field's value is one of the trimmed items.\<close>

theorem in_condition_is_membership:
  assumes "c_Op c = ''in''" "items \<noteq> []" "\<forall>i\<in>set items. CHR '','' \<notin> set i"
    and "c_Value c = join_with CHR '','' items"
  shows "evalCondition c ev \<longleftrightarrow> getFieldValue (c_Field c) ev \<in> TrimSpace ` set items"
  using assms by (simp add: evalCondition_def in_items_iff split_join list_all_iff)

lemma in_condition_is_membership_witness:
  "evalCondition \<lparr>c_Field = ''destination_chain'', c_Op = ''in'', c_Value = ''arbitrum, solana''\<rparr>
     (demo_event EventBridgeDeposit ''0x1'' None)"
proof -
  have t: "TrimSpace '' solana'' = ''solana''" by code_simp
  show ?thesis
    by (subst in_condition_is_membership [where items = "[''arbitrum'', '' solana'']"])
      (simp_all add: getFieldValue_def ChainSolana_def t)
qed

section \<open>Rules\<close>

definition rule_matches :: "EnrichedEvent \<Rightarrow> Rule \<Rightarrow> bool" where
  "rule_matches ev r \<longleftrightarrow> r_Trigger r = EventTy ev \<and> (\<forall>c\<in>set (r_Conditions r). evalCondition c ev)"

definition rule_signal :: "sig_source \<Rightarrow> EnrichedEvent \<Rightarrow> nat \<Rightarrow> Rule \<Rightarrow> Signal" where
  "rule_signal gen ev k r =
     newSignal gen k (r_Signal r) (r_Confidence r) ev (buildMetadata (r_MetadataFields r) ev)"

lemma evaluate_rules_eq:
  "evaluate_rules gen k rs ev =
     map (\<lambda>(i, r). rule_signal gen ev i r) (enumerate k (filter (rule_matches ev) rs))"
  by (induction rs arbitrary: k)
    (auto simp: rule_matches_def rule_signal_def matchConditions_iff)

text \<open>Evaluating an event gives one signal for each rule whose trigger is the event's type and
  all of whose conditions hold, in the order of the rules, carrying that rule's signal name,
  confidence and metadata, and nothing else.\<close>

theorem Evaluate_signals:
  "Evaluate gen k cfg ev =
     map (\<lambda>(i, r). rule_signal gen ev i r)
       (enumerate k (filter (rule_matches ev) (rc_Rules cfg)))"
  by (simp add: Evaluate_def evaluate_rules_eq)

text \<open>The metadata of a signal holds exactly the listed fields that have a non-empty value, each
  with that value, so unknown field names and absent values leave no entry.\<close>

theorem buildMetadata_lookup:
  "buildMetadata fs ev f =
     (if f \<in> set fs \<and> getFieldValue f ev \<noteq> [] then Some (getFieldValue f ev) else None)"
  by (simp add: buildMetadata_def add_metadata_lookup)

section \<open>Loading rules\<close>

lemma check_sequences_ok:
  "check_sequences cs = Inr () \<longleftrightarrow> (\<forall>c\<in>set cs. length (co_Sequence c) = 2)"
  by (induction cs) auto

lemma check_sequences_error:
  "check_sequences cs = Inl e \<longleftrightarrow>
     (\<exists>i < length cs. (\<forall>j < i. length (co_Sequence (cs ! j)) = 2) \<and>
        length (co_Sequence (cs ! i)) \<noteq> 2 \<and>
        e = BadSequence (co_Name (cs ! i)) (int (length (co_Sequence (cs ! i)))))"
proof (induction cs)
  case Nil
  then show ?case by simp
next
  case (Cons a cs)
  show ?case
  proof (cases "length (co_Sequence a) = 2")
    case True
    then show ?thesis unfolding Ex_less_Suc2 length_Cons
      by (simp add: Cons All_less_Suc2)
  next
    case False
    then show ?thesis unfolding Ex_less_Suc2 length_Cons
      by (auto simp: All_less_Suc2)
  qed
qed

lemma LoadRules_Inr:
  "LoadRules decoded = Inr cfg \<longleftrightarrow> decoded = Inr cfg \<and> check_sequences (rc_Correlations cfg) = Inr ()"
  by (auto simp: LoadRules_def split: sum.splits)

lemma LoadRules_BadSequence:
  "LoadRules decoded = Inl (BadSequence n k) \<longleftrightarrow>
     (\<exists>d. decoded = Inr d \<and> check_sequences (rc_Correlations d) = Inl (BadSequence n k))"
  by (auto simp: LoadRules_def split: sum.splits)

text \<open>Loading succeeds exactly when the file decodes and every correlation has a sequence of
  two event types, and then returns the decoded rules unchanged; otherwise it reports the decoder's
  error or the first correlation whose sequence has another length.\<close>

theorem LoadRules_result:
  "(LoadRules decoded = Inr cfg \<longleftrightarrow>
      decoded = Inr cfg \<and> (\<forall>c\<in>set (rc_Correlations cfg). length (co_Sequence c) = 2)) \<and>
   (LoadRules decoded = Inl (BadSequence n k) \<longleftrightarrow>
      (\<exists>d. decoded = Inr d \<and>
        (\<exists>i < length (rc_Correlations d).
           (\<forall>j < i. length (co_Sequence (rc_Correlations d ! j)) = 2) \<and>
           length (co_Sequence (rc_Correlations d ! i)) \<noteq> 2 \<and>
           n = co_Name (rc_Correlations d ! i) \<and>
           k = int (length (co_Sequence (rc_Correlations d ! i))))))"
  unfolding LoadRules_Inr LoadRules_BadSequence check_sequences_ok check_sequences_error
    load_error.inject by (intro conjI refl)

lemma LoadRules_result_witness:
  "LoadRules (Inr \<lparr>rc_Rules = [], rc_Correlations =
      [\<lparr>co_Name = ''c'', co_Sequence = [''a''], co_Window = ''5m'', co_SameFields = [],
        co_Signal = ''s'', co_Confidence = f64_of_int 1, co_MinFirstCount = 1,
        co_windowDuration = 0\<rparr>]\<rparr>) = Inl (BadSequence ''c'' 1)"
  by (subst LoadRules_result [THEN conjunct2]) simp

end
