(* ===== verification/Event_Window.thy ===== *)
theory Event_Window
  imports Rules
begin

text \<open>
  The sliding window of the correlator (\<open>EventWindow\<close> in \<open>internal/engine/correlation.go\<close>): its
  operations, which the source runs each under the window's mutex and which are therefore atomic
  here, the contract they keep (a locale over what is still live in the window), and its
  interpretation on the code's operations. Every operation takes the clock reading \<open>now\<close> it makes.
\<close>

section \<open>The window\<close>

record windowEntry =
  we_event :: EnrichedEvent
  we_expiresAt :: time

text \<open>\<open>ew_onDrop\<close> tells whether a drop callback is set; \<open>Add\<close> returns the call it makes.\<close>

record EventWindow =
  ew_entries :: "windowEntry list"
  ew_maxSize :: int
  ew_onDrop :: bool

definition Add :: "EventWindow \<Rightarrow> EnrichedEvent \<Rightarrow> duration \<Rightarrow> time \<Rightarrow> EventWindow \<times> int option" where
  "Add w event ttl now =
     (let entries = ew_entries w @ [\<lparr>we_event = event, we_expiresAt = now + ttl\<rparr>] in
      if ew_maxSize w > 0 \<and> int (length entries) > ew_maxSize w
      then let dropn = int (length entries) - ew_maxSize w in
           (w\<lparr>ew_entries := drop (nat dropn) entries\<rparr>, if ew_onDrop w then Some dropn else None)
      else (w\<lparr>ew_entries := entries\<rparr>, None))"

fun fieldsMatch :: "string list \<Rightarrow> EnrichedEvent \<Rightarrow> EnrichedEvent \<Rightarrow> bool" where
  "fieldsMatch [] a b = True"
| "fieldsMatch (f # fs) a b =
     (if getFieldValue f a \<noteq> getFieldValue f b then False else fieldsMatch fs a b)"

text \<open>The callback that \<open>slices.DeleteFunc\<close> runs over the entries, collecting the matches; the
  result is the entries kept and the matches.\<close>

fun take_entries ::
  "string list \<Rightarrow> EnrichedEvent \<Rightarrow> time \<Rightarrow> windowEntry list \<Rightarrow> windowEntry list \<times> EnrichedEvent list"
where
  "take_entries sameFields event now [] = ([], [])"
| "take_entries sameFields event now (e # es) =
     (let (kept, matches) = take_entries sameFields event now es in
      if we_expiresAt e < now then (kept, matches)
      else if fieldsMatch sameFields (we_event e) event then (kept, we_event e # matches)
      else (e # kept, matches))"

definition TakeMatchingEntries ::
  "string list \<Rightarrow> EnrichedEvent \<Rightarrow> time \<Rightarrow> EventWindow \<Rightarrow> EventWindow \<times> EnrichedEvent list" where
  "TakeMatchingEntries sameFields event now w =
     (let (kept, matches) = take_entries sameFields event now (ew_entries w) in
      (w\<lparr>ew_entries := kept\<rparr>, matches))"

definition Size :: "EventWindow \<Rightarrow> int" where
  "Size w = int (length (ew_entries w))"

definition Prune :: "time \<Rightarrow> EventWindow \<Rightarrow> EventWindow" where
  "Prune now w = w\<lparr>ew_entries := filter (\<lambda>e. \<not> \<not> now < we_expiresAt e) (ew_entries w)\<rparr>"

section \<open>What the operations do\<close>

definition live :: "time \<Rightarrow> EventWindow \<Rightarrow> windowEntry list" where
  "live t w = filter (\<lambda>e. t \<le> we_expiresAt e) (ew_entries w)"

lemma fieldsMatch_iff:
  "fieldsMatch fs a b \<longleftrightarrow> (\<forall>f\<in>set fs. getFieldValue f a = getFieldValue f b)"
  by (induction fs) auto

lemma take_entries_eq:
  "take_entries fs ev now es =
     (filter (\<lambda>e. now \<le> we_expiresAt e \<and> \<not> fieldsMatch fs (we_event e) ev) es,
      map we_event (filter (\<lambda>e. now \<le> we_expiresAt e \<and> fieldsMatch fs (we_event e) ev) es))"
  by (induction es) (auto simp: Let_def)

lemma Take_entries:
  "ew_entries (fst (TakeMatchingEntries fs ev now w)) =
     filter (\<lambda>e. \<not> fieldsMatch fs (we_event e) ev) (live now w)"
  "ew_maxSize (fst (TakeMatchingEntries fs ev now w)) = ew_maxSize w"
  "ew_onDrop (fst (TakeMatchingEntries fs ev now w)) = ew_onDrop w"
  "snd (TakeMatchingEntries fs ev now w) =
     map we_event (filter (\<lambda>e. fieldsMatch fs (we_event e) ev) (live now w))"
  by (auto simp: TakeMatchingEntries_def take_entries_eq live_def intro: filter_cong)

lemma Take_window:
  "fst (TakeMatchingEntries fs ev now w) =
     w\<lparr>ew_entries := filter (\<lambda>e. now \<le> we_expiresAt e \<and> \<not> fieldsMatch fs (we_event e) ev) (ew_entries w)\<rparr>"
  by (simp add: TakeMatchingEntries_def take_entries_eq)

definition cap :: "EventWindow \<Rightarrow> windowEntry list \<Rightarrow> windowEntry list" where
  "cap w es = (if 0 < ew_maxSize w then last_n (nat (ew_maxSize w)) es else es)"

lemma Add_entries:
  "ew_entries (fst (Add w ev ttl now)) =
     cap w (ew_entries w @ [\<lparr>we_event = ev, we_expiresAt = now + ttl\<rparr>])"
  "ew_maxSize (fst (Add w ev ttl now)) = ew_maxSize w"
  "ew_onDrop (fst (Add w ev ttl now)) = ew_onDrop w"
  by (auto simp: Add_def Let_def cap_def last_n_def nat_diff_distrib' intro!: arg_cong2 [where f = drop])

lemma Prune_entries [simp]:
  "ew_entries (Prune now w) = filter (\<lambda>e. now < we_expiresAt e) (ew_entries w)"
  "ew_maxSize (Prune now w) = ew_maxSize w" "ew_onDrop (Prune now w) = ew_onDrop w"
  by (simp_all add: Prune_def)

section \<open>Invariant\<close>

text \<open>
  A window of type \<open>ty\<close> whose entries are all added with the time to live \<open>ttl\<close> holds, at time
  \<open>now\<close>, events of that type only, in the order of their expiry, none expiring later than
  \<open>now + ttl\<close>, and never more than the configured size.
\<close>

definition window_ok :: "string \<Rightarrow> duration \<Rightarrow> time \<Rightarrow> EventWindow \<Rightarrow> bool" where
  "window_ok ty ttl now w \<longleftrightarrow>
     (\<forall>e\<in>set (ew_entries w). EventTy (we_event e) = ty \<and> we_expiresAt e \<le> now + ttl) \<and>
     sorted (map we_expiresAt (ew_entries w)) \<and>
     (0 < ew_maxSize w \<longrightarrow> Size w \<le> ew_maxSize w)"

lemma sorted_map_filter: "sorted (map f xs) \<Longrightarrow> sorted (map f (filter P xs))"
  by (induction xs) auto

lemma window_ok_mono: "window_ok ty ttl now w \<Longrightarrow> now \<le> now' \<Longrightarrow> window_ok ty ttl now' w"
  by (force simp: window_ok_def)

lemma window_ok_filter:
  "window_ok ty ttl now w \<Longrightarrow> ew_entries w' = filter P (ew_entries w) \<Longrightarrow>
   ew_maxSize w' = ew_maxSize w \<Longrightarrow> window_ok ty ttl now w'"
  by (auto simp: window_ok_def Size_def intro: sorted_map_filter order.trans [OF of_nat_mono [OF length_filter_le]])

lemma window_ok_Prune [inv_intros]: "window_ok ty ttl now w \<Longrightarrow> window_ok ty ttl now (Prune t w)"
  by (erule window_ok_filter) simp_all

lemma window_ok_Take [inv_intros]:
  "window_ok ty ttl now w \<Longrightarrow> window_ok ty ttl now (fst (TakeMatchingEntries fs ev t w))"
  by (erule window_ok_filter) (auto simp: Take_entries live_def conj_commute)

lemma set_cap: "set (cap w es) \<subseteq> set es"
  using set_last_n [of "nat (ew_maxSize w)" es] by (auto simp: cap_def)

lemma sorted_cap: "sorted (map f es) \<Longrightarrow> sorted (map f (cap w es))"
  by (auto simp: cap_def last_n_def drop_map [symmetric] intro: sorted_wrt_drop)

lemma length_cap: "0 < ew_maxSize w \<Longrightarrow> int (length (cap w es)) \<le> ew_maxSize w"
  by (simp add: cap_def)

lemma window_ok_Add [inv_intros]:
  assumes "window_ok ty ttl now w" "EventTy ev = ty" "now \<le> now'"
  shows "window_ok ty ttl now' (fst (Add w ev ttl now'))"
proof -
  let ?es = "ew_entries w @ [\<lparr>we_event = ev, we_expiresAt = now' + ttl\<rparr>]"
  have ok: "window_ok ty ttl now' w" using assms window_ok_mono by blast
  then have "sorted (map we_expiresAt ?es)" by (auto simp: window_ok_def sorted_append)
  moreover have "\<forall>e\<in>set ?es. EventTy (we_event e) = ty \<and> we_expiresAt e \<le> now' + ttl"
    using ok assms by (auto simp: window_ok_def)
  ultimately show ?thesis
    using set_cap [of w ?es] sorted_cap [of we_expiresAt ?es w] length_cap [of w ?es]
    unfolding window_ok_def Add_entries Size_def by blast
qed

section \<open>The contract of a window\<close>

text \<open>
  What the correlator relies on: a window is observed only through the entries still live at the
  time of the observation. \<open>add\<close> appends an entry and keeps the newest ones that fit, \<open>take\<close>
  returns and removes the live entries that match, and \<open>prune\<close> is invisible from then on.
\<close>

definition same_live ::
  "(time \<Rightarrow> 'w \<Rightarrow> 'x list) \<Rightarrow> ('w \<Rightarrow> int) \<Rightarrow> time \<Rightarrow> 'w \<Rightarrow> 'w \<Rightarrow> bool" where
  "same_live lv bound now w w' \<longleftrightarrow> bound w = bound w' \<and> (\<forall>t\<ge>now. lv t w = lv t w')"

definition cap_to :: "int \<Rightarrow> 'x list \<Rightarrow> 'x list" where
  "cap_to b xs = (if 0 < b then last_n (nat b) xs else xs)"

locale event_window =
  fixes add :: "'w \<Rightarrow> 'e \<Rightarrow> time \<Rightarrow> 'w"
    and take :: "'q \<Rightarrow> time \<Rightarrow> 'w \<Rightarrow> 'w \<times> 'e list"
    and prune :: "time \<Rightarrow> 'w \<Rightarrow> 'w"
    and ok :: "time \<Rightarrow> 'w \<Rightarrow> bool"
    and accepts :: "'e \<Rightarrow> bool"
    and lv :: "time \<Rightarrow> 'w \<Rightarrow> 'x list"
    and bound :: "'w \<Rightarrow> int"
    and entry :: "'e \<Rightarrow> time \<Rightarrow> time \<Rightarrow> 'x list"
    and hits :: "'q \<Rightarrow> 'x \<Rightarrow> bool"
    and val :: "'x \<Rightarrow> 'e"
  assumes ok_mono: "ok now w \<Longrightarrow> now \<le> now' \<Longrightarrow> ok now' w"
    and ok_add: "ok now w \<Longrightarrow> accepts e \<Longrightarrow> ok now (add w e now)"
    and ok_take: "ok now w \<Longrightarrow> ok now (fst (take q t w))"
    and ok_prune: "ok now w \<Longrightarrow> ok now (prune t w)"
    and bound_add: "bound (add w e now) = bound w"
    and bound_take: "bound (fst (take q now w)) = bound w"
    and bound_prune: "bound (prune now w) = bound w"
    and live_add: "ok now w \<Longrightarrow> accepts e \<Longrightarrow> now \<le> t \<Longrightarrow>
       lv t (add w e now) = cap_to (bound w) (lv t w @ entry e now t)"
    and live_take: "now \<le> t \<Longrightarrow> lv t (fst (take q now w)) = filter (\<lambda>x. \<not> hits q x) (lv t w)"
    and take_out: "snd (take q now w) = map val (filter (hits q) (lv now w))"
    and live_prune: "now < t \<Longrightarrow> lv t (prune now w) = lv t w"
begin

lemma same_refl: "same_live lv bound now w w"
  by (simp add: same_live_def)

lemma same_mono: "same_live lv bound now w w' \<Longrightarrow> now \<le> now' \<Longrightarrow> same_live lv bound now' w w'"
  by (simp add: same_live_def)

lemma same_trans:
  "same_live lv bound now w w' \<Longrightarrow> same_live lv bound now w' w'' \<Longrightarrow> same_live lv bound now w w''"
  by (simp add: same_live_def)

lemma same_add:
  "same_live lv bound now w w' \<Longrightarrow> ok now w \<Longrightarrow> ok now w' \<Longrightarrow> accepts e \<Longrightarrow>
   same_live lv bound now (add w e now) (add w' e now)"
  by (simp add: same_live_def bound_add live_add)

lemma same_take:
  "same_live lv bound now w w' \<Longrightarrow>
   same_live lv bound now (fst (take q now w)) (fst (take q now w'))"
  by (simp add: same_live_def bound_take live_take)

lemma same_take_out:
  "same_live lv bound now w w' \<Longrightarrow> snd (take q now w) = snd (take q now w')"
  by (simp add: same_live_def take_out)

lemma same_prune: "now < now' \<Longrightarrow> same_live lv bound now' (prune now w) w"
  by (simp add: same_live_def bound_prune live_prune)

text \<open>After a trigger, whatever it was, nothing it matched is left; a second one finds nothing.\<close>

lemma take_drains: "now \<le> t \<Longrightarrow> snd (take q t (fst (take q now w))) = []"
  by (simp add: take_out live_take filter_empty_conv)

end

subsection \<open>The code's window keeps it\<close>

lemma sorted_filter_suffix:
  "sorted (map f xs) \<Longrightarrow> \<exists>k. filter (\<lambda>x. (t::int) \<le> f x) xs = drop k xs"
proof (induction xs)
  case Nil
  then show ?case by simp
next
  case (Cons x xs)
  show ?case
  proof (cases "t \<le> f x")
    case True
    then have "\<forall>y\<in>set (x # xs). t \<le> f y" using Cons.prems by auto
    then have "filter (\<lambda>x. t \<le> f x) (x # xs) = drop 0 (x # xs)" by (simp add: filter_True)
    then show ?thesis by blast
  next
    case False
    then obtain k where "filter (\<lambda>x. t \<le> f x) xs = drop k xs" using Cons by auto
    then have "filter (\<lambda>x. t \<le> f x) (x # xs) = drop (Suc k) (x # xs)" using False by simp
    then show ?thesis by blast
  qed
qed

lemma filter_last_n:
  assumes "sorted (map f xs)"
  shows "filter (\<lambda>x. (t::int) \<le> f x) (last_n n xs) = last_n n (filter (\<lambda>x. t \<le> f x) xs)"
proof -
  obtain k where k: "filter (\<lambda>x. t \<le> f x) xs = drop k xs"
    using sorted_filter_suffix assms by blast
  let ?d = "length xs - n"
  have all: "\<forall>x\<in>set (drop k xs). t \<le> f x" by (simp flip: k)
  have none: "\<not> t \<le> f (xs ! i)" if "i < k" "i < length xs" for i
  proof -
    have "filter (\<lambda>x. t \<le> f x) (take k xs @ drop k xs) = drop k xs"
      using k by simp
    then have "filter (\<lambda>x. t \<le> f x) (take k xs) = []"
      using all by (simp del: append_take_drop_id add: filter_True)
    then have "\<forall>x\<in>set (take k xs). \<not> t \<le> f x" by (simp add: filter_empty_conv)
    then show ?thesis using that by (metis in_set_conv_nth length_take min_less_iff_conj nth_take)
  qed
  have "filter (\<lambda>x. t \<le> f x) (drop ?d xs) = drop (max k ?d) xs"
  proof (cases "k \<le> ?d")
    case True
    then have "drop ?d xs = drop (?d - k) (drop k xs)" by (metis drop_drop le_add_diff_inverse2)
    then have "\<forall>x\<in>set (drop ?d xs). t \<le> f x" using all in_set_dropD by metis
    then show ?thesis using True by (simp add: filter_True max_def)
  next
    case False
    have "drop ?d xs = take (k - ?d) (drop ?d xs) @ drop k xs"
      by (metis False append_take_drop_id drop_drop le_add_diff_inverse2 nat_le_linear)
    moreover have "filter (\<lambda>x. t \<le> f x) (take (k - ?d) (drop ?d xs)) = []"
      using none by (auto simp: filter_empty_conv in_set_conv_nth)
    ultimately have "filter (\<lambda>x. t \<le> f x) (drop ?d xs) = filter (\<lambda>x. t \<le> f x) (drop k xs)"
      by (metis append_Nil filter_append)
    then show ?thesis using False all by (simp add: filter_True max_def)
  qed
  moreover have "last_n n (drop k xs) = drop (max k ?d) xs"
    by (cases "k \<le> ?d") (auto simp: last_n_def max_def diff_right_commute [of _ k n] simp del: diff_diff_left)
  ultimately show ?thesis by (simp add: last_n_def k)
qed

lemma live_Add:
  assumes "window_ok ty ttl now w" "EventTy ev = ty"
  shows "live t (fst (Add w ev ttl now)) =
    cap_to (ew_maxSize w)
      (live t w @ filter (\<lambda>e. t \<le> we_expiresAt e) [\<lparr>we_event = ev, we_expiresAt = now + ttl\<rparr>])"
proof -
  have "sorted (map we_expiresAt (ew_entries w @ [\<lparr>we_event = ev, we_expiresAt = now + ttl\<rparr>]))"
    using assms by (auto simp: window_ok_def sorted_append)
  from filter_last_n [OF this] show ?thesis
    by (simp add: live_def Add_entries cap_def cap_to_def)
qed

lemma live_Take:
  "now \<le> t \<Longrightarrow> live t (fst (TakeMatchingEntries fs ev now w)) =
     filter (\<lambda>e. \<not> fieldsMatch fs (we_event e) ev) (live t w)"
  by (auto simp: live_def Take_entries intro!: filter_cong)

lemma live_Prune: "now < t \<Longrightarrow> live t (Prune now w) = live t w"
  by (auto simp: live_def intro!: filter_cong)

interpretation window: event_window
  "\<lambda>w ev now. fst (Add w ev ttl now)"
  "\<lambda>(fs, ev) now w. TakeMatchingEntries fs ev now w"
  Prune "window_ok ty ttl" "\<lambda>ev. EventTy ev = ty" live ew_maxSize
  "\<lambda>ev now t. filter (\<lambda>e. t \<le> we_expiresAt e) [\<lparr>we_event = ev, we_expiresAt = now + ttl\<rparr>]"
  "\<lambda>(fs, ev) e. fieldsMatch fs (we_event e) ev" we_event
  for ty ttl
  by unfold_locales
    (auto simp: live_Take live_Prune live_Add Add_entries(2) Take_entries split: prod.split
      intro: window_ok_mono window_ok_Add window_ok_Take window_ok_Prune simp del: filter.simps)

end
