(* ===== verification/Correlator.thy ===== *)
theory Correlator
  imports Event_Window Go_Time "HOL-Library.AList"
begin

text \<open>
  The correlator (\<open>Correlator\<close> in \<open>internal/engine/correlation.go\<close>): its construction from the
  configured correlations, the processing of an event, and its interleaving with the pruner
  goroutine. \<open>windows\<close> is an association list because the source ranges over it. \<open>Process\<close> reads
  the clock once per window access; the reading of the \<open>j\<close>-th access is \<open>clk j\<close>.
\<close>

section \<open>State\<close>

record CorrelatorConfig =
  cc_DefaultWindowTTL :: duration
  cc_PruneInterval :: duration
  cc_MaxWindowSize :: int

record Correlator =
  cr_correlations :: "Correlation list"
  cr_windows :: "(string \<times> EventWindow) list"
  cr_windowTTLs :: "string \<rightharpoonup> duration"
  cr_cfg :: CorrelatorConfig

text \<open>\<open>c.windowTTLs[t]\<close> is zero for a missing key.\<close>

definition ttl_get :: "(string \<rightharpoonup> duration) \<Rightarrow> string \<Rightarrow> duration" where
  "ttl_get m t = (case m t of Some d \<Rightarrow> d | None \<Rightarrow> 0)"

section \<open>Construction\<close>

fun register_types ::
  "CorrelatorConfig \<Rightarrow> bool \<Rightarrow> duration \<Rightarrow> string list \<Rightarrow> Correlator \<Rightarrow> Correlator" where
  "register_types cfg onDrop d [] c = c"
| "register_types cfg onDrop d (evtType # ts) c =
     (let c1 = (if map_of (cr_windows c) evtType = None
                then c\<lparr>cr_windows := cr_windows c @
                        [(evtType, \<lparr>ew_entries = [], ew_maxSize = cc_MaxWindowSize cfg,
                                    ew_onDrop = onDrop\<rparr>)]\<rparr>
                else c);
          c2 = (if d > ttl_get (cr_windowTTLs c1) evtType
                then c1\<lparr>cr_windowTTLs := (cr_windowTTLs c1)(evtType \<mapsto> d)\<rparr> else c1)
      in register_types cfg onDrop d ts c2)"

text \<open>The loop over the correlations; it also stores each parsed window in the correlation.\<close>

fun register_correlations ::
  "CorrelatorConfig \<Rightarrow> bool \<Rightarrow> Correlation list \<Rightarrow> Correlator \<Rightarrow> Correlation list \<times> Correlator" where
  "register_correlations cfg onDrop [] c = ([], c)"
| "register_correlations cfg onDrop (corr # cs) c =
     (let d = (case ParseDuration (co_Window corr) of
                 None \<Rightarrow> cc_DefaultWindowTTL cfg | Some d \<Rightarrow> d);
          c' = register_types cfg onDrop d (co_Sequence corr) c;
          (cs', c'') = register_correlations cfg onDrop cs c'
      in (corr\<lparr>co_windowDuration := d\<rparr> # cs', c''))"

definition NewCorrelator :: "Correlation list \<Rightarrow> CorrelatorConfig \<Rightarrow> bool \<Rightarrow> Correlator" where
  "NewCorrelator correlations cfg onDrop =
     (let (cs, c) = register_correlations cfg onDrop correlations
            \<lparr>cr_correlations = [], cr_windows = [], cr_windowTTLs = Map.empty, cr_cfg = cfg\<rparr>
      in c\<lparr>cr_correlations := cs\<rparr>)"

section \<open>Operations\<close>

fun sum_sizes :: "int64 \<Rightarrow> (string \<times> EventWindow) list \<Rightarrow> int64" where
  "sum_sizes n [] = n"
| "sum_sizes n ((t, w) # ws) = sum_sizes (i64 (n + Size w)) ws"

definition OpenEntries :: "Correlator \<Rightarrow> int64" where
  "OpenEntries c = sum_sizes 0 (cr_windows c)"

text \<open>What the pruner does at a tick: the window of each type in turn, each at its own instant.\<close>

definition prune_window :: "string \<Rightarrow> time \<Rightarrow> Correlator \<Rightarrow> Correlator" where
  "prune_window t now c =
     (case map_of (cr_windows c) t of
        None \<Rightarrow> c
      | Some w \<Rightarrow> c\<lparr>cr_windows := AList.update t (Prune now w) (cr_windows c)\<rparr>)"

fun prune_windows :: "(string \<times> time) list \<Rightarrow> Correlator \<Rightarrow> Correlator" where
  "prune_windows [] c = c"
| "prune_windows ((t, now) # ts) c = prune_windows ts (prune_window t now c)"

definition StartPruner_tick :: "(nat \<Rightarrow> time) \<Rightarrow> Correlator \<Rightarrow> Correlator" where
  "StartPruner_tick clk c =
     prune_windows (map (\<lambda>(i, t, w). (t, clk i)) (enumerate 0 (cr_windows c))) c"

text \<open>The body of the loop of \<open>Process\<close> for one correlation; \<open>k\<close> counts the signals built.\<close>

definition process_correlation ::
  "sig_source \<Rightarrow> nat \<Rightarrow> time \<Rightarrow> Correlation \<Rightarrow> EnrichedEvent \<Rightarrow> Correlator \<Rightarrow> Correlator \<times> Signal list"
where
  "process_correlation gen k now corr event c =
     (let evtType = EventTy event in
      if length (co_Sequence corr) \<noteq> 2 then (c, [])
      else if co_Sequence corr ! 1 = evtType then
        (let firstType = co_Sequence corr ! 0 in
         case map_of (cr_windows c) firstType of
           None \<Rightarrow> (c, [])
         | Some window \<Rightarrow>
             (let (window', matches) = TakeMatchingEntries (co_SameFields corr) event now window;
                  c' = c\<lparr>cr_windows := AList.update firstType window' (cr_windows c)\<rparr>;
                  minCount = (if co_MinFirstCount corr \<le> 0 then 1 else co_MinFirstCount corr)
              in (c', if int (length matches) \<ge> minCount
                      then [newSignal gen k (co_Signal corr) (co_Confidence corr) event
                              [''correlation'' \<mapsto> co_Name corr]]
                      else [])))
      else (c, []))"

fun process_correlations ::
  "sig_source \<Rightarrow> (nat \<Rightarrow> time) \<Rightarrow> nat \<Rightarrow> nat \<Rightarrow> Correlation list \<Rightarrow> EnrichedEvent \<Rightarrow> Correlator
     \<Rightarrow> Correlator \<times> Signal list"
where
  "process_correlations gen clk j k [] event c = (c, [])"
| "process_correlations gen clk j k (corr # cs) event c =
     (let (c', sigs) = process_correlation gen k (clk j) corr event c;
          (c'', sigs') = process_correlations gen clk (Suc j) (k + length sigs) cs event c'
      in (c'', sigs @ sigs'))"

text \<open>The last step, adding the event to the window of its type.\<close>

definition record_event :: "time \<Rightarrow> EnrichedEvent \<Rightarrow> Correlator \<Rightarrow> Correlator \<times> int option" where
  "record_event now event c =
     (let evtType = EventTy event in
      case map_of (cr_windows c) evtType of
        None \<Rightarrow> (c, None)
      | Some window \<Rightarrow>
          (let ttl = ttl_get (cr_windowTTLs c) evtType;
               ttl' = (if ttl = 0 then cc_DefaultWindowTTL (cr_cfg c) else ttl);
               (window', dropped) = Add window event ttl' now
           in (c\<lparr>cr_windows := AList.update evtType window' (cr_windows c)\<rparr>, dropped)))"

definition Process ::
  "sig_source \<Rightarrow> nat \<Rightarrow> (nat \<Rightarrow> time) \<Rightarrow> EnrichedEvent \<Rightarrow> Correlator
     \<Rightarrow> Correlator \<times> Signal list \<times> int option"
where
  "Process gen k clk event c =
     (let (c1, signals) = process_correlations gen clk 0 k (cr_correlations c) event c;
          (c2, dropped) = record_event (clk (length (cr_correlations c))) event c1
      in (c2, signals, dropped))"

section \<open>Construction: windows and times to live\<close>

definition parsed_window :: "CorrelatorConfig \<Rightarrow> Correlation \<Rightarrow> duration" where
  "parsed_window cfg corr =
     (case ParseDuration (co_Window corr) of None \<Rightarrow> cc_DefaultWindowTTL cfg | Some d \<Rightarrow> d)"

definition effective_ttl :: "Correlator \<Rightarrow> string \<Rightarrow> duration" where
  "effective_ttl c t =
     (let ttl = ttl_get (cr_windowTTLs c) t
      in if ttl = 0 then cc_DefaultWindowTTL (cr_cfg c) else ttl)"

lemma ttl_get_upd [simp]: "ttl_get (m(k \<mapsto> d)) t = (if t = k then d else ttl_get m t)"
  by (simp add: ttl_get_def)

lemma map_of_snoc: "map_of (xs @ [(k, v)]) t =
    (case map_of xs t of Some w \<Rightarrow> Some w | None \<Rightarrow> if t = k then Some v else None)"
  by (auto simp: map_add_def split: option.split)

definition fresh_windows :: "CorrelatorConfig \<Rightarrow> bool \<Rightarrow> Correlator \<Rightarrow> bool" where
  "fresh_windows cfg onDrop c \<longleftrightarrow> distinct (map fst (cr_windows c)) \<and> cr_cfg c = cfg \<and>
     (\<forall>(t, w)\<in>set (cr_windows c). w = \<lparr>ew_entries = [], ew_maxSize = cc_MaxWindowSize cfg,
                                    ew_onDrop = onDrop\<rparr>)"

lemma register_types_inv:
  assumes "fresh_windows cfg onDrop c"
  shows "fresh_windows cfg onDrop (register_types cfg onDrop d ts c) \<and>
    fst ` set (cr_windows (register_types cfg onDrop d ts c)) = fst ` set (cr_windows c) \<union> set ts \<and>
    (\<forall>t. ttl_get (cr_windowTTLs (register_types cfg onDrop d ts c)) t =
       (if t \<in> set ts then max d (ttl_get (cr_windowTTLs c) t)
        else ttl_get (cr_windowTTLs c) t))"
  using assms
proof (induction cfg onDrop d ts c rule: register_types.induct)
  case (1 cfg onDrop d c)
  then show ?case by simp
next
  case (2 cfg onDrop d evtType ts c)
  define c1 where "c1 = (if map_of (cr_windows c) evtType = None
      then c\<lparr>cr_windows := cr_windows c @ [(evtType, \<lparr>ew_entries = [],
              ew_maxSize = cc_MaxWindowSize cfg, ew_onDrop = onDrop\<rparr>)]\<rparr> else c)"
  define c2 where "c2 = (if d > ttl_get (cr_windowTTLs c1) evtType
      then c1\<lparr>cr_windowTTLs := (cr_windowTTLs c1)(evtType \<mapsto> d)\<rparr> else c1)"
  have c1: "fresh_windows cfg onDrop c1" "cr_windowTTLs c1 = cr_windowTTLs c"
    "fst ` set (cr_windows c1) = insert evtType (fst ` set (cr_windows c))"
    using 2(2) by (auto simp: c1_def fresh_windows_def map_of_eq_None_iff dest: map_of_SomeD)
  have c2: "fresh_windows cfg onDrop c2" "cr_windows c2 = cr_windows c1"
    using c1 by (auto simp: c2_def fresh_windows_def)
  have IH: "fresh_windows cfg onDrop (register_types cfg onDrop d ts c2) \<and>
    fst ` set (cr_windows (register_types cfg onDrop d ts c2)) = fst ` set (cr_windows c2) \<union> set ts \<and>
    (\<forall>t. ttl_get (cr_windowTTLs (register_types cfg onDrop d ts c2)) t =
       (if t \<in> set ts then max d (ttl_get (cr_windowTTLs c2) t) else ttl_get (cr_windowTTLs c2) t))"
    using 2(1) [OF c1_def c2_def c2(1)]
    by blast
  have r: "register_types cfg onDrop d (evtType # ts) c = register_types cfg onDrop d ts c2"
    by (simp add: c2_def c1_def Let_def)
  have t: "ttl_get (cr_windowTTLs c2) t =
      (if t = evtType then max d (ttl_get (cr_windowTTLs c) t) else ttl_get (cr_windowTTLs c) t)" for t
    using c1(2) by (simp add: c2_def)
  show ?case unfolding r using IH c1 c2 by (auto simp: t)
qed

lemma register_correlations_inv:
  assumes "fresh_windows cfg onDrop c" "register_correlations cfg onDrop cs c = (cs', c')"
  shows "fresh_windows cfg onDrop c' \<and>
    cs' = map (\<lambda>corr. corr\<lparr>co_windowDuration := parsed_window cfg corr\<rparr>) cs \<and>
    fst ` set (cr_windows c') = fst ` set (cr_windows c) \<union> (\<Union>corr\<in>set cs. set (co_Sequence corr)) \<and>
    (\<forall>t. ttl_get (cr_windowTTLs c') t =
       Max (insert (ttl_get (cr_windowTTLs c) t)
              (parsed_window cfg ` {corr \<in> set cs. t \<in> set (co_Sequence corr)})))"
  using assms
proof (induction cs arbitrary: c cs' c')
  case Nil
  then show ?case by simp
next
  case (Cons corr cs)
  let ?d = "parsed_window cfg corr"
  let ?c1 = "register_types cfg onDrop ?d (co_Sequence corr) c"
  obtain cs1 where r: "register_correlations cfg onDrop cs ?c1 = (cs1, c')"
    and cs': "cs' = corr\<lparr>co_windowDuration := ?d\<rparr> # cs1"
    using Cons.prems(2) by (auto simp: Let_def parsed_window_def [symmetric] split: prod.splits)
  have t1: "ttl_get (cr_windowTTLs ?c1) t =
      (if t \<in> set (co_Sequence corr) then max ?d (ttl_get (cr_windowTTLs c) t)
       else ttl_get (cr_windowTTLs c) t)" for t
    using register_types_inv [OF Cons.prems(1)] by blast
  have IH: "fresh_windows cfg onDrop c'"
    "cs1 = map (\<lambda>corr. corr\<lparr>co_windowDuration := parsed_window cfg corr\<rparr>) cs"
    "fst ` set (cr_windows c') = fst ` set (cr_windows ?c1) \<union> (\<Union>corr\<in>set cs. set (co_Sequence corr))"
    "\<And>t. ttl_get (cr_windowTTLs c') t =
       Max (insert (ttl_get (cr_windowTTLs ?c1) t)
              (parsed_window cfg ` {corr \<in> set cs. t \<in> set (co_Sequence corr)}))"
    using Cons.IH [OF _ r] register_types_inv [OF Cons.prems(1)] by blast+
  have keys: "fst ` set (cr_windows ?c1) = fst ` set (cr_windows c) \<union> set (co_Sequence corr)"
    using register_types_inv [OF Cons.prems(1)] by blast
  have m: "Max (insert (ttl_get (cr_windowTTLs ?c1) t)
              (parsed_window cfg ` {corr \<in> set cs. t \<in> set (co_Sequence corr)})) =
       Max (insert (ttl_get (cr_windowTTLs c) t)
              (parsed_window cfg ` {x \<in> set (corr # cs). t \<in> set (co_Sequence x)}))" for t
  proof (cases "t \<in> set (co_Sequence corr)")
    case True
    let ?S = "parsed_window cfg ` {x \<in> set cs. t \<in> set (co_Sequence x)}"
    have "parsed_window cfg ` {x \<in> set (corr # cs). t \<in> set (co_Sequence x)} = insert ?d ?S"
      using True by auto
    moreover have "finite ?S" by simp
    then have "Max (insert (max ?d a) ?S) = Max (insert a (insert ?d ?S))" for a
      by (cases "?S = {}") (simp_all only: Max_insert Max_singleton finite_insert insert_not_empty
          max.assoc max.commute max.left_commute finite.emptyI not_False_eq_True)
    ultimately show ?thesis using True t1 by simp
  next
    case False
    then have "{x \<in> set (corr # cs). t \<in> set (co_Sequence x)} = {x \<in> set cs. t \<in> set (co_Sequence x)}"
      by auto
    then show ?thesis using False t1 by simp
  qed
  show ?case using IH keys m cs' by auto
qed

text \<open>The time to live of every event of a type is the longest window of all the
  correlations whose sequence mentions the type (zero if none is positive): the windows of
  correlations that share an event type are not kept apart, and the duration stored in a
  correlation plays no part in it.\<close>

theorem NewCorrelator_ttl:
  "ttl_get (cr_windowTTLs (NewCorrelator cs cfg onDrop)) t =
     Max (insert 0 (parsed_window cfg ` {corr \<in> set cs. t \<in> set (co_Sequence corr)}))"
proof -
  let ?c = "\<lparr>cr_correlations = [], cr_windows = [], cr_windowTTLs = Map.empty, cr_cfg = cfg\<rparr>"
  obtain cs' c' where r: "register_correlations cfg onDrop cs ?c = (cs', c')" by force
  have "fresh_windows cfg onDrop ?c" by (simp add: fresh_windows_def)
  from register_correlations_inv [OF this r] show ?thesis
    by (simp add: NewCorrelator_def r ttl_get_def)
qed

lemma NewCorrelator_windows:
  "fresh_windows cfg onDrop (NewCorrelator cs cfg onDrop) \<and>
   fst ` set (cr_windows (NewCorrelator cs cfg onDrop)) = (\<Union>corr\<in>set cs. set (co_Sequence corr)) \<and>
   cr_correlations (NewCorrelator cs cfg onDrop) =
     map (\<lambda>corr. corr\<lparr>co_windowDuration := parsed_window cfg corr\<rparr>) cs"
proof -
  let ?c = "\<lparr>cr_correlations = [], cr_windows = [], cr_windowTTLs = Map.empty, cr_cfg = cfg\<rparr>"
  obtain cs' c' where r: "register_correlations cfg onDrop cs ?c = (cs', c')" by force
  have "fresh_windows cfg onDrop ?c" by (simp add: fresh_windows_def)
  from register_correlations_inv [OF this r] show ?thesis
    by (auto simp: NewCorrelator_def r fresh_windows_def)
qed

section \<open>One correlation against one event\<close>

definition min_count :: "Correlation \<Rightarrow> int" where
  "min_count corr = (if co_MinFirstCount corr \<le> 0 then 1 else co_MinFirstCount corr)"

definition triggers :: "Correlation \<Rightarrow> EnrichedEvent \<Rightarrow> bool" where
  "triggers corr event \<longleftrightarrow> length (co_Sequence corr) = 2 \<and> co_Sequence corr ! 1 = EventTy event"

definition live_matches :: "Correlation \<Rightarrow> EnrichedEvent \<Rightarrow> time \<Rightarrow> Correlator \<Rightarrow> windowEntry list" where
  "live_matches corr event now c =
     (case map_of (cr_windows c) (co_Sequence corr ! 0) of
        None \<Rightarrow> []
      | Some w \<Rightarrow> filter (\<lambda>e. fieldsMatch (co_SameFields corr) (we_event e) event) (live now w))"

definition correlation_signal :: "sig_source \<Rightarrow> nat \<Rightarrow> Correlation \<Rightarrow> EnrichedEvent \<Rightarrow> Signal" where
  "correlation_signal gen k corr event =
     newSignal gen k (co_Signal corr) (co_Confidence corr) event [''correlation'' \<mapsto> co_Name corr]"

definition set_window :: "string \<Rightarrow> EventWindow \<Rightarrow> Correlator \<Rightarrow> Correlator" where
  "set_window t w c = c\<lparr>cr_windows := AList.update t w (cr_windows c)\<rparr>"

lemma set_window_simps [simp]:
  "map_of (cr_windows (set_window t w c)) = (map_of (cr_windows c))(t \<mapsto> w)"
  "cr_correlations (set_window t w c) = cr_correlations c"
  "cr_windowTTLs (set_window t w c) = cr_windowTTLs c" "cr_cfg (set_window t w c) = cr_cfg c"
  "effective_ttl (set_window t w c) = effective_ttl c"
  by (simp_all add: set_window_def update_conv' effective_ttl_def fun_eq_iff Let_def)

lemma set_window_keys:
  "map_of (cr_windows c) t \<noteq> None \<Longrightarrow> map fst (cr_windows (set_window t w c)) = map fst (cr_windows c)"
  by (auto simp: set_window_def update_keys dest: map_of_SomeD intro: rev_image_eqI)

lemma process_correlation_eq:
  "process_correlation gen k now corr ev c =
     (if triggers corr ev then
        (case map_of (cr_windows c) (co_Sequence corr ! 0) of
           None \<Rightarrow> (c, [])
         | Some w \<Rightarrow>
             (set_window (co_Sequence corr ! 0)
                (fst (TakeMatchingEntries (co_SameFields corr) ev now w)) c,
              if min_count corr \<le> int (length (snd (TakeMatchingEntries (co_SameFields corr) ev now w)))
              then [correlation_signal gen k corr ev] else []))
      else (c, []))"
  by (auto simp: process_correlation_def triggers_def min_count_def correlation_signal_def
      set_window_def Let_def split: option.split prod.split)

lemma prune_window_eq:
  "prune_window t now c =
     (case map_of (cr_windows c) t of None \<Rightarrow> c | Some w \<Rightarrow> set_window t (Prune now w) c)"
  by (simp add: prune_window_def set_window_def split: option.split)

lemma record_event_eq:
  "record_event now ev c =
     (case map_of (cr_windows c) (EventTy ev) of
        None \<Rightarrow> (c, None)
      | Some w \<Rightarrow>
          (set_window (EventTy ev) (fst (Add w ev (effective_ttl c (EventTy ev)) now)) c,
           snd (Add w ev (effective_ttl c (EventTy ev)) now)))"
  by (auto simp: record_event_def set_window_def effective_ttl_def Let_def split: option.split prod.split)

lemma min_count_pos: "0 < min_count corr"
  by (simp add: min_count_def)

lemma process_correlation_fires:
  "snd (process_correlation gen k now corr ev c) =
     (if triggers corr ev \<and> min_count corr \<le> int (length (live_matches corr ev now c))
      then [correlation_signal gen k corr ev] else [])"
  using min_count_pos [of corr]
  by (auto simp: process_correlation_eq live_matches_def Take_entries(4) split: option.split)

lemma process_static:
  "cr_correlations (fst (process_correlation gen k t corr ev c)) = cr_correlations c"
  "cr_cfg (fst (process_correlation gen k t corr ev c)) = cr_cfg c"
  "cr_windowTTLs (fst (process_correlation gen k t corr ev c)) = cr_windowTTLs c"
  "map fst (cr_windows (fst (process_correlation gen k t corr ev c))) = map fst (cr_windows c)"
  by (auto simp: process_correlation_eq set_window_keys split: option.split)

text \<open>C5. An event of the second type fires a correlation exactly when the window of the first type
  holds, at that instant, at least \<open>MinFirstCount\<close> (at least one) unexpired events that agree with
  it on all \<open>SameFields\<close>; the signal carries the triggering event and the correlation's name. Fired or
  not, those events and the expired ones are gone from that window afterwards and the others are kept; nothing else of
  the correlator changes. An event of any other type, or a malformed sequence, fires and changes nothing.\<close>

theorem correlation_fires_iff:
  "case process_correlation gen k now corr ev c of (c', sigs) \<Rightarrow>
     sigs = (if triggers corr ev \<and> min_count corr \<le> int (length (live_matches corr ev now c))
             then [correlation_signal gen k corr ev] else []) \<and>
     (\<forall>t. map_of (cr_windows c') t =
        (if triggers corr ev \<and> t = co_Sequence corr ! 0
         then map_option (ew_entries_update (filter (\<lambda>e. now \<le> we_expiresAt e \<and> \<not> fieldsMatch (co_SameFields corr) (we_event e) ev)))
                (map_of (cr_windows c) t)
         else map_of (cr_windows c) t)) \<and>
     cr_correlations c' = cr_correlations c \<and> cr_windowTTLs c' = cr_windowTTLs c \<and> cr_cfg c' = cr_cfg c"
proof -
  obtain c' sigs where p: "process_correlation gen k now corr ev c = (c', sigs)" by force
  have "map_of (cr_windows c') t =
        (if triggers corr ev \<and> t = co_Sequence corr ! 0
         then map_option (ew_entries_update (filter (\<lambda>e. now \<le> we_expiresAt e \<and> \<not> fieldsMatch (co_SameFields corr) (we_event e) ev)))
                (map_of (cr_windows c) t)
         else map_of (cr_windows c) t)" for t
    using p by (auto simp: process_correlation_eq Take_window split: if_splits option.splits)
  then show ?thesis
    using process_correlation_fires [of gen k now corr ev c] process_static(1-3) [of gen k now corr ev c] p by simp
qed

lemma live_matches_drained:
  assumes "triggers corr ev" "now \<le> t"
    and fields: "set (co_SameFields corr) \<subseteq> set (co_SameFields corr')"
    and seq: "co_Sequence corr' ! 0 = co_Sequence corr ! 0"
  shows "live_matches corr' ev t (fst (process_correlation gen k now corr ev c)) = []"
proof (cases "map_of (cr_windows c) (co_Sequence corr ! 0)")
  case None
  then show ?thesis using assms by (simp add: process_correlation_eq live_matches_def)
next
  case (Some w)
  then show ?thesis
    using assms
    by (auto simp: process_correlation_eq live_matches_def live_Take fieldsMatch_iff filter_empty_conv)
qed

text \<open>No event is counted twice: a trigger takes every matching event out of the window, fired or
  not, so the same event presented again at once fires nothing, even if \<open>MinFirstCount\<close> was not
  reached the first time.\<close>

theorem no_double_consumption:
  assumes "now \<le> t"
  shows "snd (process_correlation gen k' t corr ev (fst (process_correlation gen k now corr ev c))) = []"
proof (cases "triggers corr ev")
  case True
  then show ?thesis
    using live_matches_drained [OF True assms, of corr] min_count_pos [of corr]
    by (simp add: process_correlation_fires)
next
  case False
  then show ?thesis by (simp add: process_correlation_fires)
qed

text \<open>Of two correlations over the same pair of event types where the second is at least as
  selective, only the first can ever fire: it drains what the second would need, whether or not
  it reaches its own minimum count.\<close>

theorem later_correlation_starves:
  assumes "co_Sequence corr' = co_Sequence corr"
    and "set (co_SameFields corr) \<subseteq> set (co_SameFields corr')" and "now \<le> t"
  shows "snd (process_correlation gen k' t corr' ev (fst (process_correlation gen k now corr ev c))) = []"
proof (cases "triggers corr ev")
  case True
  then show ?thesis
    using live_matches_drained [OF True assms(3) assms(2)] assms(1) min_count_pos [of corr']
    by (simp add: process_correlation_fires)
next
  case False
  then have "\<not> triggers corr' ev" using assms(1) by (simp add: triggers_def)
  then show ?thesis by (simp add: process_correlation_fires)
qed

section \<open>Invariant\<close>

definition corr_ok :: "time \<Rightarrow> Correlator \<Rightarrow> bool" where
  "corr_ok now c \<longleftrightarrow> distinct (map fst (cr_windows c)) \<and>
     (\<forall>t w. map_of (cr_windows c) t = Some w \<longrightarrow>
        window_ok t (effective_ttl c t) now w \<and> ew_maxSize w = cc_MaxWindowSize (cr_cfg c))"

lemma corr_ok_mono: "corr_ok now c \<Longrightarrow> now \<le> now' \<Longrightarrow> corr_ok now' c"
  unfolding corr_ok_def by (blast intro: window_ok_mono)

lemma corr_okD:
  "corr_ok now c \<Longrightarrow> map_of (cr_windows c) t = Some w \<Longrightarrow>
   window_ok t (effective_ttl c t) now w \<and> ew_maxSize w = cc_MaxWindowSize (cr_cfg c)"
  unfolding corr_ok_def by blast

lemma corr_ok_set_window:
  assumes "corr_ok now c" "map_of (cr_windows c) t = Some w"
    and "window_ok t (effective_ttl c t) now w'" "ew_maxSize w' = ew_maxSize w"
  shows "corr_ok now (set_window t w' c)"
  using assms set_window_keys [of c t w'] by (auto simp: corr_ok_def)

lemma corr_ok_New [inv_intros]: "corr_ok now (NewCorrelator cs cfg onDrop)"
proof -
  have f: "fresh_windows cfg onDrop (NewCorrelator cs cfg onDrop)" using NewCorrelator_windows by blast
  have "window_ok t ttl now \<lparr>ew_entries = [], ew_maxSize = m, ew_onDrop = b\<rparr>" for t ttl m b
    by (simp add: window_ok_def Size_def)
  then show ?thesis using f by (auto simp: corr_ok_def fresh_windows_def dest!: map_of_SomeD)
qed

lemma corr_ok_process_correlation [inv_intros]:
  "corr_ok now c \<Longrightarrow> corr_ok now (fst (process_correlation gen k t corr ev c))"
  by (simp add: process_correlation_eq split: option.split)
    (blast intro: corr_ok_set_window window_ok_Take Take_entries(2) dest: corr_okD)

lemma corr_ok_prune_window [inv_intros]: "corr_ok now c \<Longrightarrow> corr_ok now (prune_window ty t c)"
  by (simp add: prune_window_eq split: option.split)
    (blast intro: corr_ok_set_window window_ok_Prune Prune_entries(2) dest: corr_okD)

lemma corr_ok_record_event [inv_intros]:
  assumes "corr_ok now c" "now \<le> t"
  shows "corr_ok t (fst (record_event t ev c))"
proof (cases "map_of (cr_windows c) (EventTy ev)")
  case None
  then show ?thesis using assms corr_ok_mono by (simp add: record_event_eq)
next
  case (Some w)
  have ok: "corr_ok t c" using assms corr_ok_mono by blast
  have "corr_ok t (set_window (EventTy ev) (fst (Add w ev (effective_ttl c (EventTy ev)) t)) c)"
    using corr_okD [OF ok Some]
    by (intro corr_ok_set_window [OF ok Some] window_ok_Add) (auto simp: Add_entries)
  then show ?thesis using Some by (simp add: record_event_eq)
qed

lemma process_correlations_inv:
  assumes "\<And>gen k t corr c. P c \<Longrightarrow> P (fst (process_correlation gen k t corr ev c))" "P c"
  shows "P (fst (process_correlations gen clk j k cs ev c))"
  using assms(2)
proof (induction cs arbitrary: j k c)
  case Nil
  then show ?case by simp
next
  case (Cons corr cs)
  then show ?case using assms(1) [OF Cons.prems, of gen k "clk j" corr]
    by (auto simp: Let_def split: prod.splits) (metis fst_conv)
qed

lemma Process_state:
  "fst (Process gen k clk ev c) =
     fst (record_event (clk (length (cr_correlations c))) ev
       (fst (process_correlations gen clk 0 k (cr_correlations c) ev c)))"
  by (simp add: Process_def Let_def split_def)

lemma corr_ok_Process [inv_intros]:
  assumes "corr_ok now c" "now \<le> clk (length (cr_correlations c))"
  shows "corr_ok (clk (length (cr_correlations c))) (fst (Process gen k clk ev c))"
proof -
  have "corr_ok now (fst (process_correlations gen clk 0 k (cr_correlations c) ev c))"
    using assms(1) by (intro process_correlations_inv [where P = "corr_ok now"] corr_ok_process_correlation)
  from corr_ok_record_event [OF this assms(2)] show ?thesis unfolding Process_state .
qed

lemma sum_sizes_le:
  assumes "0 < b" "\<forall>(t, w)\<in>set ws. Size w \<le> b" "is_i64 (n + int (length ws) * b)" "0 \<le> n"
  shows "n \<le> sum_sizes n ws \<and> sum_sizes n ws \<le> n + int (length ws) * b"
  using assms
proof (induction n ws rule: sum_sizes.induct)
  case (1 n)
  then show ?case by simp
next
  case (2 n t w ws)
  have sz: "0 \<le> Size w" "Size w \<le> b" using 2(3) by (auto simp: Size_def)
  have pos: "0 \<le> int (length ws) * b" using 2(2) by simp
  have "n + Size w \<le> n + int (length ((t, w) # ws)) * b"
    using pos sz unfolding list.size of_nat_add of_nat_1 distrib_right by (simp only: mult_1)
  then have i: "is_i64 (n + Size w)" using 2 sz by (simp add: is_i64_def)
  have le: "n + Size w + int (length ws) * b \<le> n + int (length ((t, w) # ws)) * b"
    using sz by (simp add: distrib_right)
  then have "is_i64 (n + Size w + int (length ws) * b)"
    using 2(4,5) sz pos unfolding is_i64_def by linarith
  then show ?case using 2 sz i le by (simp add: i64_id algebra_simps)
qed

text \<open>However events and prunes have been interleaved before, the number of entries the
  correlator holds is between zero and the window cap times the number of event types (the gauge
  that \<open>Run\<close> records cannot overflow either), for any state that keeps the invariant.\<close>

lemma OpenEntries_bounds:
  assumes "corr_ok now c" "0 < cc_MaxWindowSize (cr_cfg c)"
    and "is_i64 (int (length (cr_windows c)) * cc_MaxWindowSize (cr_cfg c))"
  shows "0 \<le> OpenEntries c \<and>
    OpenEntries c \<le> int (length (cr_windows c)) * cc_MaxWindowSize (cr_cfg c)"
proof -
  have "\<forall>(t, w)\<in>set (cr_windows c). Size w \<le> cc_MaxWindowSize (cr_cfg c)"
  proof clarify
    fix t w assume "(t, w) \<in> set (cr_windows c)"
    then have "map_of (cr_windows c) t = Some w" using assms(1) by (auto simp: corr_ok_def)
    then show "Size w \<le> cc_MaxWindowSize (cr_cfg c)"
      using corr_okD [OF assms(1), of t w] assms(2) unfolding window_ok_def by metis
  qed
  from sum_sizes_le [OF assms(2) this, of 0] show ?thesis
    using assms(3) by (simp add: OpenEntries_def)
qed

end
