(* ===== verification/Correlator_Runs.thy ===== *)
theory Correlator_Runs
  imports Correlator "HOL-Library.Multiset"
begin

text \<open>
  The engine goroutine and the pruner goroutine share the correlator's windows. Each access to a
  window is atomic (it holds the window's mutex), so an execution is a sequence of such accesses:
  the steps of \<open>Process\<close> for the event in hand, with prunes of single windows anywhere between
  them, at clock readings that never go back.
\<close>

section \<open>Steps\<close>

datatype access =
    Begin EnrichedEvent
  | MatchFirst time
  | RecordEvent EnrichedEvent time
  | PruneOne string time

record pstate =
  ps_corr :: Correlator
  ps_todo :: "(EnrichedEvent \<times> Correlation list) option"
  ps_signals :: "Signal list"
  ps_now :: time

inductive cstep :: "sig_source \<Rightarrow> pstate \<Rightarrow> access \<Rightarrow> pstate \<Rightarrow> bool" for gen where
  begin_event: "ps_todo s = None \<Longrightarrow>
     cstep gen s (Begin ev) (s\<lparr>ps_todo := Some (ev, cr_correlations (ps_corr s))\<rparr>)"
| match_first: "ps_todo s = Some (ev, corr # rest) \<Longrightarrow> ps_now s \<le> t \<Longrightarrow>
     process_correlation gen (length (ps_signals s)) t corr ev (ps_corr s) = (c', sigs) \<Longrightarrow>
     cstep gen s (MatchFirst t)
       (s\<lparr>ps_corr := c', ps_todo := Some (ev, rest), ps_signals := ps_signals s @ sigs, ps_now := t\<rparr>)"
| record_step: "ps_todo s = Some (ev, []) \<Longrightarrow> ps_now s \<le> t \<Longrightarrow>
     record_event t ev (ps_corr s) = (c', dropped) \<Longrightarrow>
     cstep gen s (RecordEvent ev t) (s\<lparr>ps_corr := c', ps_todo := None, ps_now := t\<rparr>)"
| prune_step: "ps_now s \<le> t \<Longrightarrow>
     cstep gen s (PruneOne ty t) (s\<lparr>ps_corr := prune_window ty t (ps_corr s), ps_now := t\<rparr>)"

code_pred (modes: i \<Rightarrow> i \<Rightarrow> i \<Rightarrow> o \<Rightarrow> bool) cstep .

inductive_cases BeginE: "cstep gen s (Begin ev) s'"
inductive_cases MatchE: "cstep gen s (MatchFirst t) s'"
inductive_cases RecordE: "cstep gen s (RecordEvent ev t) s'"
inductive_cases PruneE: "cstep gen s (PruneOne ty t) s'"

text \<open>Executions from \<open>s0\<close>, the labels in the order of the steps.\<close>

inductive csteps :: "sig_source \<Rightarrow> pstate \<Rightarrow> access list \<Rightarrow> pstate \<Rightarrow> bool" for gen s0 where
  none: "csteps gen s0 [] s0"
| snoc: "csteps gen s0 ls s \<Longrightarrow> cstep gen s l s' \<Longrightarrow> csteps gen s0 (ls @ [l]) s'"

inductive_simps csteps_snoc: "csteps gen s0 (ls @ [l]) s'"

definition start :: "time \<Rightarrow> Correlator \<Rightarrow> pstate" where
  "start now c = \<lparr>ps_corr = c, ps_todo = None, ps_signals = [], ps_now = now\<rparr>"

lemma csteps_append:
  "csteps gen s ls s' \<Longrightarrow> csteps gen s' ls' s'' \<Longrightarrow> csteps gen s (ls @ ls') s''"
  by (rotate_tac, induction rule: csteps.induct)
    (auto simp flip: append_assoc intro: csteps.snoc)

section \<open>\<open>Process\<close> is such an execution\<close>

fun match_labels :: "(nat \<Rightarrow> time) \<Rightarrow> nat \<Rightarrow> 'c list \<Rightarrow> access list" where
  "match_labels clk j [] = []"
| "match_labels clk j (c # cs) = MatchFirst (clk j) # match_labels clk (Suc j) cs"

definition process_labels :: "(nat \<Rightarrow> time) \<Rightarrow> EnrichedEvent \<Rightarrow> Correlator \<Rightarrow> access list" where
  "process_labels clk ev c =
     Begin ev # match_labels clk 0 (cr_correlations c) @
     [RecordEvent ev (clk (length (cr_correlations c)))]"

lemma csteps_single: "cstep gen s l s' \<Longrightarrow> csteps gen s [l] s'"
  using csteps.snoc [OF csteps.none, of gen s l s'] by simp

lemma match_steps:
  assumes "ps_todo s = Some (ev, cs)" "ps_now s \<le> clk j" "\<And>i. clk i \<le> clk (Suc i)"
    and "process_correlations gen clk j (length (ps_signals s)) cs ev (ps_corr s) = (c', sigs)"
  shows "\<exists>now. now \<le> clk (j + length cs) \<and>
    csteps gen s (match_labels clk j cs)
      (s\<lparr>ps_corr := c', ps_todo := Some (ev, []), ps_signals := ps_signals s @ sigs, ps_now := now\<rparr>)"
  using assms
proof (induction cs arbitrary: s j sigs)
  case Nil
  then show ?case by (intro exI [of _ "ps_now s"], cases s) (auto intro: csteps.none)
next
  case (Cons corr cs)
  obtain c1 sg where p: "process_correlation gen (length (ps_signals s)) (clk j) corr ev (ps_corr s) = (c1, sg)"
    by force
  obtain sg' where q: "process_correlations gen clk (Suc j) (length (ps_signals s) + length sg) cs ev c1 = (c', sg')"
    and sigs: "sigs = sg @ sg'" using Cons.prems(4) p by (auto split: prod.splits)
  let ?s1 = "s\<lparr>ps_corr := c1, ps_todo := Some (ev, cs), ps_signals := ps_signals s @ sg, ps_now := clk j\<rparr>"
  have one: "cstep gen s (MatchFirst (clk j)) ?s1"
    by (rule cstep.match_first [OF Cons.prems(1,2) p])
  obtain now where "now \<le> clk (Suc j + length cs)" and
    "csteps gen ?s1 (match_labels clk (Suc j) cs)
      (?s1\<lparr>ps_corr := c', ps_todo := Some (ev, []), ps_signals := ps_signals ?s1 @ sg', ps_now := now\<rparr>)"
    using Cons.IH [of ?s1 "Suc j" sg'] Cons.prems(3) q by auto
  with csteps_append [OF csteps_single [OF one]] show ?case
    by (intro exI [of _ now]) (auto simp: sigs)
qed

text \<open>A call of \<open>Process\<close> is the execution that no prune interrupts: from a state with no event in hand, for any clock
  that does not go back, its accesses lead to exactly the correlator and the signals that the call computes.\<close>

lemma process_steps:
  assumes "ps_todo s = None" "ps_now s \<le> clk 0" "\<And>i. clk i \<le> clk (Suc i)"
    and "Process gen (length (ps_signals s)) clk ev (ps_corr s) = (c', sigs, dropped)"
  shows "csteps gen s (process_labels clk ev (ps_corr s))
    (s\<lparr>ps_corr := c', ps_signals := ps_signals s @ sigs,
       ps_now := clk (length (cr_correlations (ps_corr s)))\<rparr>)"
proof -
  let ?cs = "cr_correlations (ps_corr s)"
  let ?n = "length ?cs"
  obtain c1 where p: "process_correlations gen clk 0 (length (ps_signals s)) ?cs ev (ps_corr s) = (c1, sigs)"
    and r: "record_event (clk ?n) ev c1 = (c', dropped)"
    using assms(4) by (auto simp: Process_def split: prod.splits)
  let ?s1 = "s\<lparr>ps_todo := Some (ev, ?cs)\<rparr>"
  have b: "cstep gen s (Begin ev) ?s1" by (rule cstep.begin_event [OF assms(1)])
  obtain now where now: "now \<le> clk ?n" and m: "csteps gen ?s1 (match_labels clk 0 ?cs)
      (?s1\<lparr>ps_corr := c1, ps_todo := Some (ev, []), ps_signals := ps_signals s @ sigs, ps_now := now\<rparr>)"
    (is "csteps _ _ _ ?s2")
    using match_steps [of ?s1 ev ?cs clk 0 gen c1 sigs] p assms(2,3) by auto
  have "cstep gen ?s2 (RecordEvent ev (clk ?n)) (?s2\<lparr>ps_corr := c', ps_todo := None, ps_now := clk ?n\<rparr>)"
    by (rule cstep.record_step) (use now r in simp_all)
  moreover have "?s2\<lparr>ps_corr := c', ps_todo := None, ps_now := clk ?n\<rparr> =
      s\<lparr>ps_corr := c', ps_signals := ps_signals s @ sigs, ps_now := clk ?n\<rparr>"
    using assms(1) by simp
  ultimately show ?thesis
    using csteps.snoc [OF csteps_append [OF csteps_single [OF b] m]]
    by (simp add: process_labels_def)
qed

section \<open>Reachable states\<close>

definition recorded :: "access list \<Rightarrow> (EnrichedEvent \<times> time) list" where
  "recorded ls = concat (map (\<lambda>l. case l of RecordEvent ev t \<Rightarrow> [(ev, t)] | _ \<Rightarrow> []) ls)"

lemma recorded_snoc:
  "recorded (ls @ [l]) = recorded ls @ (case l of RecordEvent ev t \<Rightarrow> [(ev, t)] | _ \<Rightarrow> [])"
  by (simp add: recorded_def)

text \<open>What no step changes.\<close>

definition same_static :: "Correlator \<Rightarrow> Correlator \<Rightarrow> bool" where
  "same_static c c' \<longleftrightarrow> cr_correlations c' = cr_correlations c \<and> cr_windowTTLs c' = cr_windowTTLs c \<and>
     cr_cfg c' = cr_cfg c \<and> map fst (cr_windows c') = map fst (cr_windows c)"

lemma same_static_refl [simp]: "same_static c c"
  by (simp add: same_static_def)

lemma same_static_trans: "same_static c c' \<Longrightarrow> same_static c' c'' \<Longrightarrow> same_static c c''"
  by (simp add: same_static_def)

lemma same_static_set_window [intro]:
  "map_of (cr_windows c) t = Some w \<Longrightarrow> same_static c (set_window t w' c)"
  by (simp add: same_static_def set_window_keys)

lemma same_static_ttl: "same_static c c' \<Longrightarrow> effective_ttl c' = effective_ttl c"
  by (intro ext) (simp add: same_static_def effective_ttl_def Let_def)

lemma static_ops:
  "same_static c (fst (process_correlation gen k t corr ev c))"
  "same_static c (prune_window ty t c)" "same_static c (fst (record_event t ev c))"
  by (auto simp: process_correlation_eq prune_window_eq record_event_eq split: option.split)

lemma cstep_static: "cstep gen s l s' \<Longrightarrow> same_static (ps_corr s) (ps_corr s') \<and> ps_now s \<le> ps_now s'"
  by (erule cstep.cases) (use static_ops in \<open>force simp: prod_eq_iff\<close>)+

lemma csteps_static:
  "csteps gen s ls s' \<Longrightarrow> same_static (ps_corr s) (ps_corr s') \<and> ps_now s \<le> ps_now s'"
  by (induction rule: csteps.induct) (auto dest!: cstep_static intro: same_static_trans)

lemma cstep_ok:
  assumes "cstep gen s l s'" "corr_ok (ps_now s) (ps_corr s)"
  shows "corr_ok (ps_now s') (ps_corr s')"
  using assms
proof (cases rule: cstep.cases)
  case (match_first ev corr rest t c' sigs)
  then show ?thesis
    using corr_ok_process_correlation [OF corr_ok_mono [OF assms(2), of t]] by (metis fst_conv pstate.select_convs(1,4) pstate.update_convs(1-4) pstate.surjective)
next
  case (record_step ev t c' dropped)
  then show ?thesis using corr_ok_record_event [OF assms(2), of t ev] by simp
next
  case (prune_step t ty)
  then show ?thesis using corr_ok_prune_window [OF corr_ok_mono [OF assms(2), of t]] by simp
qed auto

lemma csteps_ok:
  "csteps gen s ls s' \<Longrightarrow> corr_ok (ps_now s) (ps_corr s) \<Longrightarrow> corr_ok (ps_now s') (ps_corr s')"
  by (induction rule: csteps.induct) (auto dest: cstep_ok)

lemma start_simps [simp]:
  "ps_corr (start now c) = c" "ps_now (start now c) = now" "ps_signals (start now c) = []"
  "ps_todo (start now c) = None"
  by (simp_all add: start_def)

lemma reachable_windows_ok_aux:
  assumes "csteps gen (start now (NewCorrelator cs cfg onDrop)) ls s"
    and "map_of (cr_windows (ps_corr s)) t = Some w"
  shows "(\<forall>e\<in>set (ew_entries w). EventTy (we_event e) = t \<and>
            we_expiresAt e \<le> ps_now s + effective_ttl (NewCorrelator cs cfg onDrop) t) \<and>
    sorted (map we_expiresAt (ew_entries w)) \<and>
    (0 < cc_MaxWindowSize cfg \<longrightarrow> Size w \<le> cc_MaxWindowSize cfg)"
proof -
  let ?c = "NewCorrelator cs cfg onDrop"
  have ok: "corr_ok (ps_now s) (ps_corr s)" using csteps_ok [OF assms(1)] corr_ok_New by simp
  have st: "same_static ?c (ps_corr s)" using csteps_static [OF assms(1)] by simp
  have "cr_cfg ?c = cfg" using NewCorrelator_windows [of cfg onDrop cs] by (simp add: fresh_windows_def)
  then show ?thesis
    using corr_okD [OF ok assms(2)] same_static_ttl [OF st] st
    unfolding window_ok_def same_static_def by metis
qed

text \<open>In every state the two goroutines can reach, in any interleaving, the window of a type holds
  events of that type only, ordered by expiry, none outliving the type's time to live, and never
  more of them than the configured cap.\<close>

theorem reachable_windows_ok:
  assumes "csteps gen (start now (NewCorrelator cs cfg onDrop)) ls s"
    and "map_of (cr_windows (ps_corr s)) t = Some w"
  shows "(\<forall>e\<in>set (ew_entries w). EventTy (we_event e) = t \<and>
            we_expiresAt e \<le> ps_now s + effective_ttl (NewCorrelator cs cfg onDrop) t) \<and>
    sorted (map we_expiresAt (ew_entries w)) \<and>
    (0 < cc_MaxWindowSize cfg \<longrightarrow> Size w \<le> cc_MaxWindowSize cfg)"
  by (rule reachable_windows_ok_aux [OF assms])

section \<open>Every signal is justified\<close>

definition prov :: "access list \<Rightarrow> Correlator \<Rightarrow> bool" where
  "prov ls c \<longleftrightarrow> (\<forall>t w. map_of (cr_windows c) t = Some w \<longrightarrow>
     image_mset (\<lambda>e. (we_event e, we_expiresAt e - effective_ttl c t)) (mset (ew_entries w))
       \<subseteq># mset (recorded ls))"

lemma provD:
  "prov ls c \<Longrightarrow> map_of (cr_windows c) t = Some w \<Longrightarrow>
   image_mset (\<lambda>e. (we_event e, we_expiresAt e - effective_ttl c t)) (mset (ew_entries w))
     \<subseteq># mset (recorded ls)"
  by (simp add: prov_def)

lemma prov_set_window:
  assumes "prov ls c" "mset (recorded ls) \<subseteq># mset (recorded ls')"
    and "image_mset (\<lambda>e. (we_event e, we_expiresAt e - effective_ttl c t)) (mset (ew_entries w'))
       \<subseteq># mset (recorded ls')"
  shows "prov ls' (set_window t w' c)"
  using assms by (auto simp: prov_def intro: subset_mset.order_trans)

lemma prov_filter:
  assumes "prov ls c" "map_of (cr_windows c) t = Some w" "ew_entries w' = filter P (ew_entries w)"
  shows "prov ls (set_window t w' c)"
proof -
  let ?g = "\<lambda>e. (we_event e, we_expiresAt e - effective_ttl c t)"
  have "image_mset ?g (mset (ew_entries w')) \<subseteq># image_mset ?g (mset (ew_entries w))"
    using assms(3) by (intro image_mset_subseteq_mono) simp
  also have "\<dots> \<subseteq># mset (recorded ls)" by (rule provD [OF assms(1,2)])
  finally show ?thesis by (intro prov_set_window [OF assms(1)]) simp_all
qed

lemma prov_weaken: "prov ls c \<Longrightarrow> mset (recorded ls) \<subseteq># mset (recorded ls') \<Longrightarrow> prov ls' c"
  unfolding prov_def using subset_mset.order_trans by blast

lemma prov_process_correlation:
  "prov ls c \<Longrightarrow> prov ls (fst (process_correlation gen k t corr ev c))"
  by (auto simp: process_correlation_eq Take_entries live_def filter_filter split: option.split
      intro!: prov_filter)

lemma prov_prune_window: "prov ls c \<Longrightarrow> prov ls (prune_window ty t c)"
  by (auto simp: prune_window_eq split: option.split intro!: prov_filter)

lemma mset_last_n: "mset (last_n n xs) \<subseteq># mset xs"
  by (metis append_take_drop_id last_n_def mset_append mset_subset_eq_add_right)

lemma prov_record_event:
  assumes "prov ls c"
  shows "prov (ls @ [RecordEvent ev t]) (fst (record_event t ev c))"
proof (cases "map_of (cr_windows c) (EventTy ev)")
  case None
  then show ?thesis using prov_weaken [OF assms, of "ls @ [RecordEvent ev t]"]
    by (simp add: record_event_eq recorded_snoc)
next
  case (Some w)
  let ?d = "effective_ttl c (EventTy ev)"
  let ?g = "\<lambda>e. (we_event e, we_expiresAt e - ?d)"
  let ?new = "\<lparr>we_event = ev, we_expiresAt = t + ?d\<rparr>"
  have "mset (cap w (ew_entries w @ [?new])) \<subseteq># mset (ew_entries w @ [?new])"
    by (simp add: cap_def mset_last_n del: mset_append)
  then have "image_mset ?g (mset (cap w (ew_entries w @ [?new]))) \<subseteq>#
      image_mset ?g (mset (ew_entries w @ [?new]))" by (rule image_mset_subseteq_mono)
  also have "\<dots> = add_mset (ev, t) (image_mset ?g (mset (ew_entries w)))" by simp
  also have "\<dots> \<subseteq># add_mset (ev, t) (mset (recorded ls))" using provD [OF assms Some] by simp
  also have "\<dots> = mset (recorded (ls @ [RecordEvent ev t]))" by (simp add: recorded_snoc)
  finally show ?thesis using Some
    by (auto simp: record_event_eq Add_entries recorded_snoc intro!: prov_set_window [OF assms])
qed

lemma prov_other:
  "prov ls c \<Longrightarrow> recorded [l] = [] \<Longrightarrow> prov (ls @ [l]) c"
  by (simp add: prov_def recorded_def)

lemma csteps_prov:
  assumes "csteps gen (start now (NewCorrelator cs cfg onDrop)) ls s"
  shows "prov ls (ps_corr s)"
  using assms
proof (induction rule: csteps.induct)
  case none
  have "ew_entries w = []" if "map_of (cr_windows (NewCorrelator cs cfg onDrop)) t = Some w" for t w
    using NewCorrelator_windows [of cfg onDrop cs] that
    by (auto simp: fresh_windows_def dest!: map_of_SomeD)
  then show ?case by (simp add: prov_def)
next
  case (snoc ls s l s')
  from snoc.hyps(2) snoc.IH show ?case
  proof (cases rule: cstep.cases)
    case (match_first ev corr rest t c' sigs)
    then show ?thesis
      using prov_process_correlation [OF snoc.IH, of gen "length (ps_signals s)" t corr ev]
      by (simp add: prov_other recorded_def)
  next
    case (record_step ev t c' dropped)
    then show ?thesis using prov_record_event [OF snoc.IH, of ev t] by simp
  next
    case (prune_step t ty)
    then show ?thesis using prov_prune_window [OF snoc.IH, of ty t] by (simp add: prov_other recorded_def)
  qed (simp add: prov_other recorded_def)
qed

lemma fired_from_recorded:
  assumes run: "csteps gen (start now (NewCorrelator cs cfg onDrop)) ls s"
    and fires: "snd (process_correlation gen' k t corr ev (ps_corr s)) \<noteq> []"
  shows "\<exists>M. M \<subseteq># mset (recorded ls) \<and> min_count corr \<le> int (size M) \<and>
    (\<forall>(e, r)\<in>#M. EventTy e = co_Sequence corr ! 0 \<and> fieldsMatch (co_SameFields corr) e ev \<and>
       t - r \<le> effective_ttl (NewCorrelator cs cfg onDrop) (co_Sequence corr ! 0))"
proof -
  let ?c = "ps_corr s" and ?t = "co_Sequence corr ! 0"
  have n: "min_count corr \<le> int (length (live_matches corr ev t ?c))"
    using fires by (simp add: process_correlation_fires split: if_splits)
  then obtain w where w: "map_of (cr_windows ?c) ?t = Some w"
    using min_count_pos [of corr] by (auto simp: live_matches_def split: option.splits)
  have ttl: "effective_ttl ?c = effective_ttl (NewCorrelator cs cfg onDrop)"
    using same_static_ttl csteps_static [OF run] by force
  let ?g = "\<lambda>e. (we_event e, we_expiresAt e - effective_ttl ?c ?t)"
  let ?P = "\<lambda>e. t \<le> we_expiresAt e \<and> fieldsMatch (co_SameFields corr) (we_event e) ev"
  let ?M = "image_mset ?g (filter_mset ?P (mset (ew_entries w)))"
  have "image_mset ?g (filter_mset ?P (mset (ew_entries w))) \<subseteq># image_mset ?g (mset (ew_entries w))"
    by (intro image_mset_subseteq_mono multiset_filter_subset)
  then have "?M \<subseteq># mset (recorded ls)"
    using provD [OF csteps_prov [OF run] w] subset_mset.order_trans by blast
  moreover have "min_count corr \<le> int (size ?M)"
    using n w by (simp add: live_matches_def live_def conj_commute flip: mset_filter)
  moreover have "EventTy (we_event e) = ?t" if "e \<in> set (ew_entries w)" for e
    using reachable_windows_ok_aux [OF run w] that by blast
  ultimately show ?thesis by (intro exI [of _ ?M]) (auto simp: ttl)
qed

text \<open>C1. Soundness of correlation: whenever a correlation fires, at least \<open>MinFirstCount\<close> separate
  events of its first type were recorded before, each agreeing with the trigger on every one of
  \<open>SameFields\<close> and each recorded no longer ago than the type's time to live.\<close>

theorem fired_signal_is_justified:
  assumes run: "csteps gen (start now (NewCorrelator cs cfg onDrop)) ls s"
    and fires: "snd (process_correlation gen' k t corr ev (ps_corr s)) \<noteq> []"
  shows "\<exists>M. M \<subseteq># mset (recorded ls) \<and> min_count corr \<le> int (size M) \<and>
    (\<forall>(e, r)\<in>#M. EventTy e = co_Sequence corr ! 0 \<and> fieldsMatch (co_SameFields corr) e ev \<and>
       t - r \<le> effective_ttl (NewCorrelator cs cfg onDrop) (co_Sequence corr ! 0))"
  by (rule fired_from_recorded [OF run fires])

section \<open>The pruner is invisible\<close>

fun is_prune :: "access \<Rightarrow> bool" where
  "is_prune (PruneOne ty t) = True"
| "is_prune _ = False"

fun after_prunes :: "time list \<Rightarrow> access \<Rightarrow> bool" where
  "after_prunes ps (MatchFirst t) = (\<forall>p\<in>set ps. p < t)"
| "after_prunes ps (RecordEvent ev t) = (\<forall>p\<in>set ps. p < t)"
| "after_prunes ps _ = True"

fun prune_times :: "access list \<Rightarrow> time list" where
  "prune_times [] = []"
| "prune_times (PruneOne ty t # ls) = t # prune_times ls"
| "prune_times (_ # ls) = prune_times ls"

text \<open>No access of the engine reads the very instant that an earlier prune read.\<close>

fun separated_from :: "time list \<Rightarrow> access list \<Rightarrow> bool" where
  "separated_from ps [] = True"
| "separated_from ps (l # ls) = (after_prunes ps l \<and> separated_from (ps @ prune_times [l]) ls)"

lemma prune_times_append [simp]: "prune_times (ls @ ls') = prune_times ls @ prune_times ls'"
  by (induction ls rule: prune_times.induct) auto

lemma separated_snoc:
  "separated_from ps (ls @ [l]) \<longleftrightarrow> separated_from ps ls \<and> after_prunes (ps @ prune_times ls) l"
proof (induction ls arbitrary: ps)
  case Nil
  then show ?case by simp
next
  case (Cons a ls)
  have "prune_times [a] @ prune_times ls = prune_times (a # ls)"
    using prune_times_append [of "[a]" ls] by simp
  then show ?case by (simp add: Cons)
qed

definition csim :: "time \<Rightarrow> Correlator \<Rightarrow> Correlator \<Rightarrow> bool" where
  "csim T c c' \<longleftrightarrow> same_static c c' \<and>
     (\<forall>t. rel_option (same_live live ew_maxSize T) (map_of (cr_windows c) t) (map_of (cr_windows c') t))"

lemma csimD:
  "csim T c c' \<Longrightarrow> map_of (cr_windows c) t = Some w \<Longrightarrow>
   \<exists>w'. map_of (cr_windows c') t = Some w' \<and> same_live live ew_maxSize T w w'"
  unfolding csim_def by (metis option_rel_Some1)

lemma csim_None: "csim T c c' \<Longrightarrow> map_of (cr_windows c) t = None \<longleftrightarrow> map_of (cr_windows c') t = None"
  unfolding csim_def by (metis rel_option_None1 rel_option_None2)

lemma csim_mono: "csim T c c' \<Longrightarrow> T \<le> T' \<Longrightarrow> csim T' c c'"
  unfolding csim_def by (metis (no_types, lifting) option.rel_mono_strong window.same_mono)

lemma csim_refl: "csim T c c"
  by (simp add: csim_def window.same_refl option.rel_refl)

lemma csim_set_window:
  assumes "csim T c c'" "map_of (cr_windows c) t = Some w1" "map_of (cr_windows c') t = Some w2"
    and "same_live live ew_maxSize T w w'"
  shows "csim T (set_window t w c) (set_window t w' c')"
proof -
  have "same_static (set_window t w c) (set_window t w' c')"
    using assms(1) set_window_keys [of c t w] set_window_keys [of c' t w'] assms(2,3)
    by (simp add: csim_def same_static_def)
  then show ?thesis using assms(1,4) by (simp add: csim_def)
qed

lemma csim_process_correlation:
  assumes "csim now c c'"
  shows "snd (process_correlation gen k now corr ev c) = snd (process_correlation gen k now corr ev c')
    \<and> csim now (fst (process_correlation gen k now corr ev c))
        (fst (process_correlation gen k now corr ev c'))"
proof (cases "map_of (cr_windows c) (co_Sequence corr ! 0)")
  case None
  then show ?thesis using assms csim_None [OF assms, of "co_Sequence corr ! 0"]
    by (simp add: process_correlation_eq)
next
  case (Some w)
  obtain w' where w': "map_of (cr_windows c') (co_Sequence corr ! 0) = Some w'"
    and s: "same_live live ew_maxSize now w w'" using csimD [OF assms Some] by blast
  have "snd (TakeMatchingEntries (co_SameFields corr) ev now w) =
      snd (TakeMatchingEntries (co_SameFields corr) ev now w')"
    using window.same_take_out [OF s, of "(co_SameFields corr, ev)"] by simp
  moreover have "same_live live ew_maxSize now (fst (TakeMatchingEntries (co_SameFields corr) ev now w))
      (fst (TakeMatchingEntries (co_SameFields corr) ev now w'))"
    using window.same_take [OF s, of "(co_SameFields corr, ev)"] by simp
  ultimately show ?thesis
    using assms Some w' csim_set_window [OF assms Some w'] by (simp add: process_correlation_eq)
qed

lemma csim_record_event:
  assumes "csim now c c'" "corr_ok now c" "corr_ok now c'"
  shows "csim now (fst (record_event now ev c)) (fst (record_event now ev c'))"
proof (cases "map_of (cr_windows c) (EventTy ev)")
  case None
  then show ?thesis using assms csim_None [OF assms(1), of "EventTy ev"] by (simp add: record_event_eq)
next
  case (Some w)
  obtain w' where w': "map_of (cr_windows c') (EventTy ev) = Some w'"
    and s: "same_live live ew_maxSize now w w'" using csimD [OF assms(1) Some] by blast
  have ttl: "effective_ttl c' = effective_ttl c"
    using assms(1) same_static_ttl by (simp add: csim_def)
  have "same_live live ew_maxSize now (fst (Add w ev (effective_ttl c (EventTy ev)) now))
      (fst (Add w' ev (effective_ttl c (EventTy ev)) now))"
    using corr_okD [OF assms(2) Some] corr_okD [OF assms(3) w'] ttl
    by (intro window.same_add [where ty = "EventTy ev", OF s]) simp_all
  then show ?thesis
    using Some w' csim_set_window [OF assms(1) Some w'] ttl by (simp add: record_event_eq)
qed

lemma csim_prune:
  assumes "csim T c c'" "p < T"
  shows "csim T (prune_window ty p c) c'"
proof (cases "map_of (cr_windows c) ty")
  case None
  then show ?thesis using assms by (simp add: prune_window_eq)
next
  case (Some w)
  obtain w' where w': "map_of (cr_windows c') ty = Some w'"
    and s: "same_live live ew_maxSize T w w'" using csimD [OF assms(1) Some] by blast
  have "same_live live ew_maxSize T (Prune p w) w'"
    using window.same_trans [OF window.same_prune [OF assms(2)] s] .
  then show ?thesis
    using assms(1) Some w' set_window_keys [of c ty "Prune p w"]
    by (auto simp: prune_window_eq csim_def same_static_def)
qed

lemma prunes_removed:
  assumes "csteps gen s0 ls s" "corr_ok (ps_now s0) (ps_corr s0)" "separated_from [] ls"
  shows "\<exists>s'. csteps gen s0 (filter (\<lambda>l. \<not> is_prune l) ls) s' \<and> ps_signals s' = ps_signals s \<and>
    ps_todo s' = ps_todo s \<and> ps_now s' \<le> ps_now s \<and>
    (\<forall>T \<ge> ps_now s. (\<forall>p\<in>set (prune_times ls). p < T) \<longrightarrow> csim T (ps_corr s) (ps_corr s'))"
  using assms
proof (induction rule: csteps.induct)
  case none
  then show ?case by (intro exI [of _ s0]) (auto intro: csteps.none csim_refl)
next
  case (snoc ls s l s1)
  have sep: "separated_from [] ls" "after_prunes (prune_times ls) l"
    using snoc.prems(2) by (simp_all add: separated_snoc)
  obtain s' where s': "csteps gen s0 (filter (\<lambda>l. \<not> is_prune l) ls) s'"
    and eq: "ps_signals s' = ps_signals s" "ps_todo s' = ps_todo s" "ps_now s' \<le> ps_now s"
    and sim: "\<And>T. ps_now s \<le> T \<Longrightarrow> (\<forall>p\<in>set (prune_times ls). p < T) \<Longrightarrow>
       csim T (ps_corr s) (ps_corr s')"
    using snoc.IH [OF snoc.prems(1) sep(1)] by blast
  have ok: "corr_ok (ps_now s) (ps_corr s)" "corr_ok (ps_now s') (ps_corr s')"
    using csteps_ok snoc.hyps(1) s' snoc.prems(1) by blast+
  from snoc.hyps(2) show ?case
  proof (cases rule: cstep.cases)
    case (begin_event ev)
    let ?s2 = "s'\<lparr>ps_todo := Some (ev, cr_correlations (ps_corr s'))\<rparr>"
    have "cr_correlations (ps_corr s') = cr_correlations (ps_corr s)"
      using csteps_static [OF snoc.hyps(1)] csteps_static [OF s'] by (simp add: same_static_def)
    moreover have "cstep gen s' (Begin ev) ?s2" by (rule cstep.begin_event) (simp add: eq begin_event)
    ultimately show ?thesis
      using csteps.snoc [OF s'] eq sim begin_event by (intro exI [of _ ?s2]) auto
  next
    case (match_first ev corr rest t c' sigs)
    let ?p = "process_correlation gen (length (ps_signals s)) t corr ev"
    have sim': "csim t (ps_corr s) (ps_corr s')" using sim match_first sep(2) by simp
    let ?s2 = "s'\<lparr>ps_corr := fst (?p (ps_corr s')), ps_todo := Some (ev, rest),
       ps_signals := ps_signals s' @ snd (?p (ps_corr s')), ps_now := t\<rparr>"
    have "cstep gen s' (MatchFirst t) ?s2"
      by (rule cstep.match_first [where corr = corr]) (use match_first eq in simp_all)
    then show ?thesis
      using csteps.snoc [OF s'] csim_process_correlation [OF sim', of gen "length (ps_signals s)" corr ev]
        match_first eq by (intro exI [of _ ?s2]) (auto intro: csim_mono)
  next
    case (record_step ev t c' dropped)
    have sim': "csim t (ps_corr s) (ps_corr s')" using sim record_step sep(2) by simp
    let ?r = "record_event t ev (ps_corr s')"
    let ?s2 = "s'\<lparr>ps_corr := fst ?r, ps_todo := None, ps_now := t\<rparr>"
    have "cstep gen s' (RecordEvent ev t) ?s2"
      by (rule cstep.record_step [where dropped = "snd ?r"]) (use record_step eq in simp_all)
    moreover have "csim t c' (fst ?r)"
      using csim_record_event [OF sim' corr_ok_mono [OF ok(1)] corr_ok_mono [OF ok(2)], of ev]
        record_step eq(3) by simp
    ultimately show ?thesis
      using csteps.snoc [OF s'] record_step eq by (intro exI [of _ ?s2]) (auto intro: csim_mono)
  next
    case (prune_step t ty)
    then show ?thesis using s' eq sim by (intro exI [of _ s']) (auto intro: csim_prune)
  qed
qed

text \<open>C33. The pruner changes nothing that can be observed: an execution in which windows are pruned
  at any points emits exactly the signals of the same execution without the prunes, provided no
  access of the engine reads the very instant an earlier prune read (at that one instant an entry
  that expires is still matched by \<open>TakeMatchingEntries\<close> and already removed by \<open>Prune\<close>).\<close>

theorem pruning_is_invisible:
  assumes "csteps gen (start now (NewCorrelator cs cfg onDrop)) ls s" "separated_from [] ls"
  shows "\<exists>s'. csteps gen (start now (NewCorrelator cs cfg onDrop)) (filter (\<lambda>l. \<not> is_prune l) ls) s' \<and>
    ps_signals s' = ps_signals s \<and> ps_todo s' = ps_todo s"
  using prunes_removed [OF assms(1) _ assms(2)] corr_ok_New by auto

section \<open>A concrete execution\<close>

definition demo_correlation :: "string \<Rightarrow> string \<Rightarrow> int \<Rightarrow> Correlation" where
  "demo_correlation name win n =
     \<lparr>co_Name = name, co_Sequence = [EventTokenApproval, EventBridgeDeposit], co_Window = win,
      co_SameFields = [''source_address''], co_Signal = ''approve_then_bridge'',
      co_Confidence = f64_of_int 1, co_MinFirstCount = n, co_windowDuration = 0\<rparr>"

definition demo_cfg :: CorrelatorConfig where
  "demo_cfg = \<lparr>cc_DefaultWindowTTL = 5 * Minute, cc_PruneInterval = Minute, cc_MaxWindowSize = 2\<rparr>"

definition demo_gen :: sig_source where
  "demo_gen k = (''id'', 1700000000)"

definition demo_corr :: Correlator where
  "demo_corr = NewCorrelator [demo_correlation ''c'' ''5m'' 1] demo_cfg True"

definition demo_approval :: EnrichedEvent where
  "demo_approval = demo_event EventTokenApproval ''0x1'' None"

definition demo_deposit :: EnrichedEvent where
  "demo_deposit = demo_event EventBridgeDeposit ''0x1'' None"

lemma demo_parse: "ParseDuration ''5m'' = Some 300000000000" "ParseDuration ''1m'' = Some 60000000000"
    "ParseDuration ''1h'' = Some 3600000000000"
  by code_simp+

definition demo_window :: "windowEntry list \<Rightarrow> EventWindow" where
  "demo_window es = \<lparr>ew_entries = es, ew_maxSize = 2, ew_onDrop = True\<rparr>"

definition demo_state :: "windowEntry list \<Rightarrow> windowEntry list \<Rightarrow> Correlator" where
  "demo_state as ds =
     \<lparr>cr_correlations = [demo_correlation ''c'' ''5m'' 1\<lparr>co_windowDuration := 300000000000\<rparr>],
      cr_windows = [(EventTokenApproval, demo_window as), (EventBridgeDeposit, demo_window ds)],
      cr_windowTTLs = [EventTokenApproval \<mapsto> 300000000000, EventBridgeDeposit \<mapsto> 300000000000],
      cr_cfg = demo_cfg\<rparr>"

lemma demo_corr_eq: "demo_corr = demo_state [] []"
  by (simp add: demo_corr_def demo_state_def NewCorrelator_def demo_correlation_def demo_parse
      ttl_get_def event_types demo_window_def demo_cfg_def fun_upd_twist Let_def)

text \<open>One approval is too few for a correlation that wants two: nothing fires, and the approval is consumed.\<close>

lemma correlation_fires_iff_witness:
  "case process_correlation demo_gen 0 60 (demo_correlation ''c'' ''5m'' 2) demo_deposit
       (demo_state [\<lparr>we_event = demo_approval, we_expiresAt = 300\<rparr>] []) of (c', sigs) \<Rightarrow>
     sigs = [] \<and> map_of (cr_windows c') EventTokenApproval = Some (demo_window [])"
proof -
  let ?c = "demo_state [\<lparr>we_event = demo_approval, we_expiresAt = 300\<rparr>] []" and ?corr = "demo_correlation ''c'' ''5m'' 2"
  obtain c' sigs where p: "process_correlation demo_gen 0 60 ?corr demo_deposit ?c = (c', sigs)" by force
  have t: "triggers ?corr demo_deposit" "co_Sequence ?corr ! 0 = EventTokenApproval" "min_count ?corr = 2"
    by (simp_all add: triggers_def min_count_def demo_correlation_def demo_deposit_def)
  have m: "fieldsMatch (co_SameFields ?corr) demo_approval demo_deposit"
    by (simp add: demo_correlation_def demo_approval_def demo_deposit_def getFieldValue_def)
  have l: "length (live_matches ?corr demo_deposit 60 ?c) = 1"
    using m by (simp add: live_matches_def live_def t(2) demo_state_def demo_window_def)
  show ?thesis
    using correlation_fires_iff [where gen = demo_gen and k = 0 and now = 60 and corr = ?corr and ev = demo_deposit and c = ?c] t m l
    by (simp add: p) (simp add: demo_state_def demo_window_def)
qed

definition demo_signal :: Signal where
  "demo_signal = correlation_signal demo_gen 0 (demo_correlation ''c'' ''5m'' 1) demo_deposit"

lemma demo_first:
  "Process demo_gen 0 (\<lambda>i. 0) demo_approval (demo_state [] []) =
     (demo_state [\<lparr>we_event = demo_approval, we_expiresAt = 300000000000\<rparr>] [], [], None)"
  by (simp add: Process_def demo_state_def demo_correlation_def process_correlation_def event_types
      demo_approval_def record_event_def ttl_get_def demo_window_def Add_def Let_def)

lemma demo_second:
  "Process demo_gen 0 (\<lambda>i. 60) demo_deposit
      (demo_state [\<lparr>we_event = demo_approval, we_expiresAt = 300000000000\<rparr>] []) =
     (demo_state [] [\<lparr>we_event = demo_deposit, we_expiresAt = 300000000060\<rparr>], [demo_signal], None)"
  by (simp add: Process_def demo_state_def demo_correlation_def process_correlation_def event_types
      demo_approval_def demo_deposit_def demo_signal_def correlation_signal_def getFieldValue_def
      record_event_def ttl_get_def demo_window_def Add_def TakeMatchingEntries_def Let_def)

definition demo_labels :: "access list" where
  "demo_labels =
     [Begin demo_approval, MatchFirst 0, RecordEvent demo_approval 0, PruneOne EventTokenApproval 30,
      Begin demo_deposit, MatchFirst 60, RecordEvent demo_deposit 60]"

definition demo_final :: pstate where
  "demo_final =
     \<lparr>ps_corr = demo_state [] [\<lparr>we_event = demo_deposit, we_expiresAt = 300000000060\<rparr>],
      ps_todo = None, ps_signals = [demo_signal], ps_now = 60\<rparr>"

lemma demo_run: "csteps demo_gen (start 0 demo_corr) demo_labels demo_final"
proof -
  let ?e = "\<lparr>we_event = demo_approval, we_expiresAt = 300000000000\<rparr>"
  let ?s1 = "\<lparr>ps_corr = demo_state [?e] [], ps_todo = None, ps_signals = [], ps_now = 0\<rparr>"
  let ?s2 = "?s1\<lparr>ps_now := 30\<rparr>"
  have corrs: "length (cr_correlations (demo_state as ds)) = Suc 0" for as ds
    by (simp add: demo_state_def)
  have labels: "process_labels (\<lambda>i. t) ev (demo_state as ds) = [Begin ev, MatchFirst t, RecordEvent ev t]"
    for t ev as ds by (simp add: process_labels_def demo_state_def)
  have 1: "csteps demo_gen (start 0 demo_corr) [Begin demo_approval, MatchFirst 0, RecordEvent demo_approval 0] ?s1"
    using process_steps [of "start 0 demo_corr" "\<lambda>i. 0" demo_gen demo_approval] demo_first
    by (simp add: demo_corr_eq labels) (simp add: start_def)
  have "prune_window EventTokenApproval 30 (demo_state [?e] []) = demo_state [?e] []"
    by (simp add: prune_window_def demo_state_def demo_window_def Prune_def)
  then have 2: "cstep demo_gen ?s1 (PruneOne EventTokenApproval 30) ?s2"
    using cstep.prune_step [of ?s1 30 demo_gen EventTokenApproval] by simp
  have 3: "csteps demo_gen ?s2 [Begin demo_deposit, MatchFirst 60, RecordEvent demo_deposit 60] demo_final"
    using process_steps [of ?s2 "\<lambda>i. 60" demo_gen demo_deposit] demo_second
    by (simp add: labels demo_final_def)
  show ?thesis
    using csteps_append [OF csteps.snoc [OF 1 2] 3] by (simp add: demo_labels_def)
qed

lemma demo_recorded: "recorded demo_labels = [(demo_approval, 0), (demo_deposit, 60)]"
  by (simp add: recorded_def demo_labels_def)

lemma reachable_windows_ok_witness:
  "Size (demo_window [\<lparr>we_event = demo_deposit, we_expiresAt = 300000000060\<rparr>]) \<le> 2"
proof -
  have "map_of (cr_windows (ps_corr demo_final)) EventBridgeDeposit =
      Some (demo_window [\<lparr>we_event = demo_deposit, we_expiresAt = 300000000060\<rparr>])"
    by (simp add: demo_final_def demo_state_def event_types)
  from reachable_windows_ok [OF demo_run [unfolded demo_corr_def] this] show ?thesis
    by (simp add: demo_cfg_def)
qed

lemma pruning_is_invisible_witness:
  "\<exists>s'. csteps demo_gen (start 0 demo_corr) (filter (\<lambda>l. \<not> is_prune l) demo_labels) s' \<and>
     ps_signals s' = [demo_signal]"
proof -
  have "separated_from [] demo_labels" by (simp add: demo_labels_def)
  from pruning_is_invisible [OF demo_run [unfolded demo_corr_def] this] show ?thesis
    by (auto simp: demo_corr_def demo_final_def)
qed

lemma demo_run1:
  "csteps demo_gen (start 0 demo_corr) [Begin demo_approval, MatchFirst 0, RecordEvent demo_approval 0]
     (start 0 (demo_state [\<lparr>we_event = demo_approval, we_expiresAt = 300000000000\<rparr>] []))"
proof -
  have "process_labels (\<lambda>i. 0) demo_approval (demo_state [] []) =
      [Begin demo_approval, MatchFirst 0, RecordEvent demo_approval 0]"
    by (simp add: process_labels_def demo_state_def)
  then show ?thesis
    using process_steps [of "start 0 demo_corr" "\<lambda>i. 0" demo_gen demo_approval] demo_first
    by (simp add: demo_corr_eq) (simp add: start_def)
qed

lemma fired_signal_is_justified_witness:
  "\<exists>M. M \<subseteq># mset [(demo_approval, 0)] \<and> 1 \<le> int (size M) \<and>
     (\<forall>(e, r)\<in>#M. 60 - r \<le> effective_ttl demo_corr EventTokenApproval)"
proof -
  let ?corr = "demo_correlation ''c'' ''5m'' 1"
  have fires: "snd (process_correlation demo_gen 0 60 ?corr demo_deposit
      (demo_state [\<lparr>we_event = demo_approval, we_expiresAt = 300000000000\<rparr>] [])) \<noteq> []"
    by (simp add: process_correlation_fires triggers_def live_matches_def demo_correlation_def
        demo_state_def demo_window_def live_def demo_approval_def demo_deposit_def min_count_def
        event_types getFieldValue_def)
  have ty: "co_Sequence ?corr ! 0 = EventTokenApproval" "min_count ?corr = 1"
    by (simp_all add: demo_correlation_def min_count_def)
  have r: "recorded [Begin demo_approval, MatchFirst 0, RecordEvent demo_approval 0] = [(demo_approval, 0)]"
    by (simp add: recorded_def)
  from fired_signal_is_justified [OF demo_run1 [unfolded demo_corr_def], simplified, OF fires]
  show ?thesis unfolding r ty demo_corr_def by fast
qed

lemma no_double_consumption_witness:
  "snd (process_correlation demo_gen 1 61 (demo_correlation ''c'' ''5m'' 2) demo_deposit
     (fst (process_correlation demo_gen 0 60 (demo_correlation ''c'' ''5m'' 2) demo_deposit
       (demo_state [\<lparr>we_event = demo_approval, we_expiresAt = 300000000000\<rparr>] [])))) = []"
  by (rule no_double_consumption) simp

lemma later_correlation_starves_witness:
  "snd (process_correlation demo_gen 0 60 (demo_correlation ''second'' ''5m'' 1) demo_deposit
     (fst (process_correlation demo_gen 0 60 (demo_correlation ''first'' ''5m'' 2) demo_deposit
       (demo_state [\<lparr>we_event = demo_approval, we_expiresAt = 300000000000\<rparr>] [])))) = []"
  by (rule later_correlation_starves) (simp_all add: demo_correlation_def)

section \<open>A correlation's own window\<close>

text \<open>A correlation fires on any event of its first type that is no older than the type's shared
  time to live, which is the longest window of all correlations over that type: the correlation's
  own \<open>window\<close> is not a bound on the age of what it matches.\<close>

theorem own_window_is_not_a_bound:
  assumes "corr \<in> set cs" "triggers corr ev" "co_MinFirstCount corr \<le> 1"
    and "EventTy e = co_Sequence corr ! 0" "fieldsMatch (co_SameFields corr) e ev"
    and "t \<le> r + effective_ttl (NewCorrelator cs cfg onDrop) (EventTy e)"
  shows "snd (process_correlation gen k t corr ev (fst (record_event r e (NewCorrelator cs cfg onDrop))))
    = [correlation_signal gen k corr ev]"
proof -
  let ?c = "NewCorrelator cs cfg onDrop"
  have "EventTy e \<in> set (co_Sequence corr)" using assms(2,4) by (simp add: triggers_def)
  then have "EventTy e \<in> fst ` set (cr_windows ?c)"
    using NewCorrelator_windows [of cfg onDrop cs, THEN conjunct2, THEN conjunct1] assms(1) by auto
  then obtain w where w: "map_of (cr_windows ?c) (EventTy e) = Some w"
    using map_of_eq_None_iff [of "cr_windows ?c" "EventTy e"] by (cases "map_of (cr_windows ?c) (EventTy e)") auto
  have "fresh_windows cfg onDrop ?c" using NewCorrelator_windows [of cfg onDrop cs] by (rule conjunct1)
  then have we: "ew_entries w = []"
    using map_of_SomeD [OF w] by (auto simp: fresh_windows_def)
  let ?e = "\<lparr>we_event = e, we_expiresAt = r + effective_ttl ?c (EventTy e)\<rparr>"
  have "ew_entries (fst (Add w e (effective_ttl ?c (EventTy e)) r)) = [?e]"
    by (simp add: Add_entries we cap_def last_n_def)
  then have "live_matches corr ev t (fst (record_event r e ?c)) = [?e]"
    using w assms(5,6) unfolding live_matches_def assms(4) [symmetric]
    by (simp add: record_event_eq live_def)
  moreover have "min_count corr = 1" using assms(3) by (simp add: min_count_def)
  ultimately show ?thesis using assms(2) by (simp add: process_correlation_fires)
qed

lemma own_window_is_not_a_bound_witness:
  "snd (process_correlation demo_gen 0 (30 * Minute) (demo_correlation ''short'' ''1m'' 1) demo_deposit
     (fst (record_event 0 demo_approval
       (NewCorrelator [demo_correlation ''short'' ''1m'' 1, demo_correlation ''long'' ''1h'' 3] demo_cfg True))))
   = [correlation_signal demo_gen 0 (demo_correlation ''short'' ''1m'' 1) demo_deposit]"
proof (rule own_window_is_not_a_bound)
  show "triggers (demo_correlation ''short'' ''1m'' 1) demo_deposit"
    by (simp add: triggers_def demo_correlation_def demo_deposit_def)
  show "fieldsMatch (co_SameFields (demo_correlation ''short'' ''1m'' 1)) demo_approval demo_deposit"
    by (simp add: demo_correlation_def demo_approval_def demo_deposit_def getFieldValue_def)
  have "effective_ttl (NewCorrelator
      [demo_correlation ''short'' ''1m'' 1, demo_correlation ''long'' ''1h'' 3] demo_cfg True)
      EventTokenApproval = 3600000000000" by code_simp
  then show "30 * Minute \<le> 0 + effective_ttl (NewCorrelator
      [demo_correlation ''short'' ''1m'' 1, demo_correlation ''long'' ''1h'' 3] demo_cfg True)
      (EventTy demo_approval)" by (simp add: demo_approval_def time_units)
qed (simp_all add: demo_correlation_def demo_approval_def)

end
