(* ===== verification/Engine_Run.thy ===== *)
theory Engine_Run
  imports Correlator_Runs Channels "HOL-Library.Sublist"
begin

text \<open>
  The engine stage (\<open>internal/engine/engine.go\<close>, from \<open>New\<close> and \<open>Run\<close> on): every enriched event is
  evaluated against the rules and then given to the correlator, whose state the stage threads from
  event to event. The pruner that \<open>Run\<close> starts beside the loop is in \<open>Correlator_Runs\<close>, where
  it is proved that leaving its steps out changes no signal.
\<close>

section \<open>The engine\<close>

record 'c Engine =
  eg_rules :: RulesConfig
  eg_correlator :: Correlator
  eg_tel :: "'c tel"

definition New :: "RulesConfig \<Rightarrow> CorrelatorConfig \<Rightarrow> 'c tel \<Rightarrow> 'c Engine" where
  "New rules cfg tel =
     \<lparr>eg_rules = rules, eg_correlator = NewCorrelator (rc_Correlations rules) cfg True, eg_tel = tel\<rparr>"

text \<open>
  What one round of the loop reads of the world: identifiers and times of the signals built by the
  rules and by the correlator, the instants at which the correlator reads the clock, and the
  instant at which each correlation signal is wrapped.
\<close>

record round_env =
  ro_rule_gen :: sig_source
  ro_corr_gen :: sig_source
  ro_clock :: "nat \<Rightarrow> time"
  ro_wrapped :: "nat \<Rightarrow> time"

definition evaluateWithSpan ::
  "'c Engine \<Rightarrow> round_env \<Rightarrow> (EnrichedEvent, 'c) Traced \<Rightarrow> (Signal, 'c) Traced list" where
  "evaluateWithSpan e ro traced =
     (let ctx = (if tl_Engine (eg_tel e) then tl_Start (eg_tel e) ''pipeline.engine.evaluate'' (tr_Ctx traced)
                 else tr_Ctx traced);
          signals = Evaluate (ro_rule_gen ro) 0 (eg_rules e) (tr_Value traced)
      in map (\<lambda>sig. \<lparr>tr_Value = sig, tr_Ctx = ctx, tr_StartedAt = tr_StartedAt traced\<rparr>) signals)"

definition wrapCorrelationSignal :: "'c tel \<Rightarrow> time \<Rightarrow> 'c \<Rightarrow> Signal \<Rightarrow> (Signal, 'c) Traced" where
  "wrapCorrelationSignal tel now parentCtx sig =
     (let ctx = (if tl_Engine tel then tl_Start tel ''pipeline.engine.correlate'' parentCtx else parentCtx)
      in NewTraced ctx sig now)"

definition correlateWithSpan ::
  "'c Engine \<Rightarrow> round_env \<Rightarrow> 'c \<Rightarrow> EnrichedEvent \<Rightarrow> 'c Engine \<times> (Signal, 'c) Traced list" where
  "correlateWithSpan e ro parentCtx event =
     (case Process (ro_corr_gen ro) 0 (ro_clock ro) event (eg_correlator e) of
        (c', signals, dropped) \<Rightarrow>
          (e\<lparr>eg_correlator := c'\<rparr>,
           map (\<lambda>(i, sig). wrapCorrelationSignal (eg_tel e) (ro_wrapped ro i) parentCtx sig)
             (enumerate 0 signals)))"

section \<open>The loop\<close>

text \<open>Sending a round's signals: \<open>k\<close> counts the sends so far; the result says whether all were sent.\<close>

fun send_signals :: "stage_env \<Rightarrow> nat \<Rightarrow> 'a list \<Rightarrow> 'a list \<times> bool" where
  "send_signals env k [] = ([], True)"
| "send_signals env k (sig # sigs) =
     (if se_send_aborted env k then ([], False)
      else (case send_signals env (Suc k) sigs of (sent, fin) \<Rightarrow> (sig # sent, fin)))"

text \<open>The state of the loop: the engine, the counters, what was sent, and whether it has returned.\<close>

record 'c engine_loop =
  lo_engine :: "'c Engine"
  lo_counts :: counters
  lo_out :: "(Signal, 'c) Traced list"
  lo_returned :: bool

definition send_round :: "stage_env \<Rightarrow> (Signal, 'c) Traced list \<Rightarrow> 'c engine_loop \<Rightarrow> 'c engine_loop" where
  "send_round env sigs s =
     (case send_signals env (length (lo_out s)) sigs of (sent, fin) \<Rightarrow>
        s\<lparr>lo_out := lo_out s @ sent,
          lo_counts := (lo_counts s)\<lparr>n_emitted := n_emitted (lo_counts s) + int (length sent)\<rparr>,
          lo_returned := \<not> fin\<rparr>)"

definition engine_event ::
  "stage_env \<Rightarrow> nat \<Rightarrow> round_env \<Rightarrow> (EnrichedEvent, 'c) Traced \<Rightarrow> 'c engine_loop \<Rightarrow> 'c engine_loop" where
  "engine_event env i ro traced s =
     (if se_cancelled env i then s\<lparr>lo_returned := True\<rparr>
      else (let s1 = s\<lparr>lo_counts := count_received (lo_counts s)\<rparr>;
                s2 = send_round env (evaluateWithSpan (lo_engine s1) ro traced) s1
            in if lo_returned s2 then s2
               else (let (e', sigs) = correlateWithSpan (lo_engine s2) ro (tr_Ctx traced) (tr_Value traced)
                     in send_round env sigs (s2\<lparr>lo_engine := e'\<rparr>))))"

fun engine_run ::
  "stage_env \<Rightarrow> nat \<Rightarrow> (round_env \<times> (EnrichedEvent, 'c) Traced) list \<Rightarrow> 'c engine_loop \<Rightarrow> 'c engine_loop" where
  "engine_run env i [] s = s"
| "engine_run env i ((ro, traced) # ins) s =
     (let s' = engine_event env i ro traced s
      in if lo_returned s' then s' else engine_run env (Suc i) ins s')"

definition Run ::
  "'c Engine \<Rightarrow> stage_env \<Rightarrow> (round_env \<times> (EnrichedEvent, 'c) Traced) list \<Rightarrow> 'c engine_loop" where
  "Run e env ins =
     engine_run env 0 ins \<lparr>lo_engine = e, lo_counts = no_counts, lo_out = [], lo_returned = False\<rparr>"

section \<open>What the stage sends\<close>

text \<open>The signals of one event and the engine after it, with nothing cancelled.\<close>

definition event_signals ::
  "'c Engine \<Rightarrow> round_env \<Rightarrow> (EnrichedEvent, 'c) Traced \<Rightarrow> 'c Engine \<times> (Signal, 'c) Traced list" where
  "event_signals e ro traced =
     (case correlateWithSpan e ro (tr_Ctx traced) (tr_Value traced) of
        (e', sigs) \<Rightarrow> (e', evaluateWithSpan e ro traced @ sigs))"

fun stage_signals ::
  "'c Engine \<Rightarrow> (round_env \<times> (EnrichedEvent, 'c) Traced) list \<Rightarrow> 'c Engine \<times> (Signal, 'c) Traced list" where
  "stage_signals e [] = (e, [])"
| "stage_signals e ((ro, traced) # ins) =
     (case event_signals e ro traced of
        (e', sigs) \<Rightarrow> (case stage_signals e' ins of (e'', rest) \<Rightarrow> (e'', sigs @ rest)))"

lemma send_signals_prefix:
  "send_signals env k xs = (sent, fin) \<Longrightarrow> prefix sent xs \<and> (fin \<longrightarrow> sent = xs)"
  by (induction env k xs arbitrary: sent fin rule: send_signals.induct) (auto split: if_splits prod.splits)

lemma send_signals_calm [simp]: "send_signals calm k xs = (xs, True)"
  by (induction xs arbitrary: k) simp_all

lemma send_round_cases:
  obtains (all) "send_round env sigs s = s\<lparr>lo_out := lo_out s @ sigs,
      lo_counts := (lo_counts s)\<lparr>n_emitted := n_emitted (lo_counts s) + int (length sigs)\<rparr>, lo_returned := False\<rparr>"
  | (some) sent where "prefix sent sigs" "send_round env sigs s = s\<lparr>lo_out := lo_out s @ sent,
      lo_counts := (lo_counts s)\<lparr>n_emitted := n_emitted (lo_counts s) + int (length sent)\<rparr>, lo_returned := True\<rparr>"
proof -
  obtain sent fin where r: "send_signals env (length (lo_out s)) sigs = (sent, fin)" by force
  show ?thesis
  proof (cases "fin")
    case True
    then show ?thesis using send_signals_prefix [OF r] r all by (simp add: send_round_def)
  next
    case False
    then show ?thesis using send_signals_prefix [OF r] r some [of sent] by (simp add: send_round_def)
  qed
qed

lemma engine_event_calm:
  assumes "\<not> lo_returned s"
  shows "engine_event calm i ro traced s =
    s\<lparr>lo_engine := fst (event_signals (lo_engine s) ro traced),
      lo_counts := \<lparr>n_received = n_received (lo_counts s) + 1, n_dropped = n_dropped (lo_counts s),
        n_emitted = n_emitted (lo_counts s) + int (length (snd (event_signals (lo_engine s) ro traced)))\<rparr>,
      lo_out := lo_out s @ snd (event_signals (lo_engine s) ro traced)\<rparr>"
  using assms by (simp add: engine_event_def send_round_def event_signals_def split_beta Let_def count_received_def)

lemma engine_run_calm:
  "\<not> lo_returned s \<Longrightarrow>
   lo_engine (engine_run calm i ins s) = fst (stage_signals (lo_engine s) ins) \<and>
   lo_out (engine_run calm i ins s) = lo_out s @ snd (stage_signals (lo_engine s) ins) \<and>
   n_received (lo_counts (engine_run calm i ins s)) = n_received (lo_counts s) + int (length ins)"
proof (induction ins arbitrary: i s)
  case (Cons x ins)
  obtain ro traced where x: "x = (ro, traced)" by force
  define s' where "s' = engine_event calm i ro traced s"
  note e = engine_event_calm [OF Cons.prems, of i ro traced, folded s'_def]
  have "\<not> lo_returned s'" using Cons.prems by (simp add: e)
  moreover from this Cons.IH [OF this, of "Suc i"] show ?case
    by (simp add: x Let_def s'_def [symmetric]) (simp add: e split_beta)
qed simp

lemma engine_event_prefix:
  assumes "\<not> lo_returned s" "engine_event env i ro traced s = t"
  shows "(\<exists>sent. lo_out t = lo_out s @ sent \<and> prefix sent (snd (event_signals (lo_engine s) ro traced)) \<and>
      n_emitted (lo_counts t) = n_emitted (lo_counts s) + int (length sent) \<and>
      (\<not> lo_returned t \<longrightarrow> sent = snd (event_signals (lo_engine s) ro traced) \<and>
         lo_engine t = fst (event_signals (lo_engine s) ro traced)))"
proof (cases "se_cancelled env i")
  case True
  then show ?thesis using assms by (auto simp: engine_event_def)
next
  case False
  define s1 where "s1 = s\<lparr>lo_counts := count_received (lo_counts s)\<rparr>"
  let ?sigs1 = "evaluateWithSpan (lo_engine s) ro traced"
  obtain e' sigs2 where c: "correlateWithSpan (lo_engine s) ro (tr_Ctx traced) (tr_Value traced) = (e', sigs2)"
    by force
  have ev: "event_signals (lo_engine s) ro traced = (e', ?sigs1 @ sigs2)" by (simp add: event_signals_def c)
  have l: "lo_engine (s\<lparr>lo_counts := c\<rparr>) = lo_engine s" for c by simp
  have t: "t = (let s2 = send_round env ?sigs1 s1
      in if lo_returned s2 then s2
         else (let (e', sigs) = correlateWithSpan (lo_engine s2) ro (tr_Ctx traced) (tr_Value traced)
               in send_round env sigs (s2\<lparr>lo_engine := e'\<rparr>)))"
    using False by (simp only: assms(2) [symmetric] engine_event_def if_False Let_def s1_def l)
  show ?thesis
  proof (cases env ?sigs1 s1 rule: send_round_cases)
    case (some sent)
    then show ?thesis by (auto simp: t s1_def ev intro: prefix_prefix)
  next
    case all
    define s2 where "s2 = send_round env ?sigs1 s1"
    have s2: "lo_out s2 = lo_out s @ ?sigs1" "lo_engine s2 = lo_engine s" "\<not> lo_returned s2"
      "n_emitted (lo_counts s2) = n_emitted (lo_counts s) + int (length ?sigs1)"
      using all by (simp_all add: s2_def s1_def)
    have t2: "t = send_round env sigs2 (s2\<lparr>lo_engine := e'\<rparr>)"
      using s2 c by (simp add: t s2_def [symmetric] Let_def)
    show ?thesis
    proof (cases env sigs2 "s2\<lparr>lo_engine := e'\<rparr>" rule: send_round_cases)
      case all
      then show ?thesis using s2 by (auto simp: t2 ev)
    next
      case (some sent)
      then show ?thesis using s2 by (auto simp: t2 ev intro!: exI [of _ "?sigs1 @ sent"])
    qed
  qed
qed

lemma engine_run_prefix:
  "\<not> lo_returned s \<Longrightarrow>
   \<exists>sent. lo_out (engine_run env i ins s) = lo_out s @ sent \<and> prefix sent (snd (stage_signals (lo_engine s) ins)) \<and>
     n_emitted (lo_counts (engine_run env i ins s)) = n_emitted (lo_counts s) + int (length sent)"
proof (induction ins arbitrary: i s)
  case (Cons x ins)
  obtain ro traced where x: "x = (ro, traced)" by force
  define t where "t = engine_event env i ro traced s"
  obtain sent where sent: "lo_out t = lo_out s @ sent"
    "prefix sent (snd (event_signals (lo_engine s) ro traced))"
    "n_emitted (lo_counts t) = n_emitted (lo_counts s) + int (length sent)"
    "\<not> lo_returned t \<longrightarrow> sent = snd (event_signals (lo_engine s) ro traced) \<and>
         lo_engine t = fst (event_signals (lo_engine s) ro traced)"
    using engine_event_prefix [OF Cons.prems t_def [symmetric]] by blast
  show ?case
  proof (cases "lo_returned t")
    case True
    then have "engine_run env i (x # ins) s = t" by (simp add: x t_def)
    then show ?thesis using sent by (auto simp: x split_beta intro: prefix_prefix)
  next
    case False
    then have r: "engine_run env i (x # ins) s = engine_run env (Suc i) ins t" by (simp add: x t_def)
    from Cons.IH [OF False, of "Suc i"] obtain sent' where
      "lo_out (engine_run env (Suc i) ins t) = lo_out t @ sent'"
      "prefix sent' (snd (stage_signals (lo_engine t) ins))"
      "n_emitted (lo_counts (engine_run env (Suc i) ins t)) = n_emitted (lo_counts t) + int (length sent')"
      by blast
    then show ?thesis using sent False unfolding r
      by (intro exI [of _ "sent @ sent'"]) (auto simp: x split_beta)
  qed
qed simp

text \<open>The engine stage sends, for each event in turn, the signals of the rules and then those of the
  correlator, which has seen all earlier events; every event is received and every signal counted
  as it is sent. If the context is cancelled at any point, what was sent is an initial part of
  that, so a signal is never sent without the ones before it.\<close>

theorem Engine_Run_spec:
  "lo_out (Run e calm ins) = snd (stage_signals e ins) \<and> lo_engine (Run e calm ins) = fst (stage_signals e ins) \<and>
   n_received (lo_counts (Run e calm ins)) = int (length ins) \<and>
   prefix (lo_out (Run e env ins)) (snd (stage_signals e ins)) \<and>
   n_emitted (lo_counts (Run e env ins)) = int (length (lo_out (Run e env ins)))"
  using engine_run_calm [of "\<lparr>lo_engine = e, lo_counts = no_counts, lo_out = [], lo_returned = False\<rparr>" 0 ins]
    engine_run_prefix [of "\<lparr>lo_engine = e, lo_counts = no_counts, lo_out = [], lo_returned = False\<rparr>" env 0 ins]
  by (auto simp: Run_def)

lemma wrapped_times:
  "map tr_StartedAt (map (\<lambda>(i, sig). wrapCorrelationSignal tel (f i) ctx sig) (enumerate n sigs)) =
   map f [n..<n + length sigs]"
  by (induction sigs arbitrary: n)
    (simp_all add: wrapCorrelationSignal_def NewTraced_def Let_def upt_conv_Cons del: upt_Suc)

text \<open>The latency of a signal is measured from when its event entered the pipeline for signals of the
  rules only: a correlation signal starts its own clock when the engine wraps it, so the time its
  event has spent in the pipeline is not in the measured latency.\<close>

theorem correlation_latency_restarts:
  "list_all (\<lambda>s. tr_StartedAt s = tr_StartedAt traced) (evaluateWithSpan e ro traced) \<and>
   map tr_StartedAt (snd (correlateWithSpan e ro (tr_Ctx traced) (tr_Value traced))) =
     map (ro_wrapped ro) [0..<length (snd (correlateWithSpan e ro (tr_Ctx traced) (tr_Value traced)))]"
  by (simp add: evaluateWithSpan_def Let_def list_all_iff)
    (simp add: correlateWithSpan_def wrapped_times del: map_map split: prod.split)

end
