(* ===== verification/Registry.thy ===== *)
theory Registry
  imports Go_Time Event_Types "HOL-Library.AList"
begin

text \<open>
  The registry of known contracts, price feeds and Wormhole addresses
  (\<open>internal/registry/registry.go\<close>). Decoding the TOML file is koanf's work: \<open>Load\<close> starts from
  the decoded \<open>rawRegistry\<close>, whose maps are association lists in the order the source happens to
  range over them.
\<close>

section \<open>Types\<close>

record ContractInfo =
  ci_Name :: string
  ci_Protocol :: string
  ci_MedianBridgeLatency :: "duration option"
  ci_RawMedianBridgeLatency :: string

record PriceFeed =
  pf_Address :: string

record WormholeAddresses =
  wa_Core :: string
  wa_TokenBridge :: string

record Registry =
  reg_contracts :: "ChainID \<rightharpoonup> (string \<times> ContractInfo) list"
  reg_priceFeeds :: "ChainID \<rightharpoonup> (string \<times> PriceFeed) list"
  reg_wormhole :: "ChainID \<rightharpoonup> WormholeAddresses"

record rawRegistry =
  raw_Contracts :: "(string \<times> (string \<times> ContractInfo) list) list"
  raw_PriceFeeds :: "(string \<times> (string \<times> PriceFeed) list) list"
  raw_Wormhole :: "(string \<times> WormholeAddresses) list"

section \<open>Lookups\<close>

definition LookupContract :: "Registry \<Rightarrow> ChainID \<Rightarrow> string \<Rightarrow> ContractInfo option" where
  "LookupContract r chain address =
     (case reg_contracts r chain of
        Some chainContracts \<Rightarrow> (case map_of chainContracts address of
            Some info \<Rightarrow> Some info
          | None \<Rightarrow> None)
      | None \<Rightarrow> None)"

definition LookupPriceFeed :: "Registry \<Rightarrow> ChainID \<Rightarrow> string \<Rightarrow> PriceFeed option" where
  "LookupPriceFeed r chain token =
     (case reg_priceFeeds r chain of
        Some chainFeeds \<Rightarrow> (case map_of chainFeeds token of
            Some feed \<Rightarrow> Some feed
          | None \<Rightarrow> None)
      | None \<Rightarrow> None)"

definition ContractAddresses :: "Registry \<Rightarrow> ChainID \<Rightarrow> string list" where
  "ContractAddresses r chain =
     (case reg_contracts r chain of
        None \<Rightarrow> []
      | Some chainContracts \<Rightarrow> map fst chainContracts)"

definition WormholeConfig :: "Registry \<Rightarrow> ChainID \<Rightarrow> WormholeAddresses option" where
  "WormholeConfig r chain = reg_wormhole r chain"

section \<open>Loading\<close>

definition parse_latency :: "ContractInfo \<Rightarrow> ContractInfo" where
  "parse_latency info =
     (if ci_RawMedianBridgeLatency info \<noteq> [] then
        (case ParseDuration (ci_RawMedianBridgeLatency info) of
           Some d \<Rightarrow> info\<lparr>ci_MedianBridgeLatency := Some d\<rparr>
         | None \<Rightarrow> info)
      else info)"

fun load_contracts ::
  "(string \<times> ContractInfo) list \<Rightarrow> (string \<times> ContractInfo) list \<Rightarrow> (string \<times> ContractInfo) list" where
  "load_contracts m [] = m"
| "load_contracts m ((addr, info) # rest) =
     load_contracts (AList.update addr (parse_latency info) m) rest"

fun load_chains :: "Registry \<Rightarrow> (string \<times> (string \<times> ContractInfo) list) list \<Rightarrow> Registry" where
  "load_chains reg [] = reg"
| "load_chains reg ((chain, contracts) # rest) =
     load_chains (reg\<lparr>reg_contracts := (reg_contracts reg)(chain \<mapsto> load_contracts [] contracts)\<rparr>) rest"

fun load_feeds :: "(string \<times> PriceFeed) list \<Rightarrow> (string \<times> PriceFeed) list \<Rightarrow> (string \<times> PriceFeed) list"
where
  "load_feeds m [] = m"
| "load_feeds m ((token, feed) # rest) = load_feeds (AList.update token feed m) rest"

fun load_feed_chains :: "Registry \<Rightarrow> (string \<times> (string \<times> PriceFeed) list) list \<Rightarrow> Registry" where
  "load_feed_chains reg [] = reg"
| "load_feed_chains reg ((chain, feeds) # rest) =
     load_feed_chains (reg\<lparr>reg_priceFeeds := (reg_priceFeeds reg)(chain \<mapsto> load_feeds [] feeds)\<rparr>) rest"

fun load_wormhole :: "Registry \<Rightarrow> (string \<times> WormholeAddresses) list \<Rightarrow> Registry" where
  "load_wormhole reg [] = reg"
| "load_wormhole reg ((chain, wh) # rest) =
     load_wormhole (reg\<lparr>reg_wormhole := (reg_wormhole reg)(chain \<mapsto> wh)\<rparr>) rest"

definition load_registry :: "rawRegistry \<Rightarrow> Registry" where
  "load_registry raw =
     (let reg = \<lparr>reg_contracts = Map.empty, reg_priceFeeds = Map.empty, reg_wormhole = Map.empty\<rparr>;
          reg = load_chains reg (raw_Contracts raw);
          reg = load_feed_chains reg (raw_PriceFeeds raw);
          reg = load_wormhole reg (raw_Wormhole raw)
      in reg)"

definition Load :: "string + rawRegistry \<Rightarrow> string + Registry" where
  "Load decoded =
     (case decoded of
        Inl e \<Rightarrow> Inl e
      | Inr raw \<Rightarrow> Inr (load_registry raw))"

section \<open>What loading stores\<close>

definition unique_keys :: "(string \<times> (string \<times> 'v) list) list \<Rightarrow> bool" where
  "unique_keys m \<longleftrightarrow> distinct (map fst m) \<and> (\<forall>(c, inner)\<in>set m. distinct (map fst inner))"

lemma load_contracts_lookup:
  "distinct (map fst kvs) \<Longrightarrow>
   map_of (load_contracts m kvs) a =
     (case map_of kvs a of Some i \<Rightarrow> Some (parse_latency i) | None \<Rightarrow> map_of m a)"
  by (induction m kvs rule: load_contracts.induct)
    (auto simp: update_conv' map_of_eq_None_iff [symmetric] split: option.split)

lemma load_feeds_lookup:
  "distinct (map fst kvs) \<Longrightarrow>
   map_of (load_feeds m kvs) a = (case map_of kvs a of Some f \<Rightarrow> Some f | None \<Rightarrow> map_of m a)"
  by (induction m kvs rule: load_feeds.induct)
    (auto simp: update_conv' map_of_eq_None_iff [symmetric] split: option.split)

lemma load_contracts_distinct: "distinct (map fst m) \<Longrightarrow> distinct (map fst (load_contracts m kvs))"
  by (induction m kvs rule: load_contracts.induct) (auto simp: distinct_update)

lemma load_chains_lookup:
  "distinct (map fst cs) \<Longrightarrow>
   reg_contracts (load_chains reg cs) c =
     (case map_of cs c of Some inner \<Rightarrow> Some (load_contracts [] inner) | None \<Rightarrow> reg_contracts reg c)"
  by (induction reg cs rule: load_chains.induct)
    (auto simp: map_of_eq_None_iff [symmetric] split: option.split)

lemma load_feed_chains_lookup:
  "distinct (map fst cs) \<Longrightarrow>
   reg_priceFeeds (load_feed_chains reg cs) c =
     (case map_of cs c of Some inner \<Rightarrow> Some (load_feeds [] inner) | None \<Rightarrow> reg_priceFeeds reg c)"
  by (induction reg cs rule: load_feed_chains.induct)
    (auto simp: map_of_eq_None_iff [symmetric] split: option.split)

lemma load_wormhole_lookup:
  "distinct (map fst cs) \<Longrightarrow>
   reg_wormhole (load_wormhole reg cs) c =
     (case map_of cs c of Some w \<Rightarrow> Some w | None \<Rightarrow> reg_wormhole reg c)"
  by (induction reg cs rule: load_wormhole.induct)
    (auto simp: map_of_eq_None_iff [symmetric] split: option.split)

lemma load_chains_other [simp]:
  "reg_priceFeeds (load_chains reg cs) = reg_priceFeeds reg"
  "reg_wormhole (load_chains reg cs) = reg_wormhole reg"
  by (induction reg cs rule: load_chains.induct) simp_all

lemma load_feed_chains_other [simp]:
  "reg_contracts (load_feed_chains reg fs) = reg_contracts reg"
  "reg_wormhole (load_feed_chains reg fs) = reg_wormhole reg"
  by (induction reg fs rule: load_feed_chains.induct) simp_all

lemma load_wormhole_other [simp]:
  "reg_contracts (load_wormhole reg ws) = reg_contracts reg"
  "reg_priceFeeds (load_wormhole reg ws) = reg_priceFeeds reg"
  by (induction reg ws rule: load_wormhole.induct) simp_all

definition raw_lookup :: "(string \<times> (string \<times> 'v) list) list \<Rightarrow> string \<Rightarrow> string \<Rightarrow> 'v option" where
  "raw_lookup m c a = (case map_of m c of None \<Rightarrow> None | Some inner \<Rightarrow> map_of inner a)"

lemma unique_inner: "unique_keys m \<Longrightarrow> map_of m c = Some inner \<Longrightarrow> distinct (map fst inner)"
  unfolding unique_keys_def by (blast dest: map_of_SomeD)

lemma Load_contracts:
  assumes "unique_keys (raw_Contracts raw)" "Load (Inr raw) = Inr r"
  shows "reg_contracts r c = map_option (load_contracts []) (map_of (raw_Contracts raw) c)"
  using assms by (auto simp: Load_def load_registry_def Let_def unique_keys_def load_chains_lookup split: option.split)

lemma Load_priceFeeds:
  assumes "unique_keys (raw_PriceFeeds raw)" "Load (Inr raw) = Inr r"
  shows "reg_priceFeeds r c = map_option (load_feeds []) (map_of (raw_PriceFeeds raw) c)"
  using assms by (auto simp: Load_def load_registry_def Let_def unique_keys_def load_feed_chains_lookup split: option.split)

lemma Load_LookupContract:
  assumes "unique_keys (raw_Contracts raw)" "Load (Inr raw) = Inr r"
  shows "LookupContract r c a = map_option parse_latency (raw_lookup (raw_Contracts raw) c a)"
proof (cases "map_of (raw_Contracts raw) c")
  case None
  then show ?thesis by (simp add: LookupContract_def Load_contracts [OF assms] raw_lookup_def)
next
  case (Some inner)
  then show ?thesis
    by (simp add: LookupContract_def Load_contracts [OF assms] raw_lookup_def
        load_contracts_lookup [OF unique_inner [OF assms(1)]] split: option.split)
qed

lemma Load_LookupPriceFeed:
  assumes "unique_keys (raw_PriceFeeds raw)" "Load (Inr raw) = Inr r"
  shows "LookupPriceFeed r c a = raw_lookup (raw_PriceFeeds raw) c a"
proof (cases "map_of (raw_PriceFeeds raw) c")
  case None
  then show ?thesis by (simp add: LookupPriceFeed_def Load_priceFeeds [OF assms] raw_lookup_def)
next
  case (Some inner)
  then show ?thesis
    by (simp add: LookupPriceFeed_def Load_priceFeeds [OF assms] raw_lookup_def
        load_feeds_lookup [OF unique_inner [OF assms(1)]] split: option.split)
qed

lemma Load_WormholeConfig:
  "distinct (map fst (raw_Wormhole raw)) \<Longrightarrow> Load (Inr raw) = Inr r \<Longrightarrow>
   WormholeConfig r c = map_of (raw_Wormhole raw) c"
  by (auto simp: Load_def load_registry_def Let_def WormholeConfig_def load_wormhole_lookup split: option.split)

text \<open>After loading, every lookup returns what the file says for that chain and key, whatever the
  order in which the maps are ranged over: a contract with its latency parsed (and left unset where
  the text is empty or invalid, without failing the load), a price feed and the Wormhole addresses
  unchanged, and nothing for keys the file does not have.\<close>

theorem Load_lookup:
  assumes "unique_keys (raw_Contracts raw)" "unique_keys (raw_PriceFeeds raw)"
    and "distinct (map fst (raw_Wormhole raw))" "Load (Inr raw) = Inr r"
  shows "LookupContract r c a = map_option parse_latency (raw_lookup (raw_Contracts raw) c a) \<and>
    LookupPriceFeed r c a = raw_lookup (raw_PriceFeeds raw) c a \<and>
    WormholeConfig r c = map_of (raw_Wormhole raw) c"
  using assms by (simp add: Load_LookupContract Load_LookupPriceFeed Load_WormholeConfig)

definition demo_info :: ContractInfo where
  "demo_info = \<lparr>ci_Name = ''Token Bridge'', ci_Protocol = ''wormhole'',
                ci_MedianBridgeLatency = None, ci_RawMedianBridgeLatency = ''15m''\<rparr>"

definition demo_raw :: rawRegistry where
  "demo_raw = \<lparr>raw_Contracts = [(ChainEthereum, [(''0xbridge'', demo_info)])],
     raw_PriceFeeds = [(ChainEthereum, [(''0xtoken'', \<lparr>pf_Address = ''0xfeed''\<rparr>)])],
     raw_Wormhole = [(ChainEthereum, \<lparr>wa_Core = ''0xcore'', wa_TokenBridge = ''0xbridge''\<rparr>)]\<rparr>"

definition demo_registry :: Registry where
  "demo_registry = load_registry demo_raw"

lemma demo_Load: "Load (Inr demo_raw) = Inr demo_registry"
  by (simp add: demo_registry_def Load_def)

lemma Load_lookup_witness:
  "map_option ci_MedianBridgeLatency (LookupContract demo_registry ChainEthereum ''0xbridge'')
     = Some (Some (15 * Minute))"
proof -
  have p: "ParseDuration ''15m'' = Some (15 * Minute)" by code_simp
  show ?thesis
    by (subst Load_lookup [THEN conjunct1, OF _ _ _ demo_Load])
      (simp_all add: unique_keys_def demo_raw_def raw_lookup_def demo_info_def parse_latency_def p)
qed

section \<open>The directory of contracts\<close>

text \<open>
  What the adapters and the enricher rely on together: the addresses the adapter subscribes to are
  exactly those the enricher later finds.
\<close>

locale contract_directory =
  fixes find_contract :: "'c \<Rightarrow> 'a \<Rightarrow> 'i option"
    and addresses :: "'c \<Rightarrow> 'a list"
  assumes addresses_known: "set (addresses c) = {a. find_contract c a \<noteq> None}"
    and addresses_once: "distinct (addresses c)"
begin

lemma unknown_chain: "(\<And>a. find_contract c a = None) \<Longrightarrow> addresses c = []"
  using addresses_known [of c] by auto

lemma number_of_contracts: "card {a. find_contract c a \<noteq> None} = length (addresses c)"
  using distinct_card [OF addresses_once] by (simp add: addresses_known)

lemma subscribed_is_known: "a \<in> set (addresses c) \<longleftrightarrow> (\<exists>i. find_contract c a = Some i)"
  by (simp add: addresses_known)

end

definition reg_ok :: "Registry \<Rightarrow> bool" where
  "reg_ok r \<longleftrightarrow> (\<forall>c inner. reg_contracts r c = Some inner \<longrightarrow> distinct (map fst inner))"

lemma load_chains_ok: "reg_ok reg \<Longrightarrow> reg_ok (load_chains reg cs)"
proof (induction reg cs rule: load_chains.induct)
  case (2 reg chain contracts rest)
  have "distinct (map fst (load_contracts [] contracts))" by (simp add: load_contracts_distinct)
  then have "reg_ok (reg\<lparr>reg_contracts := (reg_contracts reg)(chain \<mapsto> load_contracts [] contracts)\<rparr>)"
    using 2(2) by (simp add: reg_ok_def)
  then show ?case using 2(1) by simp
qed simp

lemma load_registry_ok [inv_intros]: "reg_ok (load_registry raw)"
proof -
  have "reg_ok (load_chains \<lparr>reg_contracts = Map.empty, reg_priceFeeds = Map.empty,
      reg_wormhole = Map.empty\<rparr> (raw_Contracts raw))"
    by (rule load_chains_ok) (simp add: reg_ok_def)
  then show ?thesis by (simp add: load_registry_def Let_def reg_ok_def)
qed

lemma ContractAddresses_known: "set (ContractAddresses r c) = {a. LookupContract r c a \<noteq> None}"
proof (cases "reg_contracts r c")
  case (Some inner)
  have "map_of inner a \<noteq> None \<longleftrightarrow> a \<in> fst ` set inner" for a
    by (simp add: map_of_eq_None_iff)
  then show ?thesis
    by (auto simp: ContractAddresses_def LookupContract_def Some split: option.split)
qed (simp add: ContractAddresses_def LookupContract_def)

lemma ContractAddresses_once: "reg_ok r \<Longrightarrow> distinct (ContractAddresses r c)"
  by (auto simp: ContractAddresses_def reg_ok_def split: option.split)

interpretation registry: contract_directory
  "LookupContract (load_registry raw)" "ContractAddresses (load_registry raw)" for raw
  by unfold_locales (simp_all only: ContractAddresses_known ContractAddresses_once load_registry_ok)

text \<open>The addresses listed for a chain are each listed once and are exactly those that a lookup
  finds on that chain, so an adapter that subscribes to them subscribes to every known contract
  and to no other.\<close>

theorem ContractAddresses_spec:
  assumes "Load (Inr raw) = Inr r"
  shows "distinct (ContractAddresses r c) \<and>
    length (ContractAddresses r c) = card {a. LookupContract r c a \<noteq> None} \<and>
    (a \<in> set (ContractAddresses r c) \<longleftrightarrow> (\<exists>i. LookupContract r c a = Some i))"
proof -
  have r: "r = load_registry raw" using assms by (simp add: Load_def)
  show ?thesis unfolding r
    using registry.addresses_once registry.number_of_contracts registry.subscribed_is_known by metis
qed

lemma ContractAddresses_spec_witness:
  "length (ContractAddresses demo_registry ChainEthereum)
     = card {a. LookupContract demo_registry ChainEthereum a \<noteq> None}"
  using ContractAddresses_spec [OF demo_Load] by blast

end
