(* ===== verification/Decoder.thy ===== *)
theory Decoder
  imports Event_Types
begin

text \<open>
  Decoding of EVM logs (\<open>internal/adapter/evm/decoder.go\<close>, \<open>wormhole.go\<close>, \<open>url.go\<close>). The functions
  of go-ethereum and of the Wormhole SDK that the decoder calls are parameters, collected in the
  records \<open>ethlib\<close> and \<open>wormlib\<close>. Slicing and indexing are checked as Go checks them, and a failed
  check is the value \<open>Panic\<close>.
\<close>

section \<open>Logs and library functions\<close>

type_synonym byte = "8 word"
type_synonym Address = "byte list"
type_synonym Hash = "byte list"

record Log =
  log_Address :: Address
  log_Topics :: "Hash list"
  log_Data :: "byte list"
  log_BlockNumber :: uint64
  log_TxHash :: Hash

record ethlib =
  eth_Keccak256Hash :: "string \<Rightarrow> Hash"
  eth_BytesToAddress :: "byte list \<Rightarrow> Address"
  eth_HexToAddress :: "string \<Rightarrow> Address"
  eth_AddressHex :: "Address \<Rightarrow> string"
  eth_HashHex :: "Hash \<Rightarrow> string"

record TransferHdr =
  hdr_Amount :: int
  hdr_OriginAddress :: "byte list"
  hdr_TargetChain :: "16 word"

record wormlib =
  vaa_IsTransfer :: "byte list \<Rightarrow> bool"
  vaa_DecodeTransferPayloadHdr :: "byte list \<Rightarrow> string + TransferHdr"
  vaa_ChainIDSolana :: "16 word"
  vaa_ChainIDEthereum :: "16 word"
  vaa_ChainIDBSC :: "16 word"
  vaa_ChainIDPolygon :: "16 word"
  vaa_ChainIDAvalanche :: "16 word"
  vaa_ChainIDArbitrum :: "16 word"
  vaa_ChainIDOptimism :: "16 word"
  vaa_ChainIDBase :: "16 word"

text \<open>\<open>new(big.Int).SetBytes(bs)\<close>, and its low 64 bits.\<close>

definition be_value :: "byte list \<Rightarrow> int" where
  "be_value bs = foldl (\<lambda>a b. a * 256 + uint b) 0 bs"

definition be_uint64 :: "byte list \<Rightarrow> uint64" where
  "be_uint64 bs = word_of_int (be_value bs)"

definition len64 :: "byte list \<Rightarrow> uint64" where
  "len64 bs = word_of_int (int (length bs))"

text \<open>\<open>bs[lo:hi]\<close> with \<open>uint64\<close> indices, which panics unless \<open>lo <= hi <= len\<close>. Go allows \<open>hi\<close> up to
  the capacity; the decoder has compared \<open>hi\<close> with the length before every slice.\<close>

definition slice64 :: "byte list \<Rightarrow> uint64 \<Rightarrow> uint64 \<Rightarrow> ('e, byte list) outcome" where
  "slice64 bs lo hi =
     (if unat lo \<le> unat hi \<and> unat hi \<le> length bs
      then Ok (take (unat hi - unat lo) (drop (unat lo) bs)) else Panic SliceOutOfRange)"

definition index_byte :: "byte list \<Rightarrow> nat \<Rightarrow> ('e, byte) outcome" where
  "index_byte bs i = (if i < length bs then Ok (bs ! i) else Panic IndexOutOfRange)"

section \<open>Wormhole chain names\<close>

definition wormholeChainMap :: "wormlib \<Rightarrow> (16 word \<times> ChainID) list" where
  "wormholeChainMap W =
     [(vaa_ChainIDSolana W, ChainSolana),
      (vaa_ChainIDEthereum W, ChainEthereum),
      (vaa_ChainIDBSC W, ''bsc''),
      (vaa_ChainIDPolygon W, ''polygon''),
      (vaa_ChainIDAvalanche W, ''avalanche''),
      (vaa_ChainIDArbitrum W, ChainArbitrum),
      (vaa_ChainIDOptimism W, ''optimism''),
      (vaa_ChainIDBase W, ChainBase)]"

definition WormholeChainID :: "wormlib \<Rightarrow> 16 word \<Rightarrow> ChainID" where
  "WormholeChainID W k =
     (case map_of (wormholeChainMap W) k of
        Some chain \<Rightarrow> chain
      | None \<Rightarrow> ''wormhole_'' @ Itoa (uint k))"

section \<open>Decoders\<close>

datatype decode_error =
    NoTopics
  | NoDecoder string
  | PublishedTopics int
  | NotTokenBridge string string
  | PublishedTooShort int
  | PayloadOffset
  | PayloadData
  | UnsupportedPayload byte
  | TransferError string
  | ApprovalTopics int
  | ApprovalTooShort int

type_synonym DecoderFunc = "ChainID \<Rightarrow> Log \<Rightarrow> (decode_error, RawEvent) outcome"

definition decodeWormholeTransferPayload ::
  "ethlib \<Rightarrow> wormlib \<Rightarrow> ChainID \<Rightarrow> Log \<Rightarrow> byte list \<Rightarrow> string \<Rightarrow> (decode_error, RawEvent) outcome" where
  "decodeWormholeTransferPayload E W chain lg payload tokenBridgeAddr =
     (if \<not> vaa_IsTransfer W payload
      then bind_outcome (index_byte payload 0) (\<lambda>b. Err (UnsupportedPayload b))
      else (case vaa_DecodeTransferPayloadHdr W payload of
          Inl err \<Rightarrow> Err (TransferError err)
        | Inr hdr \<Rightarrow>
            (let tokenAddr = eth_BytesToAddress E (hdr_OriginAddress hdr);
                 destChain = WormholeChainID W (hdr_TargetChain hdr);
                 data = [''token'' \<mapsto> AnyString (lower_ascii (eth_AddressHex E tokenAddr)),
                         ''amount'' \<mapsto> AnyString (Itoa (hdr_Amount hdr)),
                         ''sender'' \<mapsto> AnyString (eth_AddressHex E (eth_HexToAddress E tokenBridgeAddr)),
                         ''target_chain'' \<mapsto> AnyString destChain,
                         ''contract'' \<mapsto> AnyString (eth_AddressHex E (log_Address lg))]
             in Ok \<lparr>re_Chain = chain, re_Block = log_BlockNumber lg,
                    re_TxHash = eth_HashHex E (log_TxHash lg), re_Timestamp = 0,
                    re_EventType = EventBridgeDeposit, re_Data = data\<rparr>)))"

definition logMessagePublishedMinDataLen :: nat where
  "logMessagePublishedMinDataLen = 160"

definition decodeWormholeLogMessagePublished ::
  "ethlib \<Rightarrow> wormlib \<Rightarrow> ChainID \<Rightarrow> Log \<Rightarrow> string \<Rightarrow> (decode_error, RawEvent) outcome" where
  "decodeWormholeLogMessagePublished E W chain lg tokenBridgeAddr =
     (if length (log_Topics lg) < 2 then Err (PublishedTopics (int (length (log_Topics lg))))
      else
        (let sender = eth_BytesToAddress E (log_Topics lg ! 1);
             tokenBridge = eth_HexToAddress E tokenBridgeAddr;
             data = log_Data lg in
         if sender \<noteq> tokenBridge
         then Err (NotTokenBridge (eth_AddressHex E sender) (eth_AddressHex E tokenBridge))
         else if length data < logMessagePublishedMinDataLen
         then Err (PublishedTooShort (int (length data)))
         else bind_outcome (slice64 data 64 96) (\<lambda>offsetBytes.
           let payloadOffset = be_uint64 offsetBytes in
           if payloadOffset + 32 > len64 data then Err PayloadOffset
           else bind_outcome (slice64 data payloadOffset (payloadOffset + 32)) (\<lambda>lenBytes.
             let payloadLen = be_uint64 lenBytes;
                 payloadStart = payloadOffset + 32 in
             if payloadStart + payloadLen > len64 data then Err PayloadData
             else bind_outcome (slice64 data payloadStart (payloadStart + payloadLen)) (\<lambda>payload.
               decodeWormholeTransferPayload E W chain lg payload tokenBridgeAddr)))))"

definition decodeERC20Approval :: "ethlib \<Rightarrow> ChainID \<Rightarrow> Log \<Rightarrow> (decode_error, RawEvent) outcome" where
  "decodeERC20Approval E chain lg =
     (if length (log_Topics lg) < 3 then Err (ApprovalTopics (int (length (log_Topics lg))))
      else if length (log_Data lg) < 32 then Err (ApprovalTooShort (int (length (log_Data lg))))
      else
        (let owner = eth_BytesToAddress E (log_Topics lg ! 1);
             spender = eth_BytesToAddress E (log_Topics lg ! 2);
             val = be_value (take 32 (log_Data lg));
             data = [''token'' \<mapsto> AnyString (lower_ascii (eth_AddressHex E (log_Address lg))),
                     ''sender'' \<mapsto> AnyString (eth_AddressHex E owner),
                     ''spender'' \<mapsto> AnyString (eth_AddressHex E spender),
                     ''amount'' \<mapsto> AnyString (Itoa val),
                     ''contract'' \<mapsto> AnyString (eth_AddressHex E (log_Address lg))]
         in Ok \<lparr>re_Chain = chain, re_Block = log_BlockNumber lg,
                re_TxHash = eth_HashHex E (log_TxHash lg), re_Timestamp = 0,
                re_EventType = EventTokenApproval, re_Data = data\<rparr>))"

section \<open>The registry of decoders\<close>

record DecoderRegistry =
  dr_decoders :: "Hash \<rightharpoonup> DecoderFunc"

definition LogMessagePublishedTopicHash :: "ethlib \<Rightarrow> Hash" where
  "LogMessagePublishedTopicHash E =
     eth_Keccak256Hash E ''LogMessagePublished(address,uint64,uint32,bytes,uint8)''"

definition makeWormholeDecoder :: "ethlib \<Rightarrow> wormlib \<Rightarrow> string \<Rightarrow> DecoderFunc" where
  "makeWormholeDecoder E W tokenBridgeAddr =
     (\<lambda>chain lg. decodeWormholeLogMessagePublished E W chain lg tokenBridgeAddr)"

definition NewDecoderRegistry :: "ethlib \<Rightarrow> wormlib \<Rightarrow> string \<Rightarrow> DecoderRegistry" where
  "NewDecoderRegistry E W tokenBridgeAddr =
     (let logMsgPubSig = eth_Keccak256Hash E ''LogMessagePublished(address,uint64,uint32,bytes,uint8)'';
          approvalSig = eth_Keccak256Hash E ''Approval(address,address,uint256)''
      in \<lparr>dr_decoders = [logMsgPubSig \<mapsto> makeWormholeDecoder E W tokenBridgeAddr,
                         approvalSig \<mapsto> decodeERC20Approval E]\<rparr>)"

definition Decode :: "ethlib \<Rightarrow> DecoderRegistry \<Rightarrow> ChainID \<Rightarrow> Log \<Rightarrow> (decode_error, RawEvent) outcome" where
  "Decode E r chain lg =
     (if length (log_Topics lg) = 0 then Err NoTopics
      else (case dr_decoders r (log_Topics lg ! 0) of
          None \<Rightarrow> Err (NoDecoder (eth_HashHex E (log_Topics lg ! 0)))
        | Some decoder \<Rightarrow> decoder chain lg))"

section \<open>Endpoint addresses\<close>

definition DeriveHTTPURL :: "string \<Rightarrow> string" where
  "DeriveHTTPURL wsURL =
     (if prefix ''https://'' wsURL \<or> prefix ''http://'' wsURL then wsURL
      else if prefix ''wss://'' wsURL then ''https://'' @ TrimPrefix wsURL ''wss://''
      else if prefix ''ws://'' wsURL then ''http://'' @ TrimPrefix wsURL ''ws://''
      else wsURL)"

section \<open>Checked slices\<close>

lemma unat_len64:
  assumes "length bs < 2 ^ 63"
  shows "unat (len64 bs) = length bs"
proof -
  have "length bs < 2 ^ 64" by (rule order.strict_trans [OF assms]) simp
  then show ?thesis
    by (simp only: len64_def of_int_of_nat_eq unsigned_of_nat) (simp add: take_bit_nat_eq_self)
qed

lemma unat_less_64: "unat (x :: uint64) < 2 ^ 64"
  using unsigned_less [of x, where ?'a = nat] by simp

lemma unat_sum:
  "unat (x + y) = (if unat x + unat y < 2 ^ 64 then unat x + unat y else unat x + unat y - 2 ^ 64)"
  for x y :: uint64
  by (simp add: unat_plus_if')

text \<open>The decoder's pattern of a bounds check and a slice, whose sum is computed in \<open>uint64\<close>: the slice
  is as asked for when it lies within the data, and a panic when the sum wraps to something small.\<close>

lemma checked_slice:
  assumes "length bs < 2 ^ 63"
  shows "(if s + n > len64 bs then Err err else bind_outcome (slice64 bs s (s + n)) k) =
    (if unat s + unat n \<le> length bs then k (take (unat n) (drop (unat s) bs))
     else if 2 ^ 64 \<le> unat s + unat n \<and> unat s + unat n - 2 ^ 64 \<le> length bs then Panic SliceOutOfRange
     else Err err)"
proof -
  have n: "unat n < 2 ^ 64" by (rule unat_less_64)
  have gt: "s + n > len64 bs \<longleftrightarrow> length bs < unat (s + n)"
    by (simp add: word_less_nat_alt unat_len64 [OF assms])
  consider (small) "unat s + unat n \<le> length bs"
    | (big) "length bs < unat s + unat n" "unat s + unat n < 2 ^ 64"
    | (wrap) "2 ^ 64 \<le> unat s + unat n" by linarith
  then show ?thesis
  proof cases
    case small
    then have e: "unat (s + n) = unat s + unat n" using assms by (simp add: unat_sum)
    show ?thesis unfolding gt e using small by (simp add: slice64_def e)
  next
    case big
    then have e: "unat (s + n) = unat s + unat n" by (simp add: unat_sum)
    show ?thesis unfolding gt e using big by simp
  next
    case wrap
    then have e: "unat (s + n) = unat s + unat n - 2 ^ 64" by (simp add: unat_sum)
    have "unat s + unat n - 2 ^ 64 < unat s" using n wrap by linarith
    then show ?thesis unfolding gt e using wrap assms by (auto simp: slice64_def e)
  qed
qed

lemma slice_fixed:
  "96 \<le> length bs \<Longrightarrow> slice64 bs 64 96 = Ok (take 32 (drop 64 bs))"
  by (simp add: slice64_def)

text \<open>Offset and length words of a \<open>LogMessagePublished\<close> log.\<close>

definition payload_offset :: "byte list \<Rightarrow> nat" where
  "payload_offset bs = unat (be_uint64 (take 32 (drop 64 bs)))"

definition payload_length :: "byte list \<Rightarrow> nat" where
  "payload_length bs = unat (be_uint64 (take 32 (drop (payload_offset bs) bs)))"

definition payload_bytes :: "byte list \<Rightarrow> byte list" where
  "payload_bytes bs = take (payload_length bs) (drop (payload_offset bs + 32) bs)"

definition from_token_bridge :: "ethlib \<Rightarrow> string \<Rightarrow> Log \<Rightarrow> bool" where
  "from_token_bridge E tokenBridgeAddr lg \<longleftrightarrow> 2 \<le> length (log_Topics lg) \<and>
     eth_BytesToAddress E (log_Topics lg ! 1) = eth_HexToAddress E tokenBridgeAddr \<and>
     160 \<le> length (log_Data lg)"

lemma decode_published:
  assumes "from_token_bridge E tb lg" and len: "length (log_Data lg) < 2 ^ 63"
  shows "decodeWormholeLogMessagePublished E W chain lg tb =
    (let bs = log_Data lg; off = payload_offset bs; n = payload_length bs in
     if length bs < off + 32 then
       (if 2 ^ 64 \<le> off + 32 then Panic SliceOutOfRange else Err PayloadOffset)
     else if length bs < off + 32 + n then
       (if 2 ^ 64 \<le> off + 32 + n then Panic SliceOutOfRange else Err PayloadData)
     else decodeWormholeTransferPayload E W chain lg (payload_bytes bs) tb)"
proof -
  let ?bs = "log_Data lg"
  let ?off = "be_uint64 (take 32 (drop 64 ?bs))"
  have n32: "unat (32 :: uint64) = 32" by simp
  have "unat ?off < 2 ^ 64" by (rule unat_less_64)
  then have small: "unat ?off + 32 - 2 ^ 64 \<le> length ?bs"
    using assms(1) unfolding from_token_bridge_def by linarith
  let ?k = "\<lambda>lenBytes. (if (?off + 32) + be_uint64 lenBytes > len64 ?bs then Err PayloadData
      else bind_outcome (slice64 ?bs (?off + 32) ((?off + 32) + be_uint64 lenBytes)) (\<lambda>payload.
        decodeWormholeTransferPayload E W chain lg payload tb))"
  have top: "decodeWormholeLogMessagePublished E W chain lg tb =
      (if ?off + 32 > len64 ?bs then Err PayloadOffset
       else bind_outcome (slice64 ?bs ?off (?off + 32)) ?k)"
    using assms(1)
    by (simp add: slice_fixed decodeWormholeLogMessagePublished_def from_token_bridge_def
        logMessagePublishedMinDataLen_def Let_def)
  show ?thesis
  proof (cases "unat ?off + 32 \<le> length ?bs")
    case False
    then show ?thesis unfolding top checked_slice [OF len]
      using small by (simp add: n32 payload_offset_def Let_def)
  next
    case True
    let ?n = "be_uint64 (take 32 (drop (unat ?off) ?bs))"
    have e: "unat (?off + 32) = unat ?off + 32"
      using True len by (simp add: unat_sum n32)
    have w: "unat ?n < 2 ^ 64" by (rule unat_less_64)
    have wrapped: "unat ?off + 32 + unat ?n - 2 ^ 64 \<le> length ?bs" using w True by linarith
    have "decodeWormholeLogMessagePublished E W chain lg tb = ?k (take 32 (drop (unat ?off) ?bs))"
      unfolding top checked_slice [OF len] using True by (simp add: n32)
    also have "\<dots> = (if unat ?off + 32 + unat ?n \<le> length ?bs
        then decodeWormholeTransferPayload E W chain lg (take (unat ?n) (drop (unat ?off + 32) ?bs)) tb
        else if 2 ^ 64 \<le> unat ?off + 32 + unat ?n then Panic SliceOutOfRange else Err PayloadData)"
      unfolding checked_slice [OF len] e using wrapped by simp
    finally show ?thesis using True
      by (simp add: payload_offset_def payload_length_def payload_bytes_def Let_def not_less)
  qed
qed

section \<open>When decoding panics\<close>

lemma decodeERC20Approval_no_panic: "no_panic (decodeERC20Approval E chain lg)"
  by (simp add: decodeERC20Approval_def Let_def)

lemma published_other_no_panic:
  "\<not> from_token_bridge E tb lg \<Longrightarrow> no_panic (decodeWormholeLogMessagePublished E W chain lg tb)"
  by (auto simp: from_token_bridge_def decodeWormholeLogMessagePublished_def
      logMessagePublishedMinDataLen_def Let_def)

lemma transfer_payload_panic:
  "decodeWormholeTransferPayload E W chain lg payload tb = Panic k \<longleftrightarrow>
     k = IndexOutOfRange \<and> payload = [] \<and> \<not> vaa_IsTransfer W []"
  by (auto simp: decodeWormholeTransferPayload_def index_byte_def Let_def split: sum.split)

text \<open>C13. Decoding a \<open>LogMessagePublished\<close> log panics in exactly three cases, all of them chosen by whoever
  wrote the log data: the payload offset is within 32 of \<open>2^64\<close>, or the payload length makes the
  end of the payload wrap past \<open>2^64\<close> (the sums in the bounds checks are 64-bit and wrap), or the
  payload is empty (the error message for a payload that is no transfer reads its first byte).\<close>

theorem published_panics_iff:
  assumes "from_token_bridge E tb lg" "length (log_Data lg) < 2 ^ 63" "\<not> vaa_IsTransfer W []"
  shows "\<not> no_panic (decodeWormholeLogMessagePublished E W chain lg tb) \<longleftrightarrow>
    (let bs = log_Data lg; off = payload_offset bs; n = payload_length bs in
     2 ^ 64 \<le> off + 32 \<or>
     off + 32 \<le> length bs \<and> (2 ^ 64 \<le> off + 32 + n \<or> n = 0))"
proof -
  let ?bs = "log_Data lg"
  let ?off = "payload_offset ?bs" and ?n = "payload_length ?bs"
  have e: "payload_bytes ?bs = [] \<longleftrightarrow> ?n = 0" if "?off + 32 + ?n \<le> length ?bs"
    using that by (auto simp: payload_bytes_def)
  have p: "\<not> no_panic (decodeWormholeTransferPayload E W chain lg (payload_bytes ?bs) tb) \<longleftrightarrow>
      payload_bytes ?bs = []"
    using assms(3) by (auto simp: no_panic_iff transfer_payload_panic)
  consider (a) "length ?bs < ?off + 32"
    | (b) "?off + 32 \<le> length ?bs" "length ?bs < ?off + 32 + ?n"
    | (c) "?off + 32 + ?n \<le> length ?bs" by linarith
  then show ?thesis
  proof cases
    case a
    then show ?thesis by (auto simp: decode_published [OF assms(1,2)] Let_def)
  next
    case b
    then have "?off + 32 < 2 ^ 64" "?n \<noteq> 0" using assms(2) by simp_all
    then show ?thesis using b by (auto simp: decode_published [OF assms(1,2)] Let_def)
  next
    case c
    then have "?off + 32 + ?n < 2 ^ 64" using assms(2) by simp
    then show ?thesis using c e p by (auto simp: decode_published [OF assms(1,2)] Let_def)
  qed
qed

lemma Decode_new:
  "Decode E (NewDecoderRegistry E W tb) chain lg =
     (if log_Topics lg = [] then Err NoTopics
      else if hd (log_Topics lg) = eth_Keccak256Hash E ''Approval(address,address,uint256)''
      then decodeERC20Approval E chain lg
      else if hd (log_Topics lg) = LogMessagePublishedTopicHash E
      then decodeWormholeLogMessagePublished E W chain lg tb
      else Err (NoDecoder (eth_HashHex E (hd (log_Topics lg)))))"
  by (auto simp: Decode_def NewDecoderRegistry_def makeWormholeDecoder_def hd_conv_nth
      LogMessagePublishedTopicHash_def Let_def)

text \<open>C15. A log that makes the decoder panic is a \<open>LogMessagePublished\<close> log (by its first topic) that claims the token
  bridge as its sender, with at least 160 bytes of data: every other log, an approval included, whatever its topics and
  data, gives an event or an error.\<close>

theorem Decode_safe_unless_from_bridge:
  assumes "\<not> no_panic (Decode E (NewDecoderRegistry E W tb) chain lg)"
  shows "2 \<le> length (log_Topics lg) \<and> hd (log_Topics lg) = LogMessagePublishedTopicHash E \<and>
    eth_BytesToAddress E (log_Topics lg ! 1) = eth_HexToAddress E tb \<and> 160 \<le> length (log_Data lg)"
  using assms published_other_no_panic [of E tb lg W chain] decodeERC20Approval_no_panic [of E chain lg]
  by (auto simp: Decode_new from_token_bridge_def split: if_splits)

text \<open>A bridge deposit is decoded only from a \<open>LogMessagePublished\<close> log whose sender topic is the
  configured token bridge and whose payload, lying within the data, is a transfer that the SDK
  decodes; it carries that transfer's amount and target chain, and the log's block.\<close>

theorem bridge_deposit_origin:
  assumes "length (log_Data lg) < 2 ^ 63"
    and "Decode E (NewDecoderRegistry E W tb) chain lg = Ok ev" "re_EventType ev = EventBridgeDeposit"
  shows "from_token_bridge E tb lg \<and> hd (log_Topics lg) = LogMessagePublishedTopicHash E \<and>
    payload_offset (log_Data lg) + 32 + payload_length (log_Data lg) \<le> length (log_Data lg) \<and>
    vaa_IsTransfer W (payload_bytes (log_Data lg)) \<and>
    (\<exists>h. vaa_DecodeTransferPayloadHdr W (payload_bytes (log_Data lg)) = Inr h \<and>
      as_string (data_get (re_Data ev) ''amount'') = Some (Itoa (hdr_Amount h)) \<and>
      as_string (data_get (re_Data ev) ''target_chain'') = Some (WormholeChainID W (hdr_TargetChain h))) \<and>
    re_Chain ev = chain \<and> re_Block ev = log_BlockNumber lg"
proof -
  have "decodeERC20Approval E chain lg \<noteq> Ok ev"
    using assms(3) by (auto simp: decodeERC20Approval_def Let_def event_types)
  then have d: "decodeWormholeLogMessagePublished E W chain lg tb = Ok ev"
    and t: "hd (log_Topics lg) = LogMessagePublishedTopicHash E"
    using assms(2) by (auto simp: Decode_new split: if_splits)
  have f: "from_token_bridge E tb lg"
  proof (rule ccontr)
    assume "\<not> from_token_bridge E tb lg"
    then show False using d
      by (auto simp: from_token_bridge_def decodeWormholeLogMessagePublished_def
          logMessagePublishedMinDataLen_def Let_def split: if_splits)
  qed
  have r: "payload_offset (log_Data lg) + 32 + payload_length (log_Data lg) \<le> length (log_Data lg)"
    and p: "decodeWormholeTransferPayload E W chain lg (payload_bytes (log_Data lg)) tb = Ok ev"
    using d unfolding decode_published [OF f assms(1)] by (auto simp: Let_def not_less split: if_splits)
  show ?thesis using f t r p
    by (auto simp: decodeWormholeTransferPayload_def index_byte_def Let_def split: if_splits sum.splits)
qed

section \<open>Well-formed logs\<close>

fun be_bytes :: "nat \<Rightarrow> int \<Rightarrow> byte list" where
  "be_bytes 0 n = []"
| "be_bytes (Suc k) n = be_bytes k (n div 256) @ [word_of_int n]"

lemma length_be_bytes [simp]: "length (be_bytes k n) = k"
  by (induction k arbitrary: n) auto

lemma be_value_snoc: "be_value (bs @ [b]) = be_value bs * 256 + uint b"
  by (simp add: be_value_def)

lemma be_value_bounds: "0 \<le> be_value bs \<and> be_value bs < 256 ^ length bs"
proof (induction bs rule: rev_induct)
  case Nil
  then show ?case by (simp add: be_value_def)
next
  case (snoc b bs)
  have "uint b < 256" "0 \<le> uint b" using uint_lt2p [of b] by simp_all
  then show ?case using snoc by (simp add: be_value_snoc)
qed

lemma be_value_word: "0 \<le> be_value (take 32 bs)" "be_value (take 32 bs) < 2 ^ 256"
proof -
  have "(256::int) ^ length (take 32 bs) \<le> 256 ^ 32" by (rule power_increasing) simp_all
  then show "0 \<le> be_value (take 32 bs)" "be_value (take 32 bs) < 2 ^ 256"
    using be_value_bounds [of "take 32 bs"] by simp_all
qed

lemma be_value_bytes: "0 \<le> n \<Longrightarrow> n < 256 ^ k \<Longrightarrow> be_value (be_bytes k n) = n"
proof (induction k arbitrary: n)
  case 0
  then show ?case by (simp add: be_value_def)
next
  case (Suc k)
  have "be_value (be_bytes k (n div 256)) = n div 256"
    using Suc by (intro Suc.IH) (auto simp: div_less_iff_less_mult mult.commute)
  then show ?case by (simp add: be_value_snoc uint_word_of_int)
qed

text \<open>The ABI encoding of the event's data: sequence, nonce, the offset of the payload, consistency
  level, then the payload's length and its bytes.\<close>

definition abi_published :: "int \<Rightarrow> int \<Rightarrow> byte list \<Rightarrow> int \<Rightarrow> byte list \<Rightarrow> byte list" where
  "abi_published sequ nonce payload consistency padding =
     be_bytes 32 sequ @ be_bytes 32 nonce @ be_bytes 32 128 @ be_bytes 32 consistency @
     be_bytes 32 (int (length payload)) @ payload @ padding"

lemma abi_payload:
  assumes "length payload < 2 ^ 63"
  shows "payload_offset (abi_published sq nc payload cl padding) = 128"
    "payload_length (abi_published sq nc payload cl padding) = length payload"
    "payload_bytes (abi_published sq nc payload cl padding) = payload"
proof -
  let ?bs = "abi_published sq nc payload cl padding"
  have "take 32 (drop 64 ?bs) = be_bytes 32 128" by (simp add: abi_published_def)
  then show off: "payload_offset ?bs = 128"
    by (simp add: payload_offset_def be_uint64_def be_value_bytes)
  have "take 32 (drop 128 ?bs) = be_bytes 32 (int (length payload))" by (simp add: abi_published_def)
  moreover have "be_value (be_bytes 32 (int (length payload))) = int (length payload)"
    using assms by (intro be_value_bytes) simp_all
  ultimately show n: "payload_length ?bs = length payload"
    unfolding payload_length_def off be_uint64_def
    using unat_len64 [OF assms] by (simp add: len64_def)
  show "payload_bytes ?bs = payload"
    unfolding payload_bytes_def off n by (simp add: abi_published_def)
qed

lemma decode_abi_data:
  assumes "2 \<le> length (log_Topics lg)"
    and "eth_BytesToAddress E (log_Topics lg ! 1) = eth_HexToAddress E tb"
    and "log_Data lg = abi_published sq nc payload cl padding" "length (log_Data lg) < 2 ^ 63"
  shows "decodeWormholeLogMessagePublished E W chain lg tb =
    decodeWormholeTransferPayload E W chain lg payload tb"
proof -
  have l: "length (log_Data lg) = 160 + length payload + length padding"
    using assms(3) by (simp add: abi_published_def)
  then have f: "from_token_bridge E tb lg" using assms(1,2) by (simp add: from_token_bridge_def)
  have "length payload < 2 ^ 63" using l assms(4) by linarith
  note abi = abi_payload [OF this, of sq nc cl padding]
  show ?thesis unfolding decode_published [OF f assms(4)] using l
    by (simp add: assms(3) abi Let_def)
qed

text \<open>C14. Round trip with the ABI: from a log whose data encodes a message as the contract does, the
  decoder hands exactly the message's payload to the transfer decoding, whatever the sequence
  number, nonce, consistency level and padding.\<close>

theorem decode_abi_published:
  assumes "2 \<le> length (log_Topics lg)"
    and "eth_BytesToAddress E (log_Topics lg ! 1) = eth_HexToAddress E tb"
    and "log_Data lg = abi_published sq nc payload cl padding" "length (log_Data lg) < 2 ^ 63"
  shows "decodeWormholeLogMessagePublished E W chain lg tb =
    decodeWormholeTransferPayload E W chain lg payload tb"
  by (rule decode_abi_data [OF assms])

section \<open>Chain names\<close>

lemma wormhole_names: "distinct (map snd (wormholeChainMap W))"
  "\<forall>n\<in>set (map snd (wormholeChainMap W)). \<not> prefix ''wormhole_'' n"
  by (simp_all add: wormholeChainMap_def chain_ids)

lemma map_of_value_inj:
  "distinct (map snd xs) \<Longrightarrow> map_of xs j = Some v \<Longrightarrow> map_of xs k = Some v \<Longrightarrow> j = k"
  by (metis distinct_map inj_onD map_of_SomeD prod.inject snd_conv)

text \<open>Different Wormhole chain numbers never get the same chain name: no table entry
  can be confused with another or with an unknown number, which is shown in full after \<open>wormhole_\<close>.\<close>

theorem WormholeChainID_injective: "WormholeChainID W j = WormholeChainID W k \<longleftrightarrow> j = k"
proof
  assume eq: "WormholeChainID W j = WormholeChainID W k"
  have named: "\<not> prefix ''wormhole_'' n" if "map_of (wormholeChainMap W) i = Some n" for i n
    using wormhole_names(2) [of W] map_of_SomeD [OF that] by force
  show "j = k"
  proof (cases "map_of (wormholeChainMap W) j")
    case None
    show ?thesis
    proof (cases "map_of (wormholeChainMap W) k")
      case None
      then have "show_nat (uint j) = show_nat (uint k)"
        using eq \<open>map_of (wormholeChainMap W) j = None\<close> by (simp add: WormholeChainID_def Itoa_def)
      then show ?thesis by (simp add: show_nat_inj flip: word_uint_eq_iff)
    next
      case (Some n)
      then have "n = ''wormhole_'' @ Itoa (uint j)"
        using eq \<open>map_of (wormholeChainMap W) j = None\<close> by (simp add: WormholeChainID_def)
      then show ?thesis using named [OF Some] by simp
    qed
  next
    case (Some n)
    show ?thesis
    proof (cases "map_of (wormholeChainMap W) k")
      case None
      then have "n = ''wormhole_'' @ Itoa (uint k)"
        using eq \<open>map_of (wormholeChainMap W) j = Some n\<close> by (simp add: WormholeChainID_def)
      then show ?thesis using named [OF Some] by simp
    next
      case (Some m)
      then show ?thesis
        using eq \<open>map_of (wormholeChainMap W) j = Some n\<close> map_of_value_inj [OF wormhole_names(1)]
        by (simp add: WormholeChainID_def)
    qed
  qed
qed simp

lemma DeriveHTTPURL_cases:
  "DeriveHTTPURL (''wss://'' @ r) = ''https://'' @ r" "DeriveHTTPURL (''ws://'' @ r) = ''http://'' @ r"
  "\<not> prefix ''wss://'' u \<Longrightarrow> \<not> prefix ''ws://'' u \<Longrightarrow> DeriveHTTPURL u = u"
  by (simp_all add: DeriveHTTPURL_def TrimPrefix_def)

section \<open>Concrete libraries\<close>

text \<open>Simple instances of the parameters, with the chain numbers of the Wormhole SDK.\<close>

definition demo_eth :: ethlib where
  "demo_eth = \<lparr>eth_Keccak256Hash = map (\<lambda>c. word_of_int (int (of_char c))),
     eth_BytesToAddress = last_n 20, eth_HexToAddress = (\<lambda>s. replicate 20 7),
     eth_AddressHex = (\<lambda>a. ''0x'' @ concat (map (\<lambda>b. Itoa (uint b)) a)),
     eth_HashHex = (\<lambda>a. ''0x'' @ concat (map (\<lambda>b. Itoa (uint b)) a))\<rparr>"

definition demo_vaa :: wormlib where
  "demo_vaa = \<lparr>vaa_IsTransfer = (\<lambda>p. p \<noteq> [] \<and> (hd p = 1 \<or> hd p = 3)),
     vaa_DecodeTransferPayloadHdr = (\<lambda>p. if length p < 101 then Inl ''short''
       else Inr \<lparr>hdr_Amount = be_value (take 32 (drop 1 p)), hdr_OriginAddress = take 32 (drop 33 p),
                 hdr_TargetChain = word_of_int (be_value (take 2 (drop 99 p)))\<rparr>),
     vaa_ChainIDSolana = 1, vaa_ChainIDEthereum = 2, vaa_ChainIDBSC = 4, vaa_ChainIDPolygon = 5,
     vaa_ChainIDAvalanche = 6, vaa_ChainIDArbitrum = 23, vaa_ChainIDOptimism = 24,
     vaa_ChainIDBase = 30\<rparr>"

definition demo_log :: "byte list \<Rightarrow> Log" where
  "demo_log bs = \<lparr>log_Address = replicate 20 9,
     log_Topics = [LogMessagePublishedTopicHash demo_eth, replicate 12 0 @ replicate 20 7],
     log_Data = bs, log_BlockNumber = 100, log_TxHash = replicate 32 5\<rparr>"

lemma demo_from_bridge: "160 \<le> length bs \<Longrightarrow> from_token_bridge demo_eth ''0x07'' (demo_log bs)"
  by (simp add: from_token_bridge_def demo_log_def demo_eth_def last_n_def)

text \<open>Data whose offset word is all ones.\<close>

definition bad_offset :: "byte list" where
  "bad_offset = replicate 64 0 @ replicate 32 255 @ replicate 64 0"

lemma bad_offset_value: "payload_offset bad_offset = 2 ^ 64 - 1"
proof -
  have "be_uint64 (take 32 (drop 64 bad_offset)) = - 1" by code_simp
  then show ?thesis by (simp add: payload_offset_def unsigned_minus_1_eq_mask mask_eq_exp_minus_1)
qed

lemma demo_offset_panics:
  "\<not> no_panic (decodeWormholeLogMessagePublished demo_eth demo_vaa ChainEthereum (demo_log bad_offset) ''0x07'')"
proof -
  have f: "from_token_bridge demo_eth ''0x07'' (demo_log bad_offset)"
    and l: "length (log_Data (demo_log bad_offset)) < 2 ^ 63"
    by (rule demo_from_bridge) (simp_all add: bad_offset_def demo_log_def)
  have d: "log_Data (demo_log bad_offset) = bad_offset" "length bad_offset = 160" by (simp_all add: demo_log_def bad_offset_def)
  show ?thesis unfolding decode_published [OF f l] d(1) by (simp add: bad_offset_value d(2) Let_def)
qed

lemma published_panics_iff_witness:
  "\<not> no_panic (decodeWormholeLogMessagePublished demo_eth demo_vaa ChainEthereum (demo_log bad_offset) ''0x07'')"
proof -
  have f: "from_token_bridge demo_eth ''0x07'' (demo_log bad_offset)"
    and l: "length (log_Data (demo_log bad_offset)) < 2 ^ 63"
    by (rule demo_from_bridge) (simp_all add: bad_offset_def demo_log_def)
  have v: "\<not> vaa_IsTransfer demo_vaa []" by (simp add: demo_vaa_def)
  have d: "log_Data (demo_log bad_offset) = bad_offset" by (simp add: demo_log_def)
  show ?thesis unfolding published_panics_iff [OF f l v] d
    by (simp add: bad_offset_value Let_def)
qed

lemma Decode_safe_unless_from_bridge_witness:
  "\<not> no_panic (Decode demo_eth (NewDecoderRegistry demo_eth demo_vaa ''0x07'') ChainEthereum (demo_log bad_offset)) \<and>
   160 \<le> length (log_Data (demo_log bad_offset))"
proof -
  have t: "hd (log_Topics (demo_log bad_offset)) = LogMessagePublishedTopicHash demo_eth"
    "LogMessagePublishedTopicHash demo_eth \<noteq> eth_Keccak256Hash demo_eth ''Approval(address,address,uint256)''"
    "log_Topics (demo_log bad_offset) \<noteq> []"
    by (simp_all add: demo_log_def LogMessagePublishedTopicHash_def demo_eth_def)
  then have "\<not> no_panic (Decode demo_eth (NewDecoderRegistry demo_eth demo_vaa ''0x07'') ChainEthereum (demo_log bad_offset))"
    using demo_offset_panics by (simp add: Decode_new)
  from this Decode_safe_unless_from_bridge [OF this] show ?thesis by blast
qed

definition demo_payload :: "byte list" where
  "demo_payload = 1 # be_bytes 32 5 @ replicate 32 3 @ replicate 34 0 @ be_bytes 2 1"

definition demo_data :: "byte list" where
  "demo_data = abi_published 42 7 demo_payload 1 (replicate 27 0)"

lemma demo_payload_length [simp]: "length demo_payload = 101"
  by (simp add: demo_payload_def)

lemma demo_data_length [simp]: "length demo_data = 288"
  by (simp add: demo_data_def abi_published_def)

lemma demo_transfer:
  "vaa_IsTransfer demo_vaa demo_payload"
  "vaa_DecodeTransferPayloadHdr demo_vaa demo_payload =
     Inr \<lparr>hdr_Amount = 5, hdr_OriginAddress = replicate 32 3, hdr_TargetChain = 1\<rparr>"
proof -
  have c: "take 32 (drop 1 demo_payload) = be_bytes 32 5" "take 32 (drop 33 demo_payload) = replicate 32 3"
    "take 2 (drop 99 demo_payload) = be_bytes 2 1"
    by (simp_all add: demo_payload_def)
  have "be_value (be_bytes 32 5) = 5" "be_value (be_bytes 2 1) = 1" by (simp_all add: be_value_bytes)
  then show "vaa_DecodeTransferPayloadHdr demo_vaa demo_payload =
     Inr \<lparr>hdr_Amount = 5, hdr_OriginAddress = replicate 32 3, hdr_TargetChain = 1\<rparr>"
    using c by (simp add: demo_vaa_def)
  show "vaa_IsTransfer demo_vaa demo_payload" by (simp add: demo_vaa_def demo_payload_def)
qed

lemma demo_log_simps:
  "length (log_Topics (demo_log bs)) = 2" "log_Data (demo_log bs) = bs"
  "eth_BytesToAddress demo_eth (log_Topics (demo_log bs) ! Suc 0) = eth_HexToAddress demo_eth tb"
  by (simp_all add: demo_log_def demo_eth_def last_n_def)

lemma decode_abi_published_witness:
  "decodeWormholeLogMessagePublished demo_eth demo_vaa ChainEthereum (demo_log demo_data) ''0x07'' =
   decodeWormholeTransferPayload demo_eth demo_vaa ChainEthereum (demo_log demo_data) demo_payload ''0x07''"
  by (rule decode_abi_published [where sq = 42 and nc = 7 and cl = 1 and padding = "replicate 27 0"])
    (simp_all add: demo_log_simps del: replicate.simps, simp_all add: demo_data_def)

lemma demo_deposit_decodes:
  "\<exists>raw. Decode demo_eth (NewDecoderRegistry demo_eth demo_vaa ''0x07'') ChainEthereum (demo_log demo_data) = Ok raw \<and>
     re_EventType raw = EventBridgeDeposit"
proof -
  let ?lg = "demo_log demo_data"
  have l: "length (log_Data ?lg) < 2 ^ 63" by (simp add: demo_log_simps)
  have "decodeWormholeLogMessagePublished demo_eth demo_vaa ChainEthereum ?lg ''0x07'' =
      decodeWormholeTransferPayload demo_eth demo_vaa ChainEthereum ?lg demo_payload ''0x07''"
    by (rule decode_abi_data [where sq = 42 and nc = 7 and cl = 1 and padding = "replicate 27 0"])
      (use l in \<open>simp_all add: demo_log_simps\<close>, simp_all add: demo_data_def)
  then obtain raw where ok: "decodeWormholeLogMessagePublished demo_eth demo_vaa ChainEthereum ?lg ''0x07'' = Ok raw"
    and ty: "re_EventType raw = EventBridgeDeposit"
    by (simp add: decodeWormholeTransferPayload_def demo_transfer Let_def)
  have "hd (log_Topics ?lg) = LogMessagePublishedTopicHash demo_eth"
    "LogMessagePublishedTopicHash demo_eth \<noteq> eth_Keccak256Hash demo_eth ''Approval(address,address,uint256)''"
    "log_Topics ?lg \<noteq> []"
    by (simp_all add: demo_log_def LogMessagePublishedTopicHash_def demo_eth_def)
  then show ?thesis using ok ty by (simp add: Decode_new)
qed

lemma bridge_deposit_origin_witness:
  "\<exists>ev. Decode demo_eth (NewDecoderRegistry demo_eth demo_vaa ''0x07'') ChainEthereum (demo_log demo_data) = Ok ev \<and>
     as_string (data_get (re_Data ev) ''amount'') = Some ''5'' \<and>
     as_string (data_get (re_Data ev) ''target_chain'') = Some ''solana''"
proof -
  let ?lg = "demo_log demo_data"
  have l: "length (log_Data ?lg) < 2 ^ 63" by (simp add: demo_log_simps)
  obtain ev where d: "Decode demo_eth (NewDecoderRegistry demo_eth demo_vaa ''0x07'') ChainEthereum ?lg = Ok ev"
    and ty: "re_EventType ev = EventBridgeDeposit" using demo_deposit_decodes by blast
  have names: "WormholeChainID demo_vaa 1 = ''solana''" "Itoa 5 = ''5''" by code_simp+
  have p: "payload_bytes (log_Data ?lg) = demo_payload"
    by (simp add: demo_log_simps demo_data_def abi_payload)
  from bridge_deposit_origin [OF l d ty] show ?thesis
    unfolding p demo_transfer(2) using d by (auto simp: names)
qed

end
