(* ===== verification/Config.thy ===== *)
theory Config
  imports Go_Strconv Go_Time
begin

text \<open>
  The configuration (\<open>internal/config/config.go\<close>): its types, defaults and validation, and the search
  that maps an environment variable to a configuration key; also \<open>splitCSV\<close> of the example client
  (\<open>cmd/client/main.go\<close>). Reading and decoding the file are koanf's work: \<open>LoadConfig\<close> starts from
  its result. The map of chains is an association list, in the order the source ranges over it.
\<close>

section \<open>Types\<close>

record PipelineConfig =
  RawEventBuffer :: int
  ChainEventBuffer :: int
  EnrichedEventBuffer :: int
  SignalBuffer :: int

record GRPCConfig =
  GPort :: int
  SubscriberBufferSize :: int

record EnricherConfig =
  Workers :: int

record ChainlinkConfig =
  CacheTTL :: duration
  StalenessThreshold :: duration

record BackoffConfig =
  bo_Initial :: duration
  bo_Max :: duration
  bo_MaxRetries :: int

record ChainConfig =
  RPCURL :: string
  Mode :: string
  PollInterval :: duration
  EventBuffer :: int
  Backoff :: BackoffConfig

record EngineConfig =
  DefaultWindowTTL :: duration
  PruneInterval :: duration
  MaxWindowSize :: int

record TuningConfig =
  BlockCacheSize :: int
  LogChannelBuffer :: int

record StageToggles =
  st_Adapter :: bool
  st_Normalizer :: bool
  st_Enricher :: bool
  st_Engine :: bool
  st_Emitter :: bool

record TracingConfig =
  SampleRatio :: float64
  BatchTimeout :: duration
  Stages :: StageToggles

record HistogramBuckets =
  LatencyMs :: "float64 list"

record MetricsConfig =
  ExportInterval :: duration
  Buckets :: HistogramBuckets

record TelemetryConfig =
  Enabled :: bool
  OTLPEndpoint :: string
  OTLPInsecure :: bool
  HTTPPort :: int
  ServiceName :: string
  ServiceVersion :: string
  Environment :: string
  Tracing :: TracingConfig
  Metrics :: MetricsConfig

record Config =
  cf_LogLevel :: string
  cf_GRPC :: GRPCConfig
  cf_Enricher :: EnricherConfig
  cf_Chainlink :: ChainlinkConfig
  cf_Engine :: EngineConfig
  cf_Pipeline :: PipelineConfig
  cf_Chains :: "(string \<times> ChainConfig) list"
  cf_Tuning :: TuningConfig
  cf_Telemetry :: TelemetryConfig

definition DefaultBlockCacheSize :: int where "DefaultBlockCacheSize = 100"
definition DefaultLogChannelBuffer :: int where "DefaultLogChannelBuffer = 256"

definition DefaultTuningConfig :: TuningConfig where
  "DefaultTuningConfig =
     \<lparr>BlockCacheSize = DefaultBlockCacheSize, LogChannelBuffer = DefaultLogChannelBuffer\<rparr>"

section \<open>Defaults\<close>

text \<open>\<open>if x == 0 { x = d }\<close>.\<close>

definition or_default :: "int \<Rightarrow> int \<Rightarrow> int" where
  "or_default x d = (if x = 0 then d else x)"

definition or_text :: "string \<Rightarrow> string \<Rightarrow> string" where
  "or_text x d = (if x = [] then d else x)"

definition default_chain :: "ChainConfig \<Rightarrow> ChainConfig" where
  "default_chain chain =
     chain\<lparr>PollInterval := or_default (PollInterval chain) (12 * Second),
           EventBuffer := or_default (EventBuffer chain) 256,
           Backoff := (Backoff chain)
             \<lparr>bo_Initial := or_default (bo_Initial (Backoff chain)) (1 * Second),
              bo_Max := or_default (bo_Max (Backoff chain)) (30 * Second),
              bo_MaxRetries := or_default (bo_MaxRetries (Backoff chain)) 10\<rparr>\<rparr>"

definition default_stages :: "StageToggles \<Rightarrow> StageToggles" where
  "default_stages s =
     (if \<not> st_Adapter s \<and> \<not> st_Normalizer s \<and> \<not> st_Enricher s \<and> \<not> st_Engine s \<and> \<not> st_Emitter s
      then \<lparr>st_Adapter = True, st_Normalizer = True, st_Enricher = True, st_Engine = True, st_Emitter = True\<rparr>
      else s)"

definition default_buckets :: "float64 list" where
  "default_buckets = map f64_of_int [1, 5, 10, 25, 50, 100, 250, 500, 1000, 5000]"

definition default_tracing :: "TracingConfig \<Rightarrow> TracingConfig" where
  "default_tracing tr =
     tr\<lparr>SampleRatio := (if f64_idx (SampleRatio tr) = 0 then f64_of_int 1 else SampleRatio tr),
        BatchTimeout := or_default (BatchTimeout tr) (5 * Second),
        Stages := default_stages (Stages tr)\<rparr>"

definition default_metrics :: "MetricsConfig \<Rightarrow> MetricsConfig" where
  "default_metrics m =
     m\<lparr>ExportInterval := or_default (ExportInterval m) (10 * Second),
       Buckets := (Buckets m)\<lparr>LatencyMs := (if length (LatencyMs (Buckets m)) = 0
                                then default_buckets else LatencyMs (Buckets m))\<rparr>\<rparr>"

definition default_telemetry :: "TelemetryConfig \<Rightarrow> TelemetryConfig" where
  "default_telemetry t =
     (let t = (if \<not> Enabled t \<and> OTLPEndpoint t = [] \<and> HTTPPort t = 0 \<and> ServiceName t = []
               then t\<lparr>Enabled := True\<rparr> else t)
      in t\<lparr>OTLPEndpoint := or_text (OTLPEndpoint t) ''localhost:4317'',
           HTTPPort := or_default (HTTPPort t) 9090,
           ServiceName := or_text (ServiceName t) ''x-chain-oracle'',
           Tracing := default_tracing (Tracing t),
           Metrics := default_metrics (Metrics t)\<rparr>)"

definition applyDefaults :: "Config \<Rightarrow> Config" where
  "applyDefaults cfg =
     cfg\<lparr>cf_GRPC := (cf_GRPC cfg)\<lparr>SubscriberBufferSize := or_default (SubscriberBufferSize (cf_GRPC cfg)) 64\<rparr>,
         cf_Chainlink := (cf_Chainlink cfg)
           \<lparr>StalenessThreshold := or_default (StalenessThreshold (cf_Chainlink cfg)) (2 * Hour)\<rparr>,
         cf_Engine := (cf_Engine cfg)
           \<lparr>DefaultWindowTTL := or_default (DefaultWindowTTL (cf_Engine cfg)) (30 * Second),
            PruneInterval := or_default (PruneInterval (cf_Engine cfg)) (5 * Second),
            MaxWindowSize := or_default (MaxWindowSize (cf_Engine cfg)) 10000\<rparr>,
         cf_Pipeline := (cf_Pipeline cfg)
           \<lparr>RawEventBuffer := or_default (RawEventBuffer (cf_Pipeline cfg)) 512,
            ChainEventBuffer := or_default (ChainEventBuffer (cf_Pipeline cfg)) 256,
            EnrichedEventBuffer := or_default (EnrichedEventBuffer (cf_Pipeline cfg)) 64,
            SignalBuffer := or_default (SignalBuffer (cf_Pipeline cfg)) 32\<rparr>,
         cf_Tuning := (cf_Tuning cfg)
           \<lparr>BlockCacheSize := or_default (BlockCacheSize (cf_Tuning cfg)) DefaultBlockCacheSize,
            LogChannelBuffer := or_default (LogChannelBuffer (cf_Tuning cfg)) DefaultLogChannelBuffer\<rparr>,
         cf_Chains := map (\<lambda>(name, chain). (name, default_chain chain)) (cf_Chains cfg),
         cf_Telemetry := default_telemetry (cf_Telemetry cfg)\<rparr>"

section \<open>Validation\<close>

datatype config_error =
    BadPort int
  | BadWorkers int
  | BadCacheTTL
  | BadStaleness
  | BadMaxWindowSize int
  | BadPruneInterval
  | BadBlockCacheSize
  | BadLogChannelBuffer
  | EmptyRPCURL string
  | BadPollInterval string
  | BadHTTPPort int
  | SamePort int
  | BadSampleRatio float64
  | DecodeError string

fun validate_chains :: "(string \<times> ChainConfig) list \<Rightarrow> config_error option" where
  "validate_chains [] = None"
| "validate_chains ((name, chain) # cs) =
     (if RPCURL chain = [] then Some (EmptyRPCURL name)
      else if PollInterval chain \<le> 0 then Some (BadPollInterval name)
      else validate_chains cs)"

definition validate_telemetry :: "int \<Rightarrow> TelemetryConfig \<Rightarrow> config_error option" where
  "validate_telemetry port t =
     (if Enabled t then
        (if HTTPPort t < 1 \<or> HTTPPort t > 65535 then Some (BadHTTPPort (HTTPPort t))
         else if HTTPPort t = port then Some (SamePort port)
         else if SampleRatio (Tracing t) < f64_of_int 0 \<or> f64_of_int 1 < SampleRatio (Tracing t)
         then Some (BadSampleRatio (SampleRatio (Tracing t)))
         else None)
      else None)"

definition Validate :: "Config \<Rightarrow> config_error option" where
  "Validate c =
     (if GPort (cf_GRPC c) < 1 \<or> GPort (cf_GRPC c) > 65535 then Some (BadPort (GPort (cf_GRPC c)))
      else if Workers (cf_Enricher c) < 1 then Some (BadWorkers (Workers (cf_Enricher c)))
      else if CacheTTL (cf_Chainlink c) \<le> 0 then Some BadCacheTTL
      else if StalenessThreshold (cf_Chainlink c) \<le> 0 then Some BadStaleness
      else if MaxWindowSize (cf_Engine c) < 1 then Some (BadMaxWindowSize (MaxWindowSize (cf_Engine c)))
      else if PruneInterval (cf_Engine c) \<le> 0 then Some BadPruneInterval
      else if BlockCacheSize (cf_Tuning c) < 1 then Some BadBlockCacheSize
      else if LogChannelBuffer (cf_Tuning c) < 1 then Some BadLogChannelBuffer
      else (case validate_chains (cf_Chains c) of
          Some e \<Rightarrow> Some e
        | None \<Rightarrow> validate_telemetry (GPort (cf_GRPC c)) (cf_Telemetry c)))"

definition LoadConfig :: "string + Config \<Rightarrow> config_error + Config" where
  "LoadConfig decoded =
     (case decoded of
        Inl e \<Rightarrow> Inl (DecodeError e)
      | Inr cfg \<Rightarrow>
          (let cfg = applyDefaults cfg
           in case Validate cfg of Some e \<Rightarrow> Inl e | None \<Rightarrow> Inr cfg))"

section \<open>Environment variables\<close>

fun search_key :: "string list \<Rightarrow> string list \<Rightarrow> string \<Rightarrow> string \<Rightarrow> string" where
  "search_key existing [] current best = (if current \<in> set existing then current else best)"
| "search_key existing (p # ps) current best =
     (if current = [] then search_key existing ps p best
      else search_key existing ps (current @ ''.'' @ p)
             (search_key existing ps (current @ ''_'' @ p) best))"

definition bestKeyMatch :: "string \<Rightarrow> string list \<Rightarrow> string" where
  "bestKeyMatch envKey existingKeys =
     (let parts = split_on CHR ''_'' envKey in
      if length parts = 1 then envKey
      else (let best = search_key existingKeys parts [] []
            in if best \<noteq> [] then best else ReplaceAll envKey CHR ''_'' CHR ''.''))"

text \<open>\<open>strings.ToLower\<close>: a string of ASCII bytes is lowered byte by byte, any other by the Unicode tables, which are a
  parameter.\<close>

definition ToLower :: "(string \<Rightarrow> string) \<Rightarrow> string \<Rightarrow> string" where
  "ToLower uni s = (if list_all (\<lambda>c. (of_char c :: int) < 128) s then lower_ascii s else uni s)"

definition env_key :: "(string \<Rightarrow> string) \<Rightarrow> string list \<Rightarrow> string \<Rightarrow> string" where
  "env_key uni existingKeys s = bestKeyMatch (ToLower uni (TrimPrefix s ''ORACLE_'')) existingKeys"

text \<open>
  \<open>Load\<close>, from the file on: koanf parses the file, lists the variables with the prefix \<open>ORACLE_\<close>, whose names the code turns into
  keys (a variable whose key is blank is left out), merges the two and decodes the result. What it parses, and what
  it makes of the two, are parameters.
\<close>

record 'v koanf =
  ko_file :: "string + (string \<times> 'v) list"
  ko_environ :: "(string \<times> string) list"
  ko_unmarshal :: "(string \<times> 'v) list \<Rightarrow> (string \<times> string) list \<Rightarrow> string + Config"

definition env_settings :: "(string \<Rightarrow> string) \<Rightarrow> string list \<Rightarrow> (string \<times> string) list \<Rightarrow> (string \<times> string) list" where
  "env_settings uni existingKeys environ =
     filter (\<lambda>(key, v). key \<noteq> [])
       (map (\<lambda>(s, v). (env_key uni existingKeys s, v)) (filter (\<lambda>(s, v). prefix ''ORACLE_'' s) environ))"

definition Load_file :: "(string \<Rightarrow> string) \<Rightarrow> 'v koanf \<Rightarrow> config_error + Config" where
  "Load_file uni k =
     (case ko_file k of
        Inl err \<Rightarrow> Inl (DecodeError err)
      | Inr settings \<Rightarrow>
          (let existingKeys = map fst settings
           in LoadConfig (ko_unmarshal k settings (env_settings uni existingKeys (ko_environ k)))))"

section \<open>The client's flags\<close>

fun split_items :: "string list \<Rightarrow> string list" where
  "split_items [] = []"
| "split_items (p # ps) =
     (let trimmed = TrimSpace p
      in if trimmed \<noteq> [] then trimmed # split_items ps else split_items ps)"

definition splitCSV :: "string \<Rightarrow> string list" where
  "splitCSV s = (if s = [] then [] else split_items (split_on CHR '','' s))"

section \<open>What the defaults do\<close>

lemma or_default_idem [simp]: "or_default (or_default x d) d = or_default x d"
  by (simp add: or_default_def)

lemma or_text_idem [simp]: "or_text (or_text x d) d = or_text x d"
  by (simp add: or_text_def)

lemma or_default_keep [simp]: "x \<noteq> 0 \<Longrightarrow> or_default x d = x"
  by (simp add: or_default_def)

lemma default_chain_idem [simp]: "default_chain (default_chain c) = default_chain c"
  by (simp add: default_chain_def)

lemma default_stages_idem [simp]: "default_stages (default_stages s) = default_stages s"
  by (simp add: default_stages_def)

lemma one_not_zero: "f64_idx (f64_of_int 1) \<noteq> 0"
  by code_simp

lemma default_buckets_nonempty: "default_buckets \<noteq> []"
  by (simp add: default_buckets_def)

lemma default_tracing_idem [simp]: "default_tracing (default_tracing t) = default_tracing t"
  by (simp add: default_tracing_def one_not_zero)

lemma default_metrics_idem [simp]: "default_metrics (default_metrics t) = default_metrics t"
  by (simp add: default_metrics_def default_buckets_nonempty)

lemma default_telemetry_eq:
  "default_telemetry t =
     t\<lparr>Enabled := (Enabled t \<or> (OTLPEndpoint t = [] \<and> HTTPPort t = 0 \<and> ServiceName t = [])),
       OTLPEndpoint := or_text (OTLPEndpoint t) ''localhost:4317'',
       HTTPPort := or_default (HTTPPort t) 9090,
       ServiceName := or_text (ServiceName t) ''x-chain-oracle'',
       Tracing := default_tracing (Tracing t), Metrics := default_metrics (Metrics t)\<rparr>"
  by (cases t) (auto simp: default_telemetry_def Let_def)

lemma default_telemetry_idem [simp]: "default_telemetry (default_telemetry t) = default_telemetry t"
proof -
  have "or_default (HTTPPort t) 9090 \<noteq> 0" by (simp add: or_default_def)
  then show ?thesis by (simp add: default_telemetry_eq)
qed

text \<open>Filling in the defaults twice is the same as once: a default is never itself replaced.\<close>

theorem applyDefaults_idempotent: "applyDefaults (applyDefaults cfg) = applyDefaults cfg"
  by (simp add: applyDefaults_def split_def)

section \<open>What validation accepts\<close>

definition valid_chain :: "ChainConfig \<Rightarrow> bool" where
  "valid_chain chain \<longleftrightarrow> RPCURL chain \<noteq> [] \<and> 0 < PollInterval chain"

definition valid_telemetry :: "int \<Rightarrow> TelemetryConfig \<Rightarrow> bool" where
  "valid_telemetry port t \<longleftrightarrow> (Enabled t \<longrightarrow>
     1 \<le> HTTPPort t \<and> HTTPPort t \<le> 65535 \<and> HTTPPort t \<noteq> port \<and>
     \<not> SampleRatio (Tracing t) < f64_of_int 0 \<and> \<not> f64_of_int 1 < SampleRatio (Tracing t))"

lemma validate_chains_None: "validate_chains cs = None \<longleftrightarrow> (\<forall>(name, chain)\<in>set cs. valid_chain chain)"
  by (induction cs rule: validate_chains.induct) (auto simp: valid_chain_def not_le)

lemma validate_telemetry_None: "validate_telemetry port t = None \<longleftrightarrow> valid_telemetry port t"
  by (auto simp: validate_telemetry_def valid_telemetry_def not_less)

lemma Validate_None:
  "Validate c = None \<longleftrightarrow>
     1 \<le> GPort (cf_GRPC c) \<and> GPort (cf_GRPC c) \<le> 65535 \<and> 1 \<le> Workers (cf_Enricher c) \<and>
     0 < CacheTTL (cf_Chainlink c) \<and> 0 < StalenessThreshold (cf_Chainlink c) \<and>
     1 \<le> MaxWindowSize (cf_Engine c) \<and> 0 < PruneInterval (cf_Engine c) \<and>
     1 \<le> BlockCacheSize (cf_Tuning c) \<and> 1 \<le> LogChannelBuffer (cf_Tuning c) \<and>
     (\<forall>(name, chain)\<in>set (cf_Chains c). valid_chain chain) \<and>
     valid_telemetry (GPort (cf_GRPC c)) (cf_Telemetry c)"
  unfolding Validate_def validate_chains_None [symmetric] validate_telemetry_None [symmetric]
  by (simp split: option.split)

text \<open>A configuration that loads has gone through the defaults and keeps every bound the program
  relies on: ports in range and distinct, at least one enricher worker, positive cache and staleness
  times, a positive window cap and prune interval, positive cache and log buffer sizes, and an
  address and a poll interval for every chain; anything else is refused with an error.\<close>

theorem LoadConfig_valid:
  "LoadConfig decoded = Inr c \<longleftrightarrow>
     (\<exists>raw. decoded = Inr raw \<and> c = applyDefaults raw \<and>
       1 \<le> GPort (cf_GRPC c) \<and> GPort (cf_GRPC c) \<le> 65535 \<and> 1 \<le> Workers (cf_Enricher c) \<and>
       0 < CacheTTL (cf_Chainlink c) \<and> 0 < StalenessThreshold (cf_Chainlink c) \<and>
       1 \<le> MaxWindowSize (cf_Engine c) \<and> 0 < PruneInterval (cf_Engine c) \<and>
       1 \<le> BlockCacheSize (cf_Tuning c) \<and> 1 \<le> LogChannelBuffer (cf_Tuning c) \<and>
       list_all (\<lambda>(name, chain). valid_chain chain) (cf_Chains c) \<and>
       valid_telemetry (GPort (cf_GRPC c)) (cf_Telemetry c))"
  unfolding LoadConfig_def list_all_iff Validate_None [symmetric]
  by (auto simp: Let_def split: sum.split option.split)

section \<open>What the search for a key finds\<close>

fun joins :: "string \<Rightarrow> string list \<Rightarrow> string list" where
  "joins cur [] = [cur]"
| "joins cur (p # ps) = joins (cur @ ''_'' @ p) ps @ joins (cur @ ''.'' @ p) ps"

definition last_known :: "string list \<Rightarrow> string \<Rightarrow> string list \<Rightarrow> string" where
  "last_known ex best ks = foldl (\<lambda>b k. if k \<in> set ex then k else b) best ks"

lemma search_key_joins:
  "cur \<noteq> [] \<Longrightarrow> search_key ex ps cur best = last_known ex best (joins cur ps)"
  by (induction ps arbitrary: cur best) (simp_all add: last_known_def)

lemma last_known_cases:
  "(\<exists>k\<in>set ks. k \<in> set ex) \<Longrightarrow> last_known ex best ks \<in> set ex \<and> last_known ex best ks \<in> set ks"
  "\<not> (\<exists>k\<in>set ks. k \<in> set ex) \<Longrightarrow> last_known ex best ks = best"
  by (induction ks rule: rev_induct) (auto simp: last_known_def)

abbreviation dots :: "string \<Rightarrow> string" where
  "dots k \<equiv> ReplaceAll k CHR ''.'' CHR ''_''"

lemma dots_append_iff:
  "CHR ''_'' \<notin> set p \<Longrightarrow> CHR ''.'' \<notin> set p \<Longrightarrow> dots k = p @ rest \<longleftrightarrow> (\<exists>r. k = p @ r \<and> dots r = rest)"
proof (induction p arbitrary: k)
  case Nil
  then show ?case by simp
next
  case (Cons c p)
  show ?case
  proof (cases k)
    case Nil
    then show ?thesis by (simp add: ReplaceAll_def)
  next
    case (Cons d k')
    have "dots k = (c # p) @ rest \<longleftrightarrow> d = c \<and> dots k' = p @ rest"
      using Cons.prems Cons by (auto simp: ReplaceAll_def)
    then show ?thesis using Cons.IH [of k'] Cons.prems Cons by auto
  qed
qed

lemma dots_sep_iff: "dots k = CHR ''_'' # rest \<longleftrightarrow> (\<exists>c r. k = c # r \<and> c \<in> {CHR ''_'', CHR ''.''} \<and> dots r = rest)"
  by (cases k) (auto simp: ReplaceAll_def)

lemma joins_iff:
  "(\<forall>p\<in>set ps. CHR ''_'' \<notin> set p \<and> CHR ''.'' \<notin> set p) \<Longrightarrow>
   k \<in> set (joins cur ps) \<longleftrightarrow>
     (\<exists>r. k = cur @ r \<and> dots r = concat (map (\<lambda>p. CHR ''_'' # p) ps))"
proof (induction ps arbitrary: cur)
  case Nil
  then show ?case by (auto simp: ReplaceAll_def)
next
  case (Cons p ps)
  let ?rest = "concat (map (\<lambda>p. CHR ''_'' # p) ps)"
  have "dots r = CHR ''_'' # p @ ?rest \<longleftrightarrow>
      (\<exists>c r'. r = c # p @ r' \<and> c \<in> {CHR ''_'', CHR ''.''} \<and> dots r' = ?rest)" for r
    using Cons.prems by (auto simp: dots_sep_iff dots_append_iff)
  then show ?case using Cons by auto
qed

lemma join_as_concat: "join_with CHR ''_'' (p # ps) = p @ concat (map (\<lambda>p. CHR ''_'' # p) ps)"
  by (induction ps arbitrary: p) auto

text \<open>The search for the configuration key that an environment variable means is complete and sound:
  if some existing key reads like the variable once its dots are replaced by underscores, one of
  those keys is chosen; otherwise every underscore becomes a dot. So a variable always reaches an
  existing setting if it can mean one.\<close>

theorem bestKeyMatch_spec:
  assumes "CHR ''.'' \<notin> set envKey" "CHR ''_'' \<in> set envKey" "hd envKey \<noteq> CHR ''_''"
  shows "(if \<exists>k\<in>set existing. dots k = envKey
    then bestKeyMatch envKey existing \<in> set existing \<and> dots (bestKeyMatch envKey existing) = envKey
    else bestKeyMatch envKey existing = ReplaceAll envKey CHR ''_'' CHR ''.'')"
proof -
  obtain p ps where s: "split_on CHR ''_'' envKey = p # ps"
    using split_on_nonempty [of "CHR ''_''" envKey] by (cases "split_on CHR ''_'' envKey") auto
  have e: "envKey = join_with CHR ''_'' (p # ps)"
    using join_split [of "CHR ''_''" envKey] s by simp
  have ps: "ps \<noteq> []" using e assms(2) split_no_sep [of p "CHR ''_''" envKey] s by (cases ps) auto
  then have p: "p \<noteq> []" using e assms(3) by (cases p; cases ps) auto
  have e': "envKey = p @ concat (map (\<lambda>p. CHR ''_'' # p) ps)" using e by (simp only: join_as_concat)
  have us: "CHR ''_'' \<notin> set q" if "q \<in> set (p # ps)" for q
    using split_no_sep [of q "CHR ''_''" envKey] s that by simp
  have nodot: "CHR ''.'' \<notin> set q" if "q \<in> set (p # ps)" for q using assms(1) that ps unfolding e' by auto
  have j: "k \<in> set (joins p ps) \<longleftrightarrow> dots k = envKey" for k
    using joins_iff [of ps k p] dots_append_iff [of p k "concat (map (\<lambda>p. CHR ''_'' # p) ps)"] us nodot
    by (auto simp: e')
  have b: "bestKeyMatch envKey existing =
      (let best = last_known existing [] (joins p ps)
       in if best \<noteq> [] then best else ReplaceAll envKey CHR ''_'' CHR ''.'')"
    using ps p by (simp add: bestKeyMatch_def s search_key_joins)
  have ne: "k \<noteq> []" if "k \<in> set (joins p ps)" for k using that p e' by (auto simp: j ReplaceAll_def)
  show ?thesis
  proof (cases "\<exists>k\<in>set existing. dots k = envKey")
    case True
    then have "\<exists>k\<in>set (joins p ps). k \<in> set existing" using j by blast
    from last_known_cases(1) [OF this, of "[]"] show ?thesis using True ne by (auto simp: b j Let_def)
  next
    case False
    then have "\<not> (\<exists>k\<in>set (joins p ps). k \<in> set existing)" using j by blast
    from last_known_cases(2) [OF this, of "[]"] show ?thesis using False by (simp add: b Let_def)
  qed
qed

lemma dots_replaced: "CHR ''.'' \<notin> set u \<Longrightarrow> dots (ReplaceAll u CHR ''_'' CHR ''.'') = u"
  by (induction u) (auto simp: ReplaceAll_def)

lemma bestKeyMatch_total:
  assumes "envKey \<noteq> []" "CHR ''.'' \<notin> set envKey" "hd envKey \<noteq> CHR ''_''"
  shows "(if \<exists>k\<in>set existing. dots k = envKey
    then bestKeyMatch envKey existing \<in> set existing \<and> dots (bestKeyMatch envKey existing) = envKey
    else bestKeyMatch envKey existing = ReplaceAll envKey CHR ''_'' CHR ''.'')"
proof (cases "CHR ''_'' \<in> set envKey")
  case False
  then have same: "bestKeyMatch envKey existing = envKey" "ReplaceAll envKey CHR ''_'' CHR ''.'' = envKey"
    by (auto simp: split_on_single bestKeyMatch_def ReplaceAll_def intro!: map_idI)
  have one: "k = envKey" if "dots k = envKey" for k
    using that False by (induction k arbitrary: envKey) (auto simp: ReplaceAll_def)
  have "dots envKey = envKey" using assms(2) by (auto simp: ReplaceAll_def intro!: map_idI)
  then have "dots k = envKey \<longleftrightarrow> k = envKey" for k using one by blast
  then show ?thesis by (simp add: same)
qed (rule bestKeyMatch_spec [OF assms(2) _ assms(3)])

text \<open>C40. A variable \<open>ORACLE_\<close>, followed by a setting's key in any case with its dots as underscores, reaches that setting, or
  another one whose key reads the same; a value is never lost to the ambiguity of the underscore. But if the file
  does not mention the setting, the value goes to a key with a dot for every underscore, which no
  setting with an underscore in its name has. This is for names that, after the prefix and in lower case, are not empty,
  contain no dot and do not begin with an underscore.\<close>

theorem environment_reaches_settings:
  assumes "(''ORACLE_'' @ u, v) \<in> set environ" "ToLower uni u \<noteq> []" "CHR ''.'' \<notin> set (ToLower uni u)"
    and "hd (ToLower uni u) \<noteq> CHR ''_''"
  shows "if \<exists>k\<in>set existing. dots k = ToLower uni u
    then \<exists>k\<in>set existing. dots k = ToLower uni u \<and> (k, v) \<in> set (env_settings uni existing environ)
    else (ReplaceAll (ToLower uni u) CHR ''_'' CHR ''.'', v) \<in> set (env_settings uni existing environ) \<and>
      ReplaceAll (ToLower uni u) CHR ''_'' CHR ''.'' \<notin> set existing"
proof -
  let ?key = "bestKeyMatch (ToLower uni u) existing"
  have key: "env_key uni existing (''ORACLE_'' @ u) = ?key" by (simp add: env_key_def TrimPrefix_def)
  note best = bestKeyMatch_total [OF assms(2-4), of existing]
  have "dots ?key = ToLower uni u" using best dots_replaced [OF assms(3)] by (auto split: if_splits)
  then have "?key \<noteq> []" using assms(2) by (auto simp: ReplaceAll_def)
  then have "(?key, v) \<in> set (env_settings uni existing environ)"
    using assms(1) key by (force simp: env_settings_def)
  then show ?thesis using best dots_replaced [OF assms(3)] by (auto split: if_splits)
qed

lemma environment_reaches_settings_witness:
  "(''chains.ethereum.rpc_url'', ''wss://other'') \<in> set (env_settings id [''log_level'', ''chains.ethereum.rpc_url'']
     [(''HOME'', ''/root''), (''ORACLE_CHAINS_ETHEREUM_RPC_URL'', ''wss://other'')]) \<and>
   (''engine.max.window.size'', ''5'') \<in> set (env_settings id [''log_level''] [(''ORACLE_ENGINE_MAX_WINDOW_SIZE'', ''5'')])"
proof -
  have l: "ToLower id ''CHAINS_ETHEREUM_RPC_URL'' = ''chains_ethereum_rpc_url''"
    "ToLower id ''ENGINE_MAX_WINDOW_SIZE'' = ''engine_max_window_size''" by code_simp+
  show ?thesis
    using environment_reaches_settings [of "''CHAINS_ETHEREUM_RPC_URL''" "''wss://other''"
        "[(''HOME'', ''/root''), (''ORACLE_CHAINS_ETHEREUM_RPC_URL'', ''wss://other'')]" id "[''log_level'', ''chains.ethereum.rpc_url'']"]
      environment_reaches_settings [of "''ENGINE_MAX_WINDOW_SIZE''" "''5''" "[(''ORACLE_ENGINE_MAX_WINDOW_SIZE'', ''5'')]" id "[''log_level'']"]
    by (simp add: l ReplaceAll_def)
qed

lemma splitCSV_eq: "splitCSV s = filter (\<lambda>t. t \<noteq> []) (map TrimSpace (split_on CHR '','' s))"
proof -
  have "split_items ps = filter (\<lambda>t. t \<noteq> []) (map TrimSpace ps)" for ps
    by (induction ps) (auto simp: Let_def)
  moreover have "TrimSpace [] = []" by code_simp
  ultimately show ?thesis by (simp add: splitCSV_def)
qed

section \<open>What validation misses, and what the defaults override\<close>

definition demo_config :: "int \<Rightarrow> bool \<Rightarrow> string \<Rightarrow> Config" where
  "demo_config rawBuffer enabled env =
     \<lparr>cf_LogLevel = ''info'', cf_GRPC = \<lparr>GPort = 50051, SubscriberBufferSize = 0\<rparr>,
      cf_Enricher = \<lparr>Workers = 4\<rparr>, cf_Chainlink = \<lparr>CacheTTL = 30 * Second, StalenessThreshold = 0\<rparr>,
      cf_Engine = \<lparr>DefaultWindowTTL = 0, PruneInterval = 0, MaxWindowSize = 0\<rparr>,
      cf_Pipeline = \<lparr>RawEventBuffer = rawBuffer, ChainEventBuffer = 0, EnrichedEventBuffer = 0,
                     SignalBuffer = 0\<rparr>,
      cf_Chains = [(''ethereum'', \<lparr>RPCURL = ''wss://node'', Mode = [], PollInterval = 0, EventBuffer = 0,
                     Backoff = \<lparr>bo_Initial = 0, bo_Max = 0, bo_MaxRetries = 0\<rparr>\<rparr>)],
      cf_Tuning = \<lparr>BlockCacheSize = 0, LogChannelBuffer = 0\<rparr>,
      cf_Telemetry = \<lparr>Enabled = enabled, OTLPEndpoint = [], OTLPInsecure = False, HTTPPort = 0,
        ServiceName = [], ServiceVersion = [], Environment = env,
        Tracing = \<lparr>SampleRatio = f64_of_int 0, BatchTimeout = 0,
          Stages = \<lparr>st_Adapter = False, st_Normalizer = False, st_Enricher = False,
                    st_Engine = False, st_Emitter = False\<rparr>\<rparr>,
        Metrics = \<lparr>ExportInterval = 0, Buckets = \<lparr>LatencyMs = []\<rparr>\<rparr>\<rparr>\<rparr>"

lemma ratio_one: "\<not> f64_of_int 1 < f64_of_int 0" "\<not> f64_of_int 1 < f64_of_int 1" "f64_idx (f64_of_int 0) = 0"
  by code_simp+

lemma demo_config_valid: "Validate (applyDefaults (demo_config n b env)) = None"
  by (simp add: Validate_None applyDefaults_def demo_config_def default_telemetry_eq default_tracing_def
      valid_telemetry_def valid_chain_def default_chain_def or_default_def ratio_one time_units
      DefaultBlockCacheSize_def DefaultLogChannelBuffer_def)

lemma demo_config_loads: "LoadConfig (Inr (demo_config n b env)) = Inr (applyDefaults (demo_config n b env))"
  by (simp add: LoadConfig_def demo_config_valid Let_def)

text \<open>Validation does not look at the channel buffers: whatever configuration loads, it still loads
  when every buffer of the pipeline is replaced by any number other than zero, negative ones
  included, and keeps them as given, although \<open>make\<close> panics on a negative size when the pipeline is
  built.\<close>

lemma negative_buffer_loads:
  assumes "LoadConfig (Inr raw) = Inr c" "RawEventBuffer pl \<noteq> 0" "ChainEventBuffer pl \<noteq> 0"
    "EnrichedEventBuffer pl \<noteq> 0" "SignalBuffer pl \<noteq> 0"
  shows "LoadConfig (Inr (raw\<lparr>cf_Pipeline := pl\<rparr>)) = Inr (c\<lparr>cf_Pipeline := pl\<rparr>)"
proof -
  have v: "Validate (applyDefaults raw) = None" and c: "c = applyDefaults raw"
    using assms(1) by (auto simp: LoadConfig_def Let_def split: option.splits)
  have "pl\<lparr>RawEventBuffer := RawEventBuffer pl, ChainEventBuffer := ChainEventBuffer pl,
      EnrichedEventBuffer := EnrichedEventBuffer pl, SignalBuffer := SignalBuffer pl\<rparr> = pl" by simp
  then have e: "applyDefaults (raw\<lparr>cf_Pipeline := pl\<rparr>) = (applyDefaults raw)\<lparr>cf_Pipeline := pl\<rparr>"
    using assms(2-5) by (simp add: applyDefaults_def)
  have "Validate ((applyDefaults raw)\<lparr>cf_Pipeline := pl\<rparr>) = Validate (applyDefaults raw)"
    by (simp add: Validate_def cong: option.case_cong)
  then show ?thesis using v by (simp add: LoadConfig_def e c)
qed

text \<open>Telemetry cannot be switched off by \<open>enabled = false\<close> unless one of endpoint, port and service
  name is set too: whatever else the section says (an environment, a sampling ratio, stages,
  metrics), a configuration without those three that loads has telemetry on at port 9090; and
  stages that are all switched off are all switched on.\<close>

theorem disabled_telemetry_is_enabled:
  assumes "LoadConfig (Inr raw) = Inr c" "\<not> Enabled (cf_Telemetry raw)" "OTLPEndpoint (cf_Telemetry raw) = []"
    "HTTPPort (cf_Telemetry raw) = 0" "ServiceName (cf_Telemetry raw) = []"
  shows "Enabled (cf_Telemetry c) \<and> HTTPPort (cf_Telemetry c) = 9090 \<and>
    Environment (cf_Telemetry c) = Environment (cf_Telemetry raw) \<and>
    (st_Adapter (Stages (Tracing (cf_Telemetry c))) \<or> st_Normalizer (Stages (Tracing (cf_Telemetry c))) \<or>
     st_Enricher (Stages (Tracing (cf_Telemetry c))) \<or> st_Engine (Stages (Tracing (cf_Telemetry c))) \<or>
     st_Emitter (Stages (Tracing (cf_Telemetry c))))"
proof -
  have c: "c = applyDefaults raw"
    using assms(1) by (auto simp: LoadConfig_def Let_def split: option.splits)
  show ?thesis
    using assms(2-5) by (auto simp: c applyDefaults_def default_telemetry_eq default_tracing_def
        default_stages_def or_default_def)
qed

lemma disabled_telemetry_is_enabled_witness:
  "Enabled (cf_Telemetry (applyDefaults (demo_config 512 False ''staging'')))"
  using disabled_telemetry_is_enabled [OF demo_config_loads, of 512 False "''staging''"]
  by (simp add: demo_config_def)

end
