(* ===== verification/Chainlink.thy ===== *)
theory Chainlink
  imports Registry Decoder Config
begin

text \<open>
  The Chainlink price provider (\<open>internal/price/chainlink/chainlink.go\<close>) and the interface it
  implements (\<open>internal/price/provider.go\<close>). The node is reached through \<open>CallContract\<close> of
  go-ethereum, a parameter. Prices are computed with \<open>math/big\<close> floats: the quotient is rounded to
  the precision of the answer and then once more to a \<open>float64\<close>, and the model does the same.
\<close>

section \<open>Dividing by a power of ten\<close>

text \<open>\<open>math.Pow10\<close> for the exponents \<open>0\<close> to \<open>308\<close>: the product of two table entries.\<close>

definition Pow10 :: "int \<Rightarrow> float64" where
  "Pow10 n = f64_of_int (10 ^ nat (32 * (n div 32))) * f64_of_int (10 ^ nat (n mod 32))"

text \<open>\<open>n / d\<close> rounded to \<open>p\<close> bits, ties to even.\<close>

definition round_bits :: "int \<Rightarrow> int \<Rightarrow> int \<Rightarrow> int" where
  "round_bits p n d =
     (let s = bitlen (n div d) - p
      in if 0 \<le> s then half_even n (d * 2 ^ nat s) * 2 ^ nat s else half_even n d)"

text \<open>
  \<open>new(big.Float).SetInt(a)\<close> has the precision of \<open>a\<close>, at least 64 bits, and \<open>Quo\<close> rounds to it;
  \<open>Float64\<close> rounds to a \<open>float64\<close>. Magnitudes are counted in units of \<open>2^-1074\<close>, below which the
  quotient of an integer by at most \<open>10^255\<close> has more than its precision in bits.
\<close>

definition scaled_price :: "int \<Rightarrow> float64 \<Rightarrow> float64" where
  "scaled_price answer divisor =
     (if answer = 0 then f64_of_int 0
      else (let p = max 64 (bitlen \<bar>answer\<bar>)
            in f64_round (answer < 0) (round_bits p (\<bar>answer\<bar> * 2 ^ 2148) (f64_mag divisor)) 1))"

section \<open>The feeds\<close>

record RoundData =
  rd_Answer :: int
  rd_UpdatedAt :: int

record ContractCaller =
  caller_Decimals :: "string \<Rightarrow> string + 8 word"
  caller_LatestRoundData :: "string \<Rightarrow> string + RoundData"

record CallMsg =
  msg_To :: Address
  msg_Data :: "byte list"

datatype caller_error = CallFailed string | DecimalsLength int | RoundDataLength int

text \<open>The selectors of \<open>decimals()\<close> and \<open>latestRoundData()\<close>, as the hexadecimal literals give them.\<close>

definition decimals_selector :: "byte list" where
  "decimals_selector = [0x31, 0x3c, 0xe5, 0x67]"

definition latestRoundData_selector :: "byte list" where
  "latestRoundData_selector = [0xfe, 0xaf, 0x96, 0x8c]"

definition EthCaller_Decimals ::
  "ethlib \<Rightarrow> (CallMsg \<Rightarrow> string + byte list) \<Rightarrow> string \<Rightarrow> caller_error + 8 word" where
  "EthCaller_Decimals E CallContract feedAddr =
     (let addr = eth_HexToAddress E feedAddr;
          msg = \<lparr>msg_To = addr, msg_Data = decimals_selector\<rparr>
      in case CallContract msg of
           Inl err \<Rightarrow> Inl (CallFailed err)
         | Inr res \<Rightarrow>
             (if length res < 32 then Inl (DecimalsLength (int (length res)))
              else Inr (ucast (be_uint64 res))))"

definition EthCaller_LatestRoundData ::
  "ethlib \<Rightarrow> (CallMsg \<Rightarrow> string + byte list) \<Rightarrow> string \<Rightarrow> caller_error + RoundData" where
  "EthCaller_LatestRoundData E CallContract feedAddr =
     (let addr = eth_HexToAddress E feedAddr;
          msg = \<lparr>msg_To = addr, msg_Data = latestRoundData_selector\<rparr>
      in case CallContract msg of
           Inl err \<Rightarrow> Inl (CallFailed err)
         | Inr res \<Rightarrow>
             (if length res < 160 then Inl (RoundDataLength (int (length res)))
              else Inr \<lparr>rd_Answer = be_value (take 32 (drop 32 res)),
                        rd_UpdatedAt = be_value (take 32 (drop 96 res))\<rparr>))"

section \<open>The provider\<close>

record cachedPrice =
  cp_price :: float64
  cp_expiresAt :: time

record Provider =
  pv_cfg :: ChainlinkConfig
  pv_reg :: Registry
  pv_chain :: ChainID
  pv_cache :: "string \<rightharpoonup> cachedPrice"
  pv_decimals :: "string \<rightharpoonup> 8 word"

definition NewWithCaller :: "ChainlinkConfig \<Rightarrow> Registry \<Rightarrow> ChainID \<Rightarrow> Provider" where
  "NewWithCaller cfg reg chain =
     \<lparr>pv_cfg = cfg, pv_reg = reg, pv_chain = chain, pv_cache = Map.empty, pv_decimals = Map.empty\<rparr>"

text \<open>\<open>New\<close> passes a caller that asks the node, with the texts of its errors; the caller is not kept in the record
  but handed to every lookup.\<close>

definition caller_error_text :: "caller_error \<Rightarrow> string" where
  "caller_error_text e =
     (case e of CallFailed err \<Rightarrow> err
      | DecimalsLength n \<Rightarrow> ''unexpected decimals response length: '' @ Itoa n
      | RoundDataLength n \<Rightarrow> ''unexpected latestRoundData response length: '' @ Itoa n)"

definition NewEthCaller :: "ethlib \<Rightarrow> (CallMsg \<Rightarrow> string + byte list) \<Rightarrow> ContractCaller" where
  "NewEthCaller E CallContract =
     \<lparr>caller_Decimals = (\<lambda>feedAddr. map_sum caller_error_text id (EthCaller_Decimals E CallContract feedAddr)),
      caller_LatestRoundData = (\<lambda>feedAddr. map_sum caller_error_text id (EthCaller_LatestRoundData E CallContract feedAddr))\<rparr>"

definition New :: "ChainlinkConfig \<Rightarrow> Registry \<Rightarrow> ChainID \<Rightarrow> Provider" where
  "New cfg reg chain = NewWithCaller cfg reg chain"

datatype price_error =
    NoPriceFeed string ChainID
  | DecimalsError string string
  | RoundError string string
  | StalePrice string duration

definition getDecimals :: "ContractCaller \<Rightarrow> string \<Rightarrow> Provider \<Rightarrow> Provider \<times> (string + 8 word)" where
  "getDecimals caller feedAddr p =
     (case pv_decimals p feedAddr of
        Some d \<Rightarrow> (p, Inr d)
      | None \<Rightarrow>
          (case caller_Decimals caller feedAddr of
             Inr d \<Rightarrow> (p\<lparr>pv_decimals := (pv_decimals p)(feedAddr \<mapsto> d)\<rparr>, Inr d)
           | Inl err \<Rightarrow> (p, Inl err)))"

text \<open>\<open>time.Since\<close>: the difference, at most and at least the longest duration.\<close>

definition time_sub :: "time \<Rightarrow> time \<Rightarrow> duration" where
  "time_sub t u = max (- (2 ^ 63)) (min (2 ^ 63 - 1) (t - u))"

text \<open>\<open>x.Int64()\<close> of a big integer keeps its low 64 bits; \<open>time.Unix\<close> counts seconds.\<close>

definition unix_time :: "int \<Rightarrow> time" where
  "unix_time secs = i64 secs * 10 ^ 9"

text \<open>The clock is read when the cache is looked up, when the age is checked, and when the result is
  stored: \<open>now1\<close>, \<open>now2\<close>, \<open>now3\<close>.\<close>

record clock3 =
  now1 :: time
  now2 :: time
  now3 :: time

definition GetPriceUSD ::
  "ContractCaller \<Rightarrow> clock3 \<Rightarrow> string \<Rightarrow> Provider \<Rightarrow> Provider \<times> (price_error + float64)" where
  "GetPriceUSD caller clk tok p =
     (case LookupPriceFeed (pv_reg p) (pv_chain p) tok of
        None \<Rightarrow> (p, Inl (NoPriceFeed tok (pv_chain p)))
      | Some feed \<Rightarrow>
          (let addr = pf_Address feed;
               hit = (case pv_cache p addr of
                        Some cached \<Rightarrow> if now1 clk < cp_expiresAt cached then Some (cp_price cached) else None
                      | None \<Rightarrow> None)
           in case hit of
                Some price \<Rightarrow> (p, Inr price)
              | None \<Rightarrow>
                  (case getDecimals caller addr p of
                     (p, Inl err) \<Rightarrow> (p, Inl (DecimalsError tok err))
                   | (p, Inr decimals) \<Rightarrow>
                       (case caller_LatestRoundData caller addr of
                          Inl err \<Rightarrow> (p, Inl (RoundError tok err))
                        | Inr rnd \<Rightarrow>
                            (let updatedTime = unix_time (rd_UpdatedAt rnd) in
                             if time_sub (now2 clk) updatedTime > StalenessThreshold (pv_cfg p)
                             then (p, Inl (StalePrice tok (time_sub (now2 clk) updatedTime)))
                             else (let price = scaled_price (rd_Answer rnd) (Pow10 (uint decimals))
                               in (p\<lparr>pv_cache := (pv_cache p)(addr \<mapsto>
                                       \<lparr>cp_price = price, cp_expiresAt = now3 clk + CacheTTL (pv_cfg p)\<rparr>)\<rparr>,
                                   Inr price)))))))"

section \<open>The price\<close>

text \<open>Integers with at most 53 significant bits are floats exactly.\<close>

lemma times_one:
  assumes "f64_finite y"
  shows "f64_of_int 1 * y = y"
proof -
  have one: "f64_mag (f64_of_int 1) = 2 ^ 1074" "f64_finite (f64_of_int 1)"
    using f64_of_int_exact [of 1 0] by simp_all
  have "f64_round (f64_neg y) (f64_mag y * 2 ^ 1074) (2 ^ 1074) = y"
    using assms by (intro f64_round_mag) (simp_all add: f64_finite_def)
  then show ?thesis
    using one assms
    by (simp add: times_float64_def f64_is_nan_def f64_is_inf_def f64_finite_def f64_of_int_neg mult.commute Let_def)
qed

lemma Pow10_exact:
  assumes "0 \<le> n" "n \<le> 22"
  shows "f64_mag (Pow10 n) = 10 ^ nat n * 2 ^ 1074"
proof -
  have "(10::int) ^ nat n = 5 ^ nat n * 2 ^ nat n" by (simp flip: power_mult_distrib)
  moreover have "(5::int) ^ nat n < 2 ^ 53"
  proof -
    have "(5::int) ^ nat n \<le> 5 ^ 22" using assms by (intro power_increasing) auto
    also have "\<dots> < 2 ^ 53" by simp
    finally show ?thesis .
  qed
  ultimately have "f64_mag (f64_of_int (10 ^ nat n)) = 10 ^ nat n * 2 ^ 1074"
    "f64_finite (f64_of_int (10 ^ nat n))"
    using f64_of_int_exact [of "5 ^ nat n" "nat n"] assms by simp_all
  moreover have "Pow10 n = f64_of_int 1 * f64_of_int (10 ^ nat n)" using assms by (simp add: Pow10_def)
  ultimately show ?thesis by (simp add: times_one)
qed

lemma round_bits_exact:
  assumes "0 < d" "1 \<le> q" "bitlen q \<le> p" "0 \<le> p" "p \<le> bitlen (q * 2 ^ c)"
  shows "round_bits p (q * 2 ^ c * d) d = q * 2 ^ c"
proof -
  let ?s = "nat (bitlen (q * 2 ^ c) - p)"
  have "bitlen (q * 2 ^ c) = bitlen q + int c" using assms(2) by (simp add: bitlen_pow2)
  then have c: "?s \<le> c" using assms by simp
  then have "q * 2 ^ c * d = (q * 2 ^ (c - ?s)) * (d * 2 ^ ?s)"
    by (simp add: ac_simps flip: power_add)
  then have "half_even (q * 2 ^ c * d) (d * 2 ^ ?s) = q * 2 ^ (c - ?s)"
    using assms(1) by (metis half_even_exact mult_pos_pos zero_less_numeral zero_less_power)
  then show ?thesis
    using assms c by (simp add: round_bits_def Let_def flip: power_add)
qed

lemma bitlen_mono: "0 \<le> a \<Longrightarrow> a \<le> b \<Longrightarrow> bitlen a \<le> bitlen b"
  using bitlen_le_iff_power [of b "bitlen b"] bitlen_le_iff_power [of a "bitlen b"] by simp

text \<open>When the answer is a multiple of the feed's power of ten (with up to 22 decimals), the two roundings on the way change nothing.\<close>

lemma scaled_price_exact:
  assumes "0 \<le> n" "n \<le> 22" "bitlen \<bar>q\<bar> \<le> 512"
  shows "scaled_price (q * 10 ^ nat n) (Pow10 n) = f64_of_int q"
proof (cases "q = 0")
  case True
  then show ?thesis by (simp add: scaled_price_def)
next
  case False
  let ?a = "q * 10 ^ nat n"
  let ?p = "max 64 (bitlen \<bar>?a\<bar>)"
  have abs: "\<bar>?a\<bar> = \<bar>q\<bar> * 10 ^ nat n" by (simp add: abs_mult)
  have q: "1 \<le> \<bar>q\<bar>" using False by simp
  have "\<bar>q\<bar> * 1 \<le> \<bar>q\<bar> * 10 ^ nat n" by (intro mult_left_mono) simp_all
  then have le: "bitlen \<bar>q\<bar> \<le> bitlen \<bar>?a\<bar>" by (intro bitlen_mono) (simp_all add: abs)
  have "\<bar>?a\<bar> \<le> \<bar>q\<bar> * 2 ^ 88"
  proof -
    have "(10::int) ^ nat n \<le> 10 ^ 22" using assms by (intro power_increasing) auto
    also have "\<dots> \<le> 2 ^ 88" by simp
    finally show ?thesis unfolding abs by (intro mult_left_mono) simp_all
  qed
  then have "bitlen \<bar>?a\<bar> \<le> bitlen (\<bar>q\<bar> * 2 ^ 88)" by (intro bitlen_mono) simp_all
  also have "\<dots> = bitlen \<bar>q\<bar> + 88" using bitlen_pow2 [of "\<bar>q\<bar>" 88] q by simp
  finally have "?p \<le> bitlen (\<bar>q\<bar> * 2 ^ 1074)" using bitlen_pow2 [of "\<bar>q\<bar>" 1074] q assms(3) bitlen_nonneg [of "\<bar>q\<bar>"]
    by simp
  then have "round_bits ?p (\<bar>q\<bar> * 2 ^ 1074 * (10 ^ nat n * 2 ^ 1074)) (10 ^ nat n * 2 ^ 1074) = \<bar>q\<bar> * 2 ^ 1074"
    using q le by (intro round_bits_exact) simp_all
  moreover have "\<bar>?a\<bar> * 2 ^ 2148 = \<bar>q\<bar> * 2 ^ 1074 * (10 ^ nat n * 2 ^ 1074)"
    unfolding abs by (simp add: ac_simps flip: power_add)
  ultimately have "round_bits ?p (\<bar>?a\<bar> * 2 ^ 2148) (f64_mag (Pow10 n)) = \<bar>q\<bar> * 2 ^ 1074"
    by (simp only: Pow10_exact [OF assms(1,2)])
  moreover have "?a \<noteq> 0" "?a < 0 \<longleftrightarrow> q < 0" using False by (simp_all add: mult_less_0_iff)
  ultimately show ?thesis by (simp only: scaled_price_def f64_of_int_def Let_def if_False)
qed

section \<open>The interface of price providers\<close>

text \<open>
  What the enricher relies on, whatever the provider: a lookup keeps the provider's invariant, a
  token the provider does not list has no price, and a failed lookup changes no price the provider
  has already. \<open>env\<close> is what the call sees of the world: the clock and the node.
\<close>

locale price_provider =
  fixes get :: "'env \<Rightarrow> string \<Rightarrow> 'p \<Rightarrow> 'p \<times> ('e + float64)"
    and ok :: "'p \<Rightarrow> bool"
    and listed :: "'p \<Rightarrow> string \<Rightarrow> bool"
    and known :: "'p \<Rightarrow> string \<Rightarrow> float64 option"
  assumes get_ok: "ok p \<Longrightarrow> ok (fst (get env tok p))"
    and get_listed: "listed (fst (get env tok p)) t \<longleftrightarrow> listed p t"
    and get_unlisted: "\<not> listed p tok \<Longrightarrow> fst (get env tok p) = p \<and> (\<exists>e. snd (get env tok p) = Inl e)"
    and get_failed: "snd (get env tok p) = Inl e \<Longrightarrow> known (fst (get env tok p)) = known p"
begin

lemma priced_is_listed: "snd (get env tok p) = Inr x \<Longrightarrow> listed p tok"
  using get_unlisted [of p tok env] by auto

fun get_all :: "('env \<times> string) list \<Rightarrow> 'p \<Rightarrow> 'p" where
  "get_all [] p = p"
| "get_all ((env, tok) # qs) p = get_all qs (fst (get env tok p))"

lemma get_all_ok: "ok p \<Longrightarrow> ok (get_all qs p)"
  by (induction qs p rule: get_all.induct) (simp_all add: get_ok)

lemma get_all_listed: "listed (get_all qs p) t \<longleftrightarrow> listed p t"
  by (induction qs p rule: get_all.induct) (simp_all add: get_listed)

end

subsection \<open>Chainlink keeps it\<close>

type_synonym chainlink_env = "ContractCaller \<times> clock3"

definition chainlink_get :: "chainlink_env \<Rightarrow> string \<Rightarrow> Provider \<Rightarrow> Provider \<times> (price_error + float64)" where
  "chainlink_get env tok p = GetPriceUSD (fst env) (snd env) tok p"

definition chainlink_listed :: "Provider \<Rightarrow> string \<Rightarrow> bool" where
  "chainlink_listed p tok \<longleftrightarrow> LookupPriceFeed (pv_reg p) (pv_chain p) tok \<noteq> None"

definition chainlink_known :: "Provider \<Rightarrow> string \<Rightarrow> float64 option" where
  "chainlink_known p addr = map_option cp_price (pv_cache p addr)"

lemma getDecimals_static:
  "pv_reg (fst (getDecimals caller a p)) = pv_reg p" "pv_chain (fst (getDecimals caller a p)) = pv_chain p"
  "pv_cfg (fst (getDecimals caller a p)) = pv_cfg p" "pv_cache (fst (getDecimals caller a p)) = pv_cache p"
  by (auto simp: getDecimals_def split: option.split sum.split)

text \<open>The cases of a lookup: a token without feed, a cache hit, an error, or a fetch.\<close>

lemma GetPriceUSD_cases:
  assumes "GetPriceUSD caller clk tok p = (p', r)"
  obtains
    (unlisted) "LookupPriceFeed (pv_reg p) (pv_chain p) tok = None" "p' = p" "r = Inl (NoPriceFeed tok (pv_chain p))"
  | (hit) feed c where "LookupPriceFeed (pv_reg p) (pv_chain p) tok = Some feed"
      "pv_cache p (pf_Address feed) = Some c" "now1 clk < cp_expiresAt c" "p' = p" "r = Inr (cp_price c)"
  | (failed) feed e where "LookupPriceFeed (pv_reg p) (pv_chain p) tok = Some feed"
      "p' = fst (getDecimals caller (pf_Address feed) p)" "r = Inl e"
  | (fetched) feed d rnd where "LookupPriceFeed (pv_reg p) (pv_chain p) tok = Some feed"
      "snd (getDecimals caller (pf_Address feed) p) = Inr d"
      "caller_LatestRoundData caller (pf_Address feed) = Inr rnd"
      "time_sub (now2 clk) (unix_time (rd_UpdatedAt rnd)) \<le> StalenessThreshold (pv_cfg p)"
      "r = Inr (scaled_price (rd_Answer rnd) (Pow10 (uint d)))"
      "p' = (fst (getDecimals caller (pf_Address feed) p))\<lparr>pv_cache := (pv_cache p)(pf_Address feed \<mapsto>
         \<lparr>cp_price = scaled_price (rd_Answer rnd) (Pow10 (uint d)), cp_expiresAt = now3 clk + CacheTTL (pv_cfg p)\<rparr>)\<rparr>"
proof (cases "LookupPriceFeed (pv_reg p) (pv_chain p) tok")
  case None
  with assms have "p' = p" "r = Inl (NoPriceFeed tok (pv_chain p))" by (auto simp: GetPriceUSD_def)
  then show ?thesis by (rule unlisted [OF None])
next
  case (Some feed)
  let ?a = "pf_Address feed"
  obtain p1 dr where g: "getDecimals caller ?a p = (p1, dr)" by force
  note static = getDecimals_static [of caller ?a p, unfolded g fst_conv]
  note eq = assms [symmetric, unfolded GetPriceUSD_def Some option.case Let_def]
  show ?thesis
  proof (cases "\<exists>c. pv_cache p ?a = Some c \<and> now1 clk < cp_expiresAt c")
    case True
    then obtain c where c: "pv_cache p ?a = Some c" "now1 clk < cp_expiresAt c" by blast
    from eq have "p' = p" "r = Inr (cp_price c)" using c by simp_all
    then show ?thesis by (rule hit [OF Some c])
  next
    case miss: False
    then have m: "(case pv_cache p ?a of None \<Rightarrow> None
        | Some cached \<Rightarrow> if now1 clk < cp_expiresAt cached then Some (cp_price cached) else None) = None"
      by (auto split: option.split)
    note eq = eq [unfolded m option.case g prod.case]
    show ?thesis
    proof (cases dr)
      case (Inl e)
      from eq have "p' = fst (getDecimals caller ?a p)" "r = Inl (DecimalsError tok e)"
        by (simp_all add: Inl g)
      then show ?thesis by (rule failed [OF Some])
    next
      case (Inr d)
      note eq = eq [unfolded Inr sum.case]
      show ?thesis
      proof (cases "caller_LatestRoundData caller ?a")
        case (Inl e)
        from eq have "p' = fst (getDecimals caller ?a p)" "r = Inl (RoundError tok e)"
          by (simp_all add: Inl g)
        then show ?thesis by (rule failed [OF Some])
      next
        case rnd: (Inr rnd)
        note eq = eq [unfolded rnd sum.case]
        show ?thesis
        proof (cases "time_sub (now2 clk) (unix_time (rd_UpdatedAt rnd)) > StalenessThreshold (pv_cfg p)")
          case True
          from eq have "p' = fst (getDecimals caller ?a p)"
            "r = Inl (StalePrice tok (time_sub (now2 clk) (unix_time (rd_UpdatedAt rnd))))"
            using True by (simp_all add: g static)
          then show ?thesis by (rule failed [OF Some])
        next
          case False
          show ?thesis
          proof (rule fetched [OF Some _ rnd])
            show "snd (getDecimals caller ?a p) = Inr d" by (simp add: g Inr)
            show "time_sub (now2 clk) (unix_time (rd_UpdatedAt rnd)) \<le> StalenessThreshold (pv_cfg p)"
              using False by simp
            show "r = Inr (scaled_price (rd_Answer rnd) (Pow10 (uint d)))"
              using eq False by (simp add: static)
            show "p' = (fst (getDecimals caller ?a p))\<lparr>pv_cache := (pv_cache p)(?a \<mapsto>
                \<lparr>cp_price = scaled_price (rd_Answer rnd) (Pow10 (uint d)),
                 cp_expiresAt = now3 clk + CacheTTL (pv_cfg p)\<rparr>)\<rparr>"
              using eq False by (simp add: g static)
          qed
        qed
      qed
    qed
  qed
qed

definition provider_ok :: "Provider \<Rightarrow> bool" where
  "provider_ok p \<longleftrightarrow> (\<forall>a c. pv_cache p a = Some c \<longrightarrow> \<not> f64_is_nan (cp_price c))"

lemma f64_round_unit_not_nan: "0 \<le> n \<Longrightarrow> \<not> f64_is_nan (f64_round s n 1)"
  by (rule f64_round_not_nan) simp_all

lemma half_even_zero: "0 \<le> n \<Longrightarrow> 0 \<le> half_even n 0"
  by (simp add: half_even_def)

lemma round_bits_nonneg: "0 \<le> n \<Longrightarrow> 0 \<le> d \<Longrightarrow> 0 \<le> round_bits p n d"
  by (cases "d = 0") (simp_all add: round_bits_def Let_def half_even_zero half_even_nonneg)

lemma scaled_price_not_nan: "\<not> f64_is_nan (scaled_price a d)"
proof -
  have "\<not> f64_is_nan (f64_of_int 0)" by code_simp
  then show ?thesis
    by (simp add: scaled_price_def f64_round_unit_not_nan round_bits_nonneg Let_def)
qed

interpretation chainlink: price_provider chainlink_get provider_ok chainlink_listed chainlink_known
proof (unfold_locales, goal_cases)
  case (1 p env tok)
  obtain p' r where g: "GetPriceUSD (fst env) (snd env) tok p = (p', r)" by force
  show ?case
    using 1 g by (cases rule: GetPriceUSD_cases [OF g])
      (auto simp: chainlink_get_def provider_ok_def getDecimals_static scaled_price_not_nan)
next
  case (2 env tok p t)
  obtain p' r where g: "GetPriceUSD (fst env) (snd env) tok p = (p', r)" by force
  show ?case
    using g by (cases rule: GetPriceUSD_cases [OF g])
      (auto simp: chainlink_get_def chainlink_listed_def getDecimals_static)
next
  case (3 p tok env)
  then show ?case by (simp add: chainlink_get_def chainlink_listed_def GetPriceUSD_def)
next
  case (4 env tok p e)
  obtain p' r where g: "GetPriceUSD (fst env) (snd env) tok p = (p', r)" by force
  show ?case
    using 4 g by (cases rule: GetPriceUSD_cases [OF g])
      (auto simp: chainlink_get_def chainlink_known_def getDecimals_static)
qed

section \<open>How old a price can be\<close>

record price_call =
  ca_caller :: ContractCaller
  ca_clk :: clock3
  ca_tok :: string

fun price_run :: "price_call list \<Rightarrow> Provider \<Rightarrow> Provider" where
  "price_run [] p = p"
| "price_run (c # cs) p = price_run cs (fst (GetPriceUSD (ca_caller c) (ca_clk c) (ca_tok c) p))"

lemma price_run_snoc:
  "price_run (cs @ [c]) p = fst (GetPriceUSD (ca_caller c) (ca_clk c) (ca_tok c) (price_run cs p))"
  by (induction cs arbitrary: p) simp_all

text \<open>The call \<open>c\<close> read a round of the feed that was fresh when it was read, and computed the price
  from it and from the decimals that the feed reported to one of the calls.\<close>

definition fetched_by :: "Provider \<Rightarrow> price_call list \<Rightarrow> price_call \<Rightarrow> string \<Rightarrow> float64 \<Rightarrow> bool" where
  "fetched_by p0 calls c addr price \<longleftrightarrow>
     (\<exists>rnd d. caller_LatestRoundData (ca_caller c) addr = Inr rnd \<and>
        time_sub (now2 (ca_clk c)) (unix_time (rd_UpdatedAt rnd)) \<le> StalenessThreshold (pv_cfg p0) \<and>
        (\<exists>c'\<in>set calls. caller_Decimals (ca_caller c') addr = Inr d) \<and>
        price = scaled_price (rd_Answer rnd) (Pow10 (uint d)))"

definition provenance :: "Provider \<Rightarrow> price_call list \<Rightarrow> Provider \<Rightarrow> bool" where
  "provenance p0 calls p \<longleftrightarrow> pv_cfg p = pv_cfg p0 \<and> pv_reg p = pv_reg p0 \<and> pv_chain p = pv_chain p0 \<and>
     (\<forall>a d. pv_decimals p a = Some d \<longrightarrow> (\<exists>c\<in>set calls. caller_Decimals (ca_caller c) a = Inr d)) \<and>
     (\<forall>a e. pv_cache p a = Some e \<longrightarrow> (\<exists>c\<in>set calls. fetched_by p0 calls c a (cp_price e) \<and>
        cp_expiresAt e = now3 (ca_clk c) + CacheTTL (pv_cfg p0)))"

lemma fetched_by_mono: "fetched_by p0 calls c a x \<Longrightarrow> set calls \<subseteq> set calls' \<Longrightarrow> fetched_by p0 calls' c a x"
  unfolding fetched_by_def by (elim exE conjE) (intro exI conjI; blast)

lemma getDecimals_provenance:
  assumes "provenance p0 calls p"
  shows "snd (getDecimals (ca_caller c) a p) = Inr d \<Longrightarrow>
      \<exists>c'\<in>set (calls @ [c]). caller_Decimals (ca_caller c') a = Inr d"
    and "provenance p0 (calls @ [c]) (fst (getDecimals (ca_caller c) a p))"
proof -
  show "snd (getDecimals (ca_caller c) a p) = Inr d \<Longrightarrow>
      \<exists>c'\<in>set (calls @ [c]). caller_Decimals (ca_caller c') a = Inr d"
    using assms by (auto simp: getDecimals_def provenance_def split: option.splits sum.splits)
  have mono: "fetched_by p0 calls c' a' x \<Longrightarrow> fetched_by p0 (calls @ [c]) c' a' x" for c' a' x
    by (erule fetched_by_mono) auto
  have dec: "pv_decimals (fst (getDecimals (ca_caller c) a p)) b = Some d \<Longrightarrow>
      pv_decimals p b = Some d \<or> (b = a \<and> caller_Decimals (ca_caller c) a = Inr d)" for b d
    by (auto simp: getDecimals_def split: option.splits sum.splits if_splits)
  show "provenance p0 (calls @ [c]) (fst (getDecimals (ca_caller c) a p))"
    unfolding provenance_def getDecimals_static
  proof (intro conjI allI impI)
    fix b d assume "pv_decimals (fst (getDecimals (ca_caller c) a p)) b = Some d"
    from dec [OF this] show "\<exists>c'\<in>set (calls @ [c]). caller_Decimals (ca_caller c') b = Inr d"
      using assms unfolding provenance_def by (metis UnCI in_set_conv_decomp set_append)
  next
    fix b e assume "pv_cache p b = Some e"
    then obtain c' where "c' \<in> set calls" "fetched_by p0 calls c' b (cp_price e)"
      "cp_expiresAt e = now3 (ca_clk c') + CacheTTL (pv_cfg p0)"
      using assms unfolding provenance_def by blast
    then show "\<exists>c'\<in>set (calls @ [c]). fetched_by p0 (calls @ [c]) c' b (cp_price e) \<and>
        cp_expiresAt e = now3 (ca_clk c') + CacheTTL (pv_cfg p0)"
      using mono by auto
  qed (use assms in \<open>simp_all add: provenance_def\<close>)
qed

text \<open>The price \<open>x\<close> of the token comes from a call that is this one, or one whose price has not expired.\<close>

definition recent_price :: "Provider \<Rightarrow> price_call list \<Rightarrow> price_call \<Rightarrow> float64 \<Rightarrow> bool" where
  "recent_price p0 calls c x \<longleftrightarrow>
     (\<exists>feed. LookupPriceFeed (pv_reg p0) (pv_chain p0) (ca_tok c) = Some feed \<and>
       (\<exists>c'\<in>set (calls @ [c]). fetched_by p0 (calls @ [c]) c' (pf_Address feed) x \<and>
          (c' = c \<or> now1 (ca_clk c) < now3 (ca_clk c') + CacheTTL (pv_cfg p0))))"

lemma provenance_mono:
  assumes "provenance p0 calls p"
  shows "provenance p0 (calls @ [c]) p"
proof -
  have mono: "fetched_by p0 calls c' a' y \<Longrightarrow> fetched_by p0 (calls @ [c]) c' a' y" for c' a' y
    by (erule fetched_by_mono) auto
  then show ?thesis using assms unfolding provenance_def set_append by (meson UnCI)
qed

lemma GetPriceUSD_provenance:
  assumes prov: "provenance p0 calls p"
    and g: "GetPriceUSD (ca_caller c) (ca_clk c) (ca_tok c) p = (p', r)"
  shows "provenance p0 (calls @ [c]) p' \<and> (\<forall>x. r = Inr x \<longrightarrow> recent_price p0 calls c x)"
proof -
  have p: "provenance p0 (calls @ [c]) p" by (rule provenance_mono [OF prov])
  have static: "pv_cfg p = pv_cfg p0" "pv_reg p = pv_reg p0" "pv_chain p = pv_chain p0"
    using prov by (simp_all add: provenance_def)
  note dec = getDecimals_provenance [OF prov, of c]
  show ?thesis
    using g
  proof (cases rule: GetPriceUSD_cases)
    case unlisted
    then show ?thesis using p by simp
  next
    case (hit feed e)
    then obtain c' where "c' \<in> set (calls @ [c])" "fetched_by p0 (calls @ [c]) c' (pf_Address feed) (cp_price e)"
      "cp_expiresAt e = now3 (ca_clk c') + CacheTTL (pv_cfg p0)"
      using p unfolding provenance_def by blast
    then have "recent_price p0 calls c (cp_price e)"
      unfolding recent_price_def using hit(1,3) static by auto
    then show ?thesis using hit(4,5) p by simp
  next
    case (failed feed e)
    then show ?thesis using dec(2) by simp
  next
    case (fetched feed d rnd)
    let ?a = "pf_Address feed" and ?x = "scaled_price (rd_Answer rnd) (Pow10 (uint d))"
    have f: "fetched_by p0 (calls @ [c]) c ?a ?x"
      unfolding fetched_by_def
      by (rule exI [of _ rnd], rule exI [of _ d])
        (use fetched(3,4) dec(1) [OF fetched(2)] static in simp)
    then have "recent_price p0 calls c ?x"
      unfolding recent_price_def using fetched(1) static by auto
    moreover have "provenance p0 (calls @ [c]) p'"
      using dec(2) [of ?a] f unfolding fetched(6) provenance_def
      by (simp add: getDecimals_static static)
    ultimately show ?thesis using fetched(5) by simp
  qed
qed

lemma price_run_provenance: "provenance (NewWithCaller cfg reg chain) cs (price_run cs (NewWithCaller cfg reg chain))"
proof (induction cs rule: rev_induct)
  case Nil
  then show ?case by (simp add: provenance_def NewWithCaller_def)
next
  case (snoc c cs)
  obtain p' r where g: "GetPriceUSD (ca_caller c) (ca_clk c) (ca_tok c)
      (price_run cs (NewWithCaller cfg reg chain)) = (p', r)" by force
  from GetPriceUSD_provenance [OF snoc g] show ?case by (simp add: price_run_snoc g)
qed

text \<open>C27. However the calls to the provider went before, a price it returns was computed from a round
  of that token's feed whose age was within \<open>staleness_threshold\<close> when some call read it, and from
  decimals the feed reported; the call is the present one, or its price is younger than
  \<open>cache_ttl\<close>.\<close>

theorem price_is_recent:
  assumes "snd (GetPriceUSD (ca_caller c) (ca_clk c) (ca_tok c) (price_run cs (NewWithCaller cfg reg chain))) = Inr x"
  shows "recent_price (NewWithCaller cfg reg chain) cs c x"
  using GetPriceUSD_provenance [OF price_run_provenance surjective_pairing] assms by blast

definition demo_feeds :: Registry where
  "demo_feeds = \<lparr>reg_contracts = Map.empty,
     reg_priceFeeds = [ChainEthereum \<mapsto> [(''usdc'', \<lparr>pf_Address = ''feed''\<rparr>)]], reg_wormhole = Map.empty\<rparr>"

definition demo_caller :: ContractCaller where
  "demo_caller = \<lparr>caller_Decimals = (\<lambda>_. Inr 8),
     caller_LatestRoundData = (\<lambda>_. Inr \<lparr>rd_Answer = 100000000, rd_UpdatedAt = 1000\<rparr>)\<rparr>"

definition demo_price_cfg :: ChainlinkConfig where
  "demo_price_cfg = \<lparr>CacheTTL = 30 * Second, StalenessThreshold = Hour\<rparr>"

definition demo_price_call :: "int \<Rightarrow> price_call" where
  "demo_price_call secs =
     (let t = secs * Second
      in \<lparr>ca_caller = demo_caller, ca_clk = \<lparr>now1 = t, now2 = t, now3 = t\<rparr>, ca_tok = ''usdc''\<rparr>)"

lemmas demo_price_defs = demo_price_call_def demo_price_cfg_def demo_caller_def demo_feeds_def
  NewWithCaller_def LookupPriceFeed_def getDecimals_def time_sub_def unix_time_def

lemma demo_price_first:
  "GetPriceUSD demo_caller (ca_clk (demo_price_call 1010)) ''usdc''
     (NewWithCaller demo_price_cfg demo_feeds ChainEthereum) =
   (\<lparr>pv_cfg = demo_price_cfg, pv_reg = demo_feeds, pv_chain = ChainEthereum,
     pv_cache = [''feed'' \<mapsto> \<lparr>cp_price = scaled_price 100000000 (Pow10 8), cp_expiresAt = 1040 * Second\<rparr>],
     pv_decimals = [''feed'' \<mapsto> 8]\<rparr>, Inr (scaled_price 100000000 (Pow10 8)))"
  by (simp add: GetPriceUSD_def demo_price_defs i64_def Second_def Minute_def Hour_def Let_def)

lemma price_is_recent_witness:
  "recent_price (NewWithCaller demo_price_cfg demo_feeds ChainEthereum) [demo_price_call 1010]
     (demo_price_call 1039) (scaled_price 100000000 (Pow10 8))"
proof (rule price_is_recent)
  let ?p = "NewWithCaller demo_price_cfg demo_feeds ChainEthereum"
  have "snd (GetPriceUSD demo_caller (ca_clk (demo_price_call 1039)) ''usdc''
      (fst (GetPriceUSD demo_caller (ca_clk (demo_price_call 1010)) ''usdc'' ?p))) =
      Inr (scaled_price 100000000 (Pow10 8))"
    unfolding demo_price_first
    by (simp add: GetPriceUSD_def demo_price_call_def demo_feeds_def LookupPriceFeed_def Second_def Let_def)
  then show "snd (GetPriceUSD (ca_caller (demo_price_call 1039)) (ca_clk (demo_price_call 1039))
      (ca_tok (demo_price_call 1039)) (price_run [demo_price_call 1010] ?p)) =
      Inr (scaled_price 100000000 (Pow10 8))"
    by (simp add: demo_price_call_def Let_def)
qed

text \<open>Errors are explicit and harmless: a token without a feed, a feed whose decimals or round cannot
  be read, and a round older than \<open>staleness_threshold\<close> each give their own error; an error is only
  given when the cache has no live price, and it leaves the cached prices as they are.\<close>

theorem price_error_cases:
  assumes "GetPriceUSD caller clk tok p = (p', Inl err)"
  shows "pv_cache p' = pv_cache p \<and>
    (case LookupPriceFeed (pv_reg p) (pv_chain p) tok of
       None \<Rightarrow> err = NoPriceFeed tok (pv_chain p) \<and> p' = p
     | Some feed \<Rightarrow>
         (\<forall>c. pv_cache p (pf_Address feed) = Some c \<longrightarrow> cp_expiresAt c \<le> now1 clk) \<and>
         (case caller_LatestRoundData caller (pf_Address feed) of
            Inl e \<Rightarrow> err = RoundError tok e \<or>
              (pv_decimals p (pf_Address feed) = None \<and> (\<exists>e. err = DecimalsError tok e))
          | Inr rnd \<Rightarrow>
              (let age = time_sub (now2 clk) (unix_time (rd_UpdatedAt rnd))
               in StalenessThreshold (pv_cfg p) < age \<and> err = StalePrice tok age \<or>
                 (pv_decimals p (pf_Address feed) = None \<and> (\<exists>e. err = DecimalsError tok e)))))"
proof (cases "LookupPriceFeed (pv_reg p) (pv_chain p) tok")
  case None
  then show ?thesis using assms by (auto simp: GetPriceUSD_def)
next
  case (Some feed)
  obtain p1 dr where g: "getDecimals caller (pf_Address feed) p = (p1, dr)" by force
  have static: "pv_cache p1 = pv_cache p" "pv_cfg p1 = pv_cfg p"
    and dec: "\<And>e. dr = Inl e \<Longrightarrow> pv_decimals p (pf_Address feed) = None"
    using g getDecimals_static(3,4) [of caller "pf_Address feed" p]
    by (auto simp: getDecimals_def split: option.splits)
  show ?thesis
    using assms Some static
    by (auto simp: GetPriceUSD_def Let_def g dec not_less
        split: option.splits sum.splits if_splits)
qed

lemma price_error_cases_witness:
  "GetPriceUSD demo_caller (ca_clk (demo_price_call 1010)) ''weth'' (NewWithCaller demo_price_cfg demo_feeds ChainEthereum) =
     (NewWithCaller demo_price_cfg demo_feeds ChainEthereum, Inl (NoPriceFeed ''weth'' ChainEthereum)) \<and>
   pv_cache (NewWithCaller demo_price_cfg demo_feeds ChainEthereum) = Map.empty"
proof -
  have "GetPriceUSD demo_caller (ca_clk (demo_price_call 1010)) ''weth''
      (NewWithCaller demo_price_cfg demo_feeds ChainEthereum) =
     (NewWithCaller demo_price_cfg demo_feeds ChainEthereum, Inl (NoPriceFeed ''weth'' ChainEthereum))"
    by (simp add: GetPriceUSD_def demo_feeds_def NewWithCaller_def LookupPriceFeed_def)
  from this price_error_cases [OF this] show ?thesis by (simp add: NewWithCaller_def)
qed

text \<open>A positive answer never gives a price of zero, an infinite price or a NaN, whatever the decimals.\<close>

lemma round_bits_between:
  assumes "1 \<le> p" "0 < d" "2 ^ x * d \<le> n" "n \<le> 2 ^ y * d"
  shows "2 ^ x \<le> round_bits p n d \<and> round_bits p n d \<le> 2 ^ y"
proof -
  have ex: "half_even (2 ^ z * d) (d * 2 ^ k) = 2 ^ (z - k)" if "k \<le> z" for z k
  proof -
    have "2 ^ z * d = 2 ^ (z - k) * (d * 2 ^ k)" using that by (simp flip: power_add)
    moreover have "0 < d * 2 ^ k" using assms(2) by simp
    ultimately show ?thesis by (simp only: half_even_exact)
  qed
  have q: "2 ^ x \<le> n div d" "n div d \<le> 2 ^ y"
    using zdiv_mono1 [OF assms(3,2)] zdiv_mono1 [OF assms(4,2)] assms(2) by simp_all
  show ?thesis
  proof (cases "0 \<le> bitlen (n div d) - p")
    case False
    then show ?thesis
      using half_even_mono [OF assms(3,2)] half_even_mono [OF assms(4,2)] ex [of 0 x] ex [of 0 y] by (simp add: round_bits_def)
  next
    case True
    let ?s = "nat (bitlen (n div d) - p)"
    have d: "0 < d * 2 ^ ?s" using assms(2) by simp
    have r: "round_bits p n d = half_even n (d * 2 ^ ?s) * 2 ^ ?s" using True by (simp add: round_bits_def Let_def)
    have "bitlen 1 = 1" by code_simp
    then have "bitlen (n div d) \<le> int y + 1"
      using bitlen_mono [OF _ q(2)] q(1) bitlen_pow2 [of 1 y] by (simp add: order_trans [OF _ q(1)])
    then have sy: "?s \<le> y" using assms(1) by simp
    have "half_even n (d * 2 ^ ?s) \<le> 2 ^ (y - ?s)" using half_even_mono [OF assms(4) d] ex [OF sy] by simp
    then have "half_even n (d * 2 ^ ?s) * 2 ^ ?s \<le> 2 ^ (y - ?s) * 2 ^ ?s" by (rule mult_right_mono) simp
    then have hi: "round_bits p n d \<le> 2 ^ y" using sy by (simp add: r flip: power_add)
    have "2 ^ x \<le> half_even n (d * 2 ^ ?s) * 2 ^ ?s"
    proof (cases "?s \<le> x")
      case True
      have "2 ^ (x - ?s) \<le> half_even n (d * 2 ^ ?s)" using half_even_mono [OF assms(3) d] ex [OF True] by simp
      then have "2 ^ (x - ?s) * 2 ^ ?s \<le> half_even n (d * 2 ^ ?s) * 2 ^ ?s" by (rule mult_right_mono) simp
      then show ?thesis using True by (simp flip: power_add)
    next
      case False
      have "0 < n div d" using q(1) by (rule less_le_trans [rotated]) simp
      then have "2 ^ nat (bitlen (n div d) - 1) \<le> n div d" using bitlen_bounds by blast
      moreover have "(2::int) ^ ?s \<le> 2 ^ nat (bitlen (n div d) - 1)" using assms(1) by (intro power_increasing) simp_all
      ultimately have "1 * 2 ^ ?s \<le> n div d" unfolding mult_1 by (rule order_trans [rotated])
      then have "\<not> n div d div 2 ^ ?s < 1" using div_less_int [of "2 ^ ?s" "n div d" 1] by simp
      then have "1 \<le> half_even n (d * 2 ^ ?s)"
        using half_even_bounds [OF d, of n] assms(2) by (simp add: zdiv_zmult2_eq)
      then have "1 * 2 ^ ?s \<le> half_even n (d * 2 ^ ?s) * 2 ^ ?s" by (rule mult_right_mono) simp
      moreover have "(2::int) ^ x \<le> 2 ^ ?s" using False by (intro power_increasing) simp_all
      ultimately show ?thesis unfolding mult_1 by (rule order_trans [rotated])
    qed
    then show ?thesis using hi by (simp add: r)
  qed
qed

lemma f64_times_between:
  assumes x: "f64_finite x" "\<not> f64_neg x" "2 ^ 1074 \<le> f64_mag x" "f64_mag x \<le> 2 ^ (a + 1074)"
    and y: "f64_finite y" "\<not> f64_neg y" "2 ^ 1074 \<le> f64_mag y" "f64_mag y \<le> 2 ^ (b + 1074)" and ab: "a + b \<le> 900"
  shows "2 ^ 1074 \<le> f64_mag (x * y) \<and> f64_mag (x * y) \<le> 2 ^ (a + b + 1074)"
proof -
  define u where "u = (1074 :: nat)"
  have lo: "2 ^ (0 + u) * 2 ^ u \<le> f64_mag x * f64_mag y"
    unfolding add_0 by (rule mult_mono) (use x(3) y(3) in \<open>simp_all add: u_def [symmetric]\<close>)
  have "f64_mag x * f64_mag y \<le> 2 ^ (a + u) * 2 ^ (b + u)"
    by (rule mult_mono) (use x(4) y(4) in \<open>simp_all add: u_def [symmetric]\<close>)
  also have "\<dots> = 2 ^ (a + b + u) * 2 ^ u" by (simp add: ac_simps flip: power_add)
  finally have hi: "f64_mag x * f64_mag y \<le> 2 ^ (a + b + u) * 2 ^ u" .
  have "x * y = f64_round False (f64_mag x * f64_mag y) (2 ^ u)"
    using x(1,2) y(1,2) by (simp add: times_float64_def f64_is_nan_def f64_is_inf_def f64_finite_def u_def Let_def)
  then show ?thesis using f64_round_between(2,3) [OF lo [unfolded u_def] hi [unfolded u_def] _ _ ab] by (simp add: u_def)
qed

lemma Pow10_between:
  assumes "0 \<le> n" "n < 256"
  shows "2 ^ 1074 \<le> f64_mag (Pow10 n) \<and> f64_mag (Pow10 n) \<le> 2 ^ (848 + 1074)"
proof -
  have pow: "(10::int) ^ nat k \<le> 10 ^ j" if "k \<le> int j" for k j using that by (intro power_increasing) simp_all
  have "n div 32 < 8" using assms by (simp add: div_less_int)
  then have le: "32 * (n div 32) \<le> int 224" "n mod 32 \<le> int 31" using pos_mod_bound [of 32 n] by simp_all
  have "(10::int) ^ 224 \<le> 2 ^ 745" "(10::int) ^ 31 \<le> 2 ^ 103" by simp_all
  then have b: "(10::int) ^ nat (32 * (n div 32)) \<le> 2 ^ 745" "(10::int) ^ nat (n mod 32) \<le> 2 ^ 103"
    using order_trans [OF pow [OF le(1)]] order_trans [OF pow [OF le(2)]] by blast+
  have pos: "(0::int) < 10 ^ k" for k by simp
  have neg: "\<not> f64_neg (f64_of_int (10 ^ k))" for k using pos [of k] by (simp add: f64_of_int_neg)
  have e: "(745::nat) \<le> 900" "(103::nat) \<le> 900" "745 + 103 \<le> (900::nat)" by simp_all
  note x = f64_of_int_between [OF pos b(1) e(1)] and y = f64_of_int_between [OF pos b(2) e(2)]
  have "745 + 103 = (848::nat)" by simp
  with f64_times_between [OF x(1) neg x(2,3) y(1) neg y(2,3) e(3)] show ?thesis unfolding Pow10_def by (simp only:)
qed

lemma wrapped_quotient:
  assumes "2 ^ 255 \<le> w" "w < 2 ^ 256" "2 ^ 1074 \<le> (d::int)" "d \<le> 2 ^ k" "x + k = 2403" "1 \<le> p"
  shows "2 ^ x \<le> round_bits p (w * 2 ^ 2148) d \<and> round_bits p (w * 2 ^ 2148) d \<le> 2 ^ (256 + 1074)"
proof (rule round_bits_between [OF assms(6)])
  show "0 < d" using assms(3) by (rule less_le_trans [rotated]) simp
  have "2 ^ x * d \<le> 2 ^ x * 2 ^ k" using assms(4) by (rule mult_left_mono) simp
  also have "\<dots> = 2 ^ (255 + 2148)" by (simp only: power_add [symmetric] assms(5)) simp
  also have "\<dots> \<le> w * 2 ^ 2148" unfolding power_add using assms(1) by (rule mult_right_mono) simp
  finally show "2 ^ x * d \<le> w * 2 ^ 2148" .
  have "w * 2 ^ 2148 \<le> 2 ^ 256 * 2 ^ 2148" using less_imp_le [OF assms(2)] by (rule mult_right_mono) simp
  also have "\<dots> = 2 ^ (256 + 1074) * 2 ^ 1074" by (simp only: power_add [symmetric]) simp
  also have "\<dots> \<le> 2 ^ (256 + 1074) * d" using assms(3) by (rule mult_left_mono) simp
  finally show "w * 2 ^ 2148 \<le> 2 ^ (256 + 1074) * d" .
qed

lemma f64_round_positive:
  assumes "1 \<le> r" "r \<le> 2 ^ (b + 1074)" "b \<le> 900"
  shows "f64_finite (f64_round False r 1)" "f64_of_int 0 < f64_round False r 1"
proof -
  have one: "round_idx 1 1 = 1" by code_simp
  have r0: "0 \<le> r" using assms(1) by simp
  have lo: "1 \<le> round_idx r 1" using round_idx_mono [OF _ assms(1), of 1] by (simp add: one)
  have "round_idx r 1 \<le> round_idx (2 ^ (b + 1074)) 1" by (rule round_idx_mono [OF r0 assms(2)]) simp
  also have "\<dots> < inf_idx" using power_of_two_idx(2) [OF assms(3)] by (simp only: power_of_two_idx(1) [OF assms(3)])
  finally have f: "f64_idx (f64_round False r 1) = round_idx r 1" and hi: "round_idx r 1 < inf_idx"
    using f64_idx_round [OF r0, of 1 False] by simp_all
  show fin: "f64_finite (f64_round False r 1)" using f hi by (simp add: f64_finite_def)
  have z: "f64_finite (f64_of_int 0)" "f64_val (f64_of_int 0) = 0" by code_simp+
  have "0 < f64_mag (f64_round False r 1)" using mag_of_idx_less [of 0 "round_idx r 1"] lo by (simp add: f64_mag_def f)
  then show "f64_of_int 0 < f64_round False r 1" using fin z by (simp add: f64_less_iff_val f64_val_def [of "f64_round False r 1"])
qed

lemma wrapped_price:
  assumes w: "2 ^ 255 \<le> w" "w < 2 ^ 256" and n: "0 \<le> n" "n < 256"
  shows "f64_finite (scaled_price w (Pow10 n))" "f64_of_int 0 < scaled_price w (Pow10 n)"
    "n \<le> 22 \<Longrightarrow> f64_of_int (2 ^ 180) < scaled_price w (Pow10 n)"
proof -
  let ?p = "max 64 (bitlen \<bar>w\<bar>)"
  let ?r = "round_bits ?p (w * 2 ^ 2148) (f64_mag (Pow10 n))"
  note D = Pow10_between [OF n]
  have "0 < w" by (rule less_le_trans [OF _ w(1)]) simp
  then have price: "scaled_price w (Pow10 n) = f64_round False ?r 1" by (simp add: scaled_price_def Let_def)
  have p: "1 \<le> ?p" by simp
  have "481 + (848 + 1074) = (2403::nat)" by simp
  from wrapped_quotient [OF w conjunct1 [OF D] conjunct2 [OF D] this p]
  have r: "2 ^ 481 \<le> ?r" "?r \<le> 2 ^ (256 + 1074)" by simp_all
  have "1 \<le> ?r" by (rule order_trans [OF _ r(1)]) simp
  note pos = f64_round_positive [OF this r(2)]
  show "f64_finite (scaled_price w (Pow10 n))" "f64_of_int 0 < scaled_price w (Pow10 n)" unfolding price by (rule pos; simp)+
  show "f64_of_int (2 ^ 180) < scaled_price w (Pow10 n)" if "n \<le> 22"
  proof -
    have "(10::int) ^ nat n \<le> 10 ^ 22" using that by (intro power_increasing) simp_all
    then have "(10::int) ^ nat n \<le> 2 ^ 74" by simp
    then have "(10::int) ^ nat n * 2 ^ 1074 \<le> 2 ^ 74 * 2 ^ 1074" by (rule mult_right_mono) simp
    then have "f64_mag (Pow10 n) \<le> 2 ^ (74 + 1074)" by (simp only: Pow10_exact [OF n(1) that] power_add)
    moreover have "(181 + 1074) + (74 + 1074) = (2403::nat)" by simp
    ultimately have "2 ^ (181 + 1074) \<le> ?r" using wrapped_quotient [OF w conjunct1 [OF D] _ _ p] by blast
    then have "2 ^ (181 + 1074) * 1 \<le> ?r" "?r \<le> 2 ^ (256 + 1074) * 1" using r(2) by (simp_all only: mult_1_right)
    from f64_round_between(2) [OF this, of False] have "2 ^ (181 + 1074) \<le> f64_mag (scaled_price w (Pow10 n))"
      unfolding price by simp
    moreover have "(2::int) ^ (180 + 1074) < 2 ^ (181 + 1074)" by (rule power_strict_increasing) simp_all
    ultimately have "f64_val (f64_of_int (2 ^ 180)) < f64_val (scaled_price w (Pow10 n))"
      using power_of_two_idx(3) [of 180] by (simp add: f64_val_def f64_of_int_neg price)
    moreover have "f64_finite (f64_of_int (2 ^ 180))" using f64_of_int_between(1) [of "2 ^ 180" 180] by simp
    ultimately show ?thesis using pos(1) by (simp add: f64_less_iff_val price)
  qed
qed

text \<open>A call that finds no live price in the cache and a fresh round returns the scaled answer.\<close>

lemma GetPriceUSD_fetches:
  assumes "LookupPriceFeed (pv_reg p) (pv_chain p) tok = Some feed"
    and "\<forall>c. pv_cache p (pf_Address feed) = Some c \<longrightarrow> cp_expiresAt c \<le> now1 clk"
    and "snd (getDecimals caller (pf_Address feed) p) = Inr d" "caller_LatestRoundData caller (pf_Address feed) = Inr rnd"
    and "time_sub (now2 clk) (unix_time (rd_UpdatedAt rnd)) \<le> StalenessThreshold (pv_cfg p)"
  shows "snd (GetPriceUSD caller clk tok p) = Inr (scaled_price (rd_Answer rnd) (Pow10 (uint d)))"
proof -
  obtain p1 where g: "getDecimals caller (pf_Address feed) p = (p1, Inr d)" using assms(3) by (metis prod.collapse)
  have miss: "(case pv_cache p (pf_Address feed) of None \<Rightarrow> None
      | Some cached \<Rightarrow> if now1 clk < cp_expiresAt cached then Some (cp_price cached) else None) = None"
    using assms(2) by (auto split: option.split)
  have "pv_cfg p1 = pv_cfg p" using getDecimals_static(3) [of caller "pf_Address feed" p] by (simp add: g)
  then show ?thesis using assms(5) unfolding GetPriceUSD_def assms(1) option.case Let_def miss g prod.case sum.case assms(4) by simp
qed

text \<open>C37. Whole prices are exact: when the answer of a fresh round, a number of at most 256 bits, is \<open>q\<close> times the feed's power of ten,
  with up to 22 decimals, and the price is not in the cache, \<open>GetPriceUSD\<close> returns the float nearest to \<open>q\<close>: the rounding
  of the quotient and that to \<open>float64\<close> together change nothing.\<close>

theorem whole_prices_exact:
  assumes "LookupPriceFeed (pv_reg p) (pv_chain p) tok = Some feed"
    and "\<forall>c. pv_cache p (pf_Address feed) = Some c \<longrightarrow> cp_expiresAt c \<le> now1 clk"
    and "snd (getDecimals caller (pf_Address feed) p) = Inr d" "uint d \<le> 22"
    and "caller_LatestRoundData caller (pf_Address feed) = Inr rnd" "rd_Answer rnd = q * 10 ^ nat (uint d)" "\<bar>rd_Answer rnd\<bar> < 2 ^ 256"
    and "time_sub (now2 clk) (unix_time (rd_UpdatedAt rnd)) \<le> StalenessThreshold (pv_cfg p)"
  shows "snd (GetPriceUSD caller clk tok p) = Inr (f64_of_int q)"
proof -
  have "\<bar>q\<bar> * 1 \<le> \<bar>q\<bar> * 10 ^ nat (uint d)" by (intro mult_left_mono) simp_all
  then have "\<bar>q\<bar> < 2 ^ 256" using assms(6,7) by (simp add: abs_mult)
  also have "(2::int) ^ 256 \<le> 2 ^ 512" by (rule power_increasing) simp_all
  finally have "bitlen \<bar>q\<bar> \<le> 512" using bitlen_le_iff_power [of "\<bar>q\<bar>" 512] by simp
  then have "scaled_price (rd_Answer rnd) (Pow10 (uint d)) = f64_of_int q"
    using scaled_price_exact [of "uint d" q] assms(4) by (simp add: assms(6))
  then show ?thesis using GetPriceUSD_fetches [OF assms(1-3,5,8)] by simp
qed

lemma whole_prices_exact_witness:
  "snd (GetPriceUSD demo_caller \<lparr>now1 = 0, now2 = 0, now3 = 0\<rparr> ''usdc'' (NewWithCaller demo_price_cfg demo_feeds ChainEthereum)) =
   Inr (f64_of_int 1)"
proof (rule whole_prices_exact)
  show "LookupPriceFeed (pv_reg (NewWithCaller demo_price_cfg demo_feeds ChainEthereum))
      (pv_chain (NewWithCaller demo_price_cfg demo_feeds ChainEthereum)) ''usdc'' = Some \<lparr>pf_Address = ''feed''\<rparr>"
    by (simp add: NewWithCaller_def demo_feeds_def LookupPriceFeed_def)
  show "snd (getDecimals demo_caller (pf_Address \<lparr>pf_Address = ''feed''\<rparr>) (NewWithCaller demo_price_cfg demo_feeds ChainEthereum)) = Inr 8"
    by (simp add: getDecimals_def NewWithCaller_def demo_caller_def)
  show "caller_LatestRoundData demo_caller (pf_Address \<lparr>pf_Address = ''feed''\<rparr>) = Inr \<lparr>rd_Answer = 100000000, rd_UpdatedAt = 1000\<rparr>"
    by (simp add: demo_caller_def)
qed (simp_all add: NewWithCaller_def time_sub_def unix_time_def i64_def demo_price_cfg_def Hour_def Minute_def Second_def)

text \<open>C38. The feed's \<open>int256\<close> answer is read as an unsigned number: when the node answers with a fresh round whose answer
  is a negative number \<open>a\<close>, and the price is not in the cache, \<open>GetPriceUSD\<close> does not refuse it but returns the price that
  \<open>2^256 + a\<close> gives: positive and finite, and with up to 22 decimals more than \<open>2^180\<close> dollars.\<close>

theorem negative_answer_wraps:
  assumes "LookupPriceFeed (pv_reg p) (pv_chain p) tok = Some feed"
    and "\<forall>c. pv_cache p (pf_Address feed) = Some c \<longrightarrow> cp_expiresAt c \<le> now1 clk"
    and "snd (getDecimals (NewEthCaller E CallContract) (pf_Address feed) p) = Inr d"
    and "CallContract \<lparr>msg_To = eth_HexToAddress E (pf_Address feed), msg_Data = latestRoundData_selector\<rparr> = Inr res"
    and "160 \<le> length res" "be_value (take 32 (drop 32 res)) = a mod 2 ^ 256" "- (2 ^ 255) \<le> a" "a < 0"
    and "time_sub (now2 clk) (unix_time (be_value (take 32 (drop 96 res)))) \<le> StalenessThreshold (pv_cfg p)"
  shows "\<exists>price. snd (GetPriceUSD (NewEthCaller E CallContract) clk tok p) = Inr price \<and>
    price = scaled_price (2 ^ 256 + a) (Pow10 (uint d)) \<and> f64_finite price \<and> f64_of_int 0 < price \<and>
    (uint d \<le> 22 \<longrightarrow> f64_of_int (2 ^ 180) < price)"
proof -
  let ?w = "2 ^ 256 + a"
  have "a mod 2 ^ 256 = ?w mod 2 ^ 256" by simp
  also have "\<dots> = ?w" using assms(7,8) by (intro mod_pos_pos_trivial) simp_all
  finally have w: "be_value (take 32 (drop 32 res)) = ?w" using assms(6) by simp
  have rnd: "caller_LatestRoundData (NewEthCaller E CallContract) (pf_Address feed) =
      Inr \<lparr>rd_Answer = ?w, rd_UpdatedAt = be_value (take 32 (drop 96 res))\<rparr>"
    using assms(5) by (simp add: NewEthCaller_def EthCaller_LatestRoundData_def Let_def assms(4) w)
  have "snd (GetPriceUSD (NewEthCaller E CallContract) clk tok p) = Inr (scaled_price ?w (Pow10 (uint d)))"
    using GetPriceUSD_fetches [OF assms(1-3) rnd] assms(9) by simp
  moreover have "2 ^ 255 \<le> ?w" "?w < 2 ^ 256" "0 \<le> uint d" "uint d < 256" using assms(7,8) uint_lt2p [of d] by simp_all
  ultimately show ?thesis using wrapped_price by blast
qed

lemma all_ones: "be_value (replicate n 255) = 256 ^ n - 1"
proof (induction n)
  case (Suc n)
  have "be_value (replicate (Suc n) 255) = be_value (replicate n 255 @ [255])"
    by (simp add: replicate_append_same)
  then show ?case using Suc by (simp add: be_value_snoc)
qed (simp add: be_value_def)

definition demo_minus_one :: "CallMsg \<Rightarrow> string + byte list" where
  "demo_minus_one msg = (if msg_Data msg = decimals_selector then Inr (replicate 31 0 @ [8]) else Inr (replicate 160 255))"

lemma negative_answer_wraps_witness:
  "\<exists>price. snd (GetPriceUSD (NewEthCaller demo_eth demo_minus_one) \<lparr>now1 = 0, now2 = 0, now3 = 0\<rparr> ''usdc''
      (NewWithCaller demo_price_cfg demo_feeds ChainEthereum)) = Inr price \<and> f64_of_int (2 ^ 180) < price"
proof -
  let ?p = "NewWithCaller demo_price_cfg demo_feeds ChainEthereum" and ?feed = "\<lparr>pf_Address = ''feed''\<rparr>"
  let ?res = "replicate 160 255 :: byte list"
  have 1: "LookupPriceFeed (pv_reg ?p) (pv_chain ?p) ''usdc'' = Some ?feed"
    by (simp add: NewWithCaller_def demo_feeds_def LookupPriceFeed_def)
  have 2: "\<forall>c. pv_cache ?p (pf_Address ?feed) = Some c \<longrightarrow> cp_expiresAt c \<le> now1 \<lparr>now1 = 0, now2 = 0, now3 = 0\<rparr>"
    by (simp add: NewWithCaller_def)
  have "be_uint64 (replicate 31 0 @ [8]) = 8" by code_simp
  then have 3: "snd (getDecimals (NewEthCaller demo_eth demo_minus_one) (pf_Address ?feed) ?p) = Inr 8"
    by (simp add: getDecimals_def NewWithCaller_def NewEthCaller_def EthCaller_Decimals_def demo_minus_one_def Let_def)
  have 4: "demo_minus_one \<lparr>msg_To = eth_HexToAddress demo_eth (pf_Address ?feed), msg_Data = latestRoundData_selector\<rparr> = Inr ?res"
    by (simp add: demo_minus_one_def latestRoundData_selector_def decimals_selector_def)
  have 5: "be_value (take 32 (drop 32 ?res)) = - 1 mod 2 ^ 256" "be_value (take 32 (drop 96 ?res)) = 2 ^ 256 - 1"
    by (simp_all add: all_ones take_replicate drop_replicate)
  have 6: "time_sub (now2 \<lparr>now1 = 0, now2 = 0, now3 = 0\<rparr>) (unix_time (be_value (take 32 (drop 96 ?res)))) \<le> StalenessThreshold (pv_cfg ?p)"
    unfolding 5 by (simp add: time_sub_def unix_time_def i64_def NewWithCaller_def demo_price_cfg_def Hour_def Minute_def Second_def)
  have "uint (8 :: 8 word) \<le> 22" by simp
  then show ?thesis using negative_answer_wraps [OF 1 2 3 4 _ 5(1) _ _ 6] by auto
qed

end
