(* ===== verification/Normalizer.thy ===== *)
theory Normalizer
  imports Event_Types Channels "HOL-Library.Sublist"
begin

text \<open>
  The normalizer (\<open>internal/normalizer/normalizer.go\<close>): raw events of any chain become chain events
  with a token, an amount and addresses; an event of unknown type or without a token is an error.
  \<open>Run\<close> is the stage's loop over the events its input channel delivers until it is closed.
\<close>

section \<open>One event\<close>

datatype normalize_error = UnknownEventType string | BadTokenField string

definition normalizeTokenEvent ::
  "ChainEvent \<Rightarrow> data_map \<Rightarrow> string \<Rightarrow> string \<Rightarrow> normalize_error + ChainEvent" where
  "normalizeTokenEvent event data tokenKey senderKey =
     (case as_string (data_get data tokenKey) of
        None \<Rightarrow> Inl (BadTokenField tokenKey)
      | Some tok \<Rightarrow>
          (let event = event\<lparr>Token := tok\<rparr>;
               event = (case as_string (data_get data ''amount'') of
                          Some v \<Rightarrow> event\<lparr>Amount := v\<rparr> | None \<Rightarrow> event);
               event = (case as_string (data_get data senderKey) of
                          Some v \<Rightarrow> event\<lparr>SourceAddress := v\<rparr> | None \<Rightarrow> event);
               event = (case as_string (data_get data ''target_chain'') of
                          Some dest \<Rightarrow> event\<lparr>DestChain := Some dest\<rparr>
                        | None \<Rightarrow> event\<lparr>DestChain := None\<rparr>)
           in Inr event))"

definition normalizeEVM :: "ChainEvent \<Rightarrow> data_map \<Rightarrow> normalize_error + ChainEvent" where
  "normalizeEVM event data =
     (case normalizeTokenEvent event data ''token'' ''sender'' of
        Inr e \<Rightarrow> Inr (case as_string (data_get data ''contract'') of
                        Some v \<Rightarrow> e\<lparr>ContractAddress := v\<rparr> | None \<Rightarrow> e)
      | Inl err \<Rightarrow> Inl err)"

definition normalizeSolana :: "ChainEvent \<Rightarrow> data_map \<Rightarrow> normalize_error + ChainEvent" where
  "normalizeSolana event data = normalizeTokenEvent event data ''mint'' ''owner''"

definition normalizeCosmos :: "ChainEvent \<Rightarrow> data_map \<Rightarrow> normalize_error + ChainEvent" where
  "normalizeCosmos event data = normalizeTokenEvent event data ''token'' ''sender''"

definition Normalize :: "RawEvent \<Rightarrow> normalize_error + ChainEvent" where
  "Normalize raw =
     (let event = \<lparr>Chain = re_Chain raw, Block = re_Block raw, TxHash = re_TxHash raw,
            Timestamp = re_Timestamp raw, EventTy = re_EventType raw, Token = [], Amount = [],
            SourceAddress = [], ContractAddress = [], DestChain = None, RawData = re_Data raw\<rparr>
      in if re_EventType raw \<in> {EventBridgeDeposit, EventDEXSwap, EventTokenApproval}
         then normalizeEVM event (re_Data raw)
         else if re_EventType raw = EventTokenAccCreate then normalizeSolana event (re_Data raw)
         else if re_EventType raw \<in> {EventIBCSendPacket, EventIBCAckPacket}
         then normalizeCosmos event (re_Data raw)
         else Inl (UnknownEventType (re_EventType raw)))"

section \<open>The stage\<close>

definition processNormalize ::
  "'c tel \<Rightarrow> (RawEvent, 'c) Traced \<Rightarrow> normalize_error + (ChainEvent, 'c) Traced" where
  "processNormalize tel traced =
     (let ctx = (if tl_Normalizer tel then tl_Start tel ''pipeline.normalizer'' (tr_Ctx traced)
                 else tr_Ctx traced)
      in case Normalize (tr_Value traced) of
           Inl err \<Rightarrow> Inl err
         | Inr event \<Rightarrow> Inr \<lparr>tr_Value = event, tr_Ctx = ctx, tr_StartedAt = tr_StartedAt traced\<rparr>)"

text \<open>\<open>i\<close> counts the events received and \<open>k\<close> the sends; the result is what was sent and the counters.\<close>

fun normalizer_run ::
  "'c tel \<Rightarrow> stage_env \<Rightarrow> nat \<Rightarrow> nat \<Rightarrow> counters \<Rightarrow> (RawEvent, 'c) Traced list
     \<Rightarrow> (ChainEvent, 'c) Traced list \<times> counters" where
  "normalizer_run tel env i k m [] = ([], m)"
| "normalizer_run tel env i k m (traced # ins) =
     (if se_cancelled env i then ([], m)
      else (let m = count_received m in
        case processNormalize tel traced of
          Inl err \<Rightarrow> normalizer_run tel env (Suc i) k (count_dropped m) ins
        | Inr result \<Rightarrow>
            (if se_send_aborted env k then ([], m)
             else (case normalizer_run tel env (Suc i) (Suc k) (count_emitted m) ins of
                     (outs, m') \<Rightarrow> (result # outs, m')))))"

definition Normalizer_Run ::
  "'c tel \<Rightarrow> stage_env \<Rightarrow> (RawEvent, 'c) Traced list \<Rightarrow> (ChainEvent, 'c) Traced list \<times> counters" where
  "Normalizer_Run tel env ins = normalizer_run tel env 0 0 no_counts ins"

section \<open>What normalizing does\<close>

text \<open>Where each kind of event keeps its token and its sender.\<close>

definition event_keys :: "EventType \<Rightarrow> (string \<times> string) option" where
  "event_keys ty =
     (if ty = EventTokenAccCreate then Some (''mint'', ''owner'')
      else if ty \<in> {EventBridgeDeposit, EventDEXSwap, EventTokenApproval, EventIBCSendPacket, EventIBCAckPacket}
      then Some (''token'', ''sender'') else None)"

definition is_evm :: "EventType \<Rightarrow> bool" where
  "is_evm ty \<longleftrightarrow> ty \<in> {EventBridgeDeposit, EventDEXSwap, EventTokenApproval}"

definition text_field :: "data_map \<Rightarrow> string \<Rightarrow> string" where
  "text_field d k = (case as_string (data_get d k) of Some s \<Rightarrow> s | None \<Rightarrow> [])"

lemma Normalize_eq:
  "Normalize raw =
     (case event_keys (re_EventType raw) of
        None \<Rightarrow> Inl (UnknownEventType (re_EventType raw))
      | Some (tokKey, senderKey) \<Rightarrow>
          (case as_string (data_get (re_Data raw) tokKey) of
             None \<Rightarrow> Inl (BadTokenField tokKey)
           | Some tok \<Rightarrow> Inr \<lparr>Chain = re_Chain raw, Block = re_Block raw, TxHash = re_TxHash raw,
               Timestamp = re_Timestamp raw, EventTy = re_EventType raw, Token = tok,
               Amount = text_field (re_Data raw) ''amount'',
               SourceAddress = text_field (re_Data raw) senderKey,
               ContractAddress = (if is_evm (re_EventType raw)
                                  then text_field (re_Data raw) ''contract'' else []),
               DestChain = as_string (data_get (re_Data raw) ''target_chain''),
               RawData = re_Data raw\<rparr>))"
  by (auto simp: Normalize_def normalizeEVM_def normalizeSolana_def normalizeCosmos_def
      normalizeTokenEvent_def event_keys_def is_evm_def text_field_def Let_def event_types
      split: option.split)

text \<open>Normalizing fails exactly for an unknown event type or a token that is missing or no string,
  and says which; any other event keeps its chain, block, transaction, time and raw data, takes the
  token, amount, sender and contract from the keys of its kind (an amount or address that is
  missing or of the wrong type stays empty rather than failing the event), and has a destination
  exactly when a target chain is given.\<close>

theorem Normalize_spec:
  "(case Normalize raw of
     Inl e \<Rightarrow> (case event_keys (re_EventType raw) of
                None \<Rightarrow> e = UnknownEventType (re_EventType raw)
              | Some (tk, sk) \<Rightarrow> as_string (data_get (re_Data raw) tk) = None \<and> e = BadTokenField tk)
   | Inr ev \<Rightarrow> (case event_keys (re_EventType raw) of
                None \<Rightarrow> False
              | Some (tk, sk) \<Rightarrow> as_string (data_get (re_Data raw) tk) = Some (Token ev) \<and>
                  Amount ev = text_field (re_Data raw) ''amount'' \<and>
                  SourceAddress ev = text_field (re_Data raw) sk \<and>
                  ContractAddress ev = (if is_evm (re_EventType raw)
                                        then text_field (re_Data raw) ''contract'' else []) \<and>
                  DestChain ev = as_string (data_get (re_Data raw) ''target_chain'') \<and>
                  (Chain ev, Block ev, TxHash ev, Timestamp ev, EventTy ev, RawData ev) =
                  (re_Chain raw, re_Block raw, re_TxHash raw, re_Timestamp raw, re_EventType raw, re_Data raw)))"
  by (auto simp: Normalize_eq split: option.split)

section \<open>What the stage does\<close>

lemma processNormalize_ok:
  "(\<exists>t. processNormalize tel x = Inr t) \<longleftrightarrow> (\<exists>e. Normalize (tr_Value x) = Inr e)"
  by (auto simp: processNormalize_def Let_def split: sum.splits)

definition normalized :: "'c tel \<Rightarrow> (RawEvent, 'c) Traced list \<Rightarrow> (ChainEvent, 'c) Traced list" where
  "normalized tel ins =
     concat (map (\<lambda>x. case processNormalize tel x of Inl _ \<Rightarrow> [] | Inr t \<Rightarrow> [t]) ins)"

lemma normalizer_run_prefix:
  "normalizer_run tel env i k m ins = (outs, m') \<Longrightarrow>
   prefix outs (normalized tel ins) \<and> n_emitted m' = n_emitted m + int (length outs) \<and>
   n_dropped m \<le> n_dropped m' \<and>
   (let lost = (n_received m' - n_received m) - (n_dropped m' - n_dropped m) - (n_emitted m' - n_emitted m)
    in lost = 0 \<or> lost = 1 \<and> (\<exists>j. se_send_aborted env j))"
proof (induction tel env i k m ins arbitrary: outs m' rule: normalizer_run.induct)
  case (1 tel env i k m)
  then show ?case by (simp add: normalized_def)
next
  case (2 tel env i k m x ins)
  show ?case
  proof (cases "se_cancelled env i")
    case True
    then show ?thesis using 2(3) by (simp add: normalized_def)
  next
    case False
    show ?thesis
    proof (cases "processNormalize tel x")
      case (Inl err)
      have "normalizer_run tel env (Suc i) k (count_dropped (count_received m)) ins = (outs, m')"
        using 2(3) False Inl by simp
      from 2(1) [OF False refl Inl this] show ?thesis
        by (auto simp: normalized_def Inl Let_def)
    next
      case (Inr r)
      show ?thesis
      proof (cases "se_send_aborted env k")
        case True
        then show ?thesis using 2(3) False Inr by (auto simp: normalized_def Let_def)
      next
        case sent: False
        obtain outs1 where r: "normalizer_run tel env (Suc i) (Suc k) (count_emitted (count_received m)) ins = (outs1, m')"
          and o: "outs = r # outs1" using 2(3) False Inr sent by (auto split: prod.splits)
        from 2(2) [OF False refl Inr sent r] show ?thesis
          by (auto simp: normalized_def Inr o Let_def)
      qed
    qed
  qed
qed

lemma normalizer_run_calm:
  "fst (normalizer_run tel calm i k m ins) = normalized tel ins"
  by (induction tel calm i k m ins rule: normalizer_run.induct)
    (auto simp: normalized_def Let_def split: sum.splits prod.splits)

text \<open>The normalizer stage passes on the events that normalize, in order and each once, with the time
  at which they entered the pipeline; a malformed event costs only itself. If the context is
  cancelled it passes on a prefix of them. Every event it counts as received is counted as emitted
  or dropped, except at most the one whose send is cancelled.\<close>

theorem Normalizer_Run_spec:
  "fst (Normalizer_Run tel calm ins) = normalized tel ins \<and>
   prefix (fst (Normalizer_Run tel env ins)) (normalized tel ins) \<and>
   n_emitted (snd (Normalizer_Run tel env ins)) = int (length (fst (Normalizer_Run tel env ins))) \<and>
   (let m = snd (Normalizer_Run tel env ins); lost = n_received m - n_dropped m - n_emitted m
    in lost = 0 \<or> lost = 1 \<and> (\<exists>j. se_send_aborted env j))"
proof -
  obtain outs m where r: "normalizer_run tel env 0 0 no_counts ins = (outs, m)" by force
  from normalizer_run_prefix [OF r] show ?thesis
    by (auto simp: Normalizer_Run_def normalizer_run_calm r Let_def)
qed

end
