(* ===== verification/Enricher.thy ===== *)
theory Enricher
  imports Chainlink Normalizer "HOL-Library.Multiset"
begin

text \<open>
  The enricher (\<open>internal/enricher/enricher.go\<close>): a chain event gets the name and protocol of the
  contract that emitted it and its value in dollars. \<open>enrich\<close> is a client of the contract of price
  providers, whichever provider it is given. \<open>Run\<close> is a pool of workers over one input and one
  output channel: a step relation whose labels say which worker acts and what the provider answered.
\<close>

section \<open>One event\<close>

record 'c Enricher =
  en_reg :: Registry
  en_workers :: int
  en_tel :: "'c tel"

definition New :: "Registry \<Rightarrow> int \<Rightarrow> 'c tel \<Rightarrow> 'c Enricher" where
  "New reg workers tel =
     (let workers = (if workers \<le> 0 then 4 else workers)
      in \<lparr>en_reg = reg, en_workers = workers, en_tel = tel\<rparr>)"

text \<open>The embedded \<open>ChainEvent\<close> of an enriched event is copied field by field.\<close>

definition with_chain_event ::
  "ChainEvent \<Rightarrow> string option \<Rightarrow> string option \<Rightarrow> float64 option \<Rightarrow> EnrichedEvent" where
  "with_chain_event ce name prot usd =
     ChainEvent.extend ce \<lparr>ContractName = name, Protocol = prot, AmountUSD = usd\<rparr>"

text \<open>What \<open>enrich\<close> makes of the provider's answer, and of the whole event.\<close>

definition amount_usd :: "string \<Rightarrow> 'e + float64 \<Rightarrow> float64 option" where
  "amount_usd amount result =
     (case result of
        Inr unitPrice \<Rightarrow>
          (case ParseFloat amount of
             Some amt \<Rightarrow> if amt > f64_of_int 0 then Some (amt * unitPrice) else None
           | None \<Rightarrow> None)
      | Inl err \<Rightarrow> None)"

definition enrich_with :: "Registry \<Rightarrow> ChainEvent \<Rightarrow> 'e + float64 \<Rightarrow> EnrichedEvent" where
  "enrich_with reg ce result =
     (case LookupContract reg (Chain ce) (ContractAddress ce) of
        Some info \<Rightarrow> with_chain_event ce (Some (ci_Name info)) (Some (ci_Protocol info)) (amount_usd (Amount ce) result)
      | None \<Rightarrow> with_chain_event ce None None (amount_usd (Amount ce) result))"

definition enrich ::
  "('env \<Rightarrow> string \<Rightarrow> 'p \<Rightarrow> 'p \<times> ('e + float64)) \<Rightarrow> 'env \<Rightarrow> Registry \<Rightarrow> ChainEvent \<Rightarrow> 'p \<Rightarrow> 'p \<times> EnrichedEvent" where
  "enrich get env reg ce pp =
     (case get env (Token ce) pp of (pp', result) \<Rightarrow> (pp', enrich_with reg ce result))"

text \<open>\<open>Enrich\<close> makes an enricher for one event.\<close>

definition Enrich ::
  "('env \<Rightarrow> string \<Rightarrow> 'p \<Rightarrow> 'p \<times> ('e + float64)) \<Rightarrow> 'env \<Rightarrow> ChainEvent \<Rightarrow> Registry \<Rightarrow> 'p \<Rightarrow> 'p \<times> EnrichedEvent" where
  "Enrich get env ce reg pp = enrich get env reg ce pp"

definition processEvent ::
  "'c tel \<Rightarrow> Registry \<Rightarrow> (ChainEvent, 'c) Traced \<Rightarrow> 'e + float64 \<Rightarrow> (EnrichedEvent, 'c) Traced" where
  "processEvent tel reg traced result =
     (let eventCtx = (if tl_Enricher tel then tl_Start tel ''pipeline.enricher'' (tr_Ctx traced)
                      else tr_Ctx traced)
      in \<lparr>tr_Value = enrich_with reg (tr_Value traced) result, tr_Ctx = eventCtx,
          tr_StartedAt = tr_StartedAt traced\<rparr>)"

lemma with_chain_event_simps [simp]:
  "ChainEvent.truncate (with_chain_event ce n p u) = ce"
  "ContractName (with_chain_event ce n p u) = n" "Protocol (with_chain_event ce n p u) = p"
  "AmountUSD (with_chain_event ce n p u) = u" "Chain (with_chain_event ce n p u) = Chain ce"
  "EventTy (with_chain_event ce n p u) = EventTy ce" "Token (with_chain_event ce n p u) = Token ce"
  "Amount (with_chain_event ce n p u) = Amount ce" "SourceAddress (with_chain_event ce n p u) = SourceAddress ce"
  "DestChain (with_chain_event ce n p u) = DestChain ce"
  "ContractAddress (with_chain_event ce n p u) = ContractAddress ce"
  by (cases ce; simp add: with_chain_event_def ChainEvent.defs)+

lemma enrich_with_simps [simp]:
  "ChainEvent.truncate (enrich_with reg ce r) = ce"
  "AmountUSD (enrich_with reg ce r) = amount_usd (Amount ce) r"
  "EventTy (enrich_with reg ce r) = EventTy ce" "Token (enrich_with reg ce r) = Token ce"
  "Amount (enrich_with reg ce r) = Amount ce" "SourceAddress (enrich_with reg ce r) = SourceAddress ce"
  "DestChain (enrich_with reg ce r) = DestChain ce" "Chain (enrich_with reg ce r) = Chain ce"
  "ContractAddress (enrich_with reg ce r) = ContractAddress ce"
  by (simp_all add: enrich_with_def split: option.split)

lemma amount_usd_Some:
  "amount_usd s r = Some x \<longleftrightarrow>
     (\<exists>u a. r = Inr u \<and> ParseFloat s = Some a \<and> f64_of_int 0 < a \<and> x = a * u)"
  by (auto simp: amount_usd_def split: sum.splits option.splits)

section \<open>What an event is worth\<close>

lemma round_idx_bound:
  assumes "0 \<le> q" "bitlen q \<le> 2097"
  shows "round_idx q 1 < inf_idx"
proof -
  let ?k = "nat (bitlen q - 53)"
  have "round_idx q 1 \<le> 2044 * 2 ^ 52 + (2 ^ 53 :: int)"
  proof (cases "q < 2 ^ 53")
    case True
    then have "round_idx q 1 = half_even q 1" by (simp add: round_idx_def)
    also have "\<dots> = q" using half_even_exact [of 1 q] by simp
    finally show ?thesis using True by simp
  next
    case False
    let ?d = "(2::int) ^ ?k"
    have q: "q < 2 ^ nat (bitlen q)" using bitlen_bounds [of q] False by simp
    have "bitlen q \<ge> 53"
      using False bitlen_le_iff_power [of q 53] by simp
    then have "nat (bitlen q) = 53 + ?k" by simp
    then have "(2::int) ^ nat (bitlen q) = 2 ^ 53 * ?d" by (simp only: power_add)
    then have "q < 2 ^ 53 * ?d" using q by simp
    moreover have "q div ?d * ?d \<le> q" by (simp add: minus_mod_eq_div_mult [symmetric])
    ultimately have "q div ?d * ?d < 2 ^ 53 * ?d" by linarith
    then have "q div ?d < 2 ^ 53" by (simp only: mult_less_cancel_right_pos zero_less_power zero_less_numeral)
    then have h: "half_even q ?d \<le> 2 ^ 53" using half_even_cases [of q ?d] by linarith
    have "int ?k \<le> 2044" using assms(2) by simp
    then have "int ?k * 2 ^ 52 \<le> 2044 * 2 ^ 52" by (rule mult_right_mono) simp
    moreover have "round_idx q 1 = int ?k * 2 ^ 52 + half_even q ?d"
      using False by (simp add: round_idx_def Let_def)
    ultimately show ?thesis using h by linarith
  qed
  then show ?thesis by (simp add: inf_idx_def)
qed

lemma f64_of_int_finite:
  assumes "0 < n" "n < 2 ^ 1023"
  shows "f64_finite (f64_of_int n)"
proof -
  define c :: nat where "c = 1074"
  have "bitlen n \<le> 1023" using assms by (simp add: bitlen_le_iff_power)
  moreover have "bitlen (n * 2 ^ c) = bitlen n + int c" using assms(1) by (simp add: bitlen_pow2)
  ultimately have "bitlen (n * 2 ^ c) \<le> 2097" by (simp only: c_def)
  moreover have "0 \<le> n * 2 ^ c" using assms(1) by simp
  ultimately have "f64_idx (f64_round False (n * 2 ^ c) 1) < inf_idx"
    using round_idx_bound [of "n * 2 ^ c"] by (simp add: f64_idx_round min_def)
  then show ?thesis using assms(1) by (simp add: f64_finite_def f64_of_int_def c_def)
qed

lemma ParseFloat_Itoa:
  assumes "0 < n" "n < 2 ^ 1023"
  shows "ParseFloat (Itoa n) = Some (f64_of_int n)"
proof -
  let ?t = "show_nat n"
  have d: "list_all is_digit ?t" using assms(1) by (simp add: show_nat_digits)
  then have plain: "plain_number ?t"
    by (cases ?t) (auto simp: plain_number_def list_all_iff)
  have scan: "scan_mant False ?t False False 0 0 = (True, n, 0, [])"
    using scan_digits [OF d, of "[]" False False 0 0] assms(1) by simp
  have e: "dec_f64 False n 0 = f64_of_int n"
    using assms(1) by (simp add: dec_f64_def dec_idx_def f64_of_int_def scaled_idx_def f64_round_def)
  have fin: "\<not> f64_is_inf (dec_f64 False n (- 0))"
    using f64_of_int_finite [OF assms] e by (simp add: f64_is_inf_def f64_finite_def)
  show ?thesis using ParseFloat_plain [OF plain scan fin] assms(1) e by (simp add: Itoa_def)
qed

section \<open>Any provider\<close>

context price_provider
begin

lemma enrich_ok: "ok p \<Longrightarrow> ok (fst (enrich get env reg ce p))"
  using get_ok [of p env "Token ce"] by (simp add: enrich_def split_beta)

lemma enrich_listed: "listed (fst (enrich get env reg ce p)) t \<longleftrightarrow> listed p t"
  using get_listed [of env "Token ce" p t] by (simp add: enrich_def split_beta)

lemma enrich_unlisted:
  assumes "\<not> listed p (Token ce)"
  shows "AmountUSD (snd (enrich get env reg ce p)) = None"
  using get_unlisted [OF assms, of env]
  by (auto simp: enrich_def amount_usd_def split: prod.split)

lemma priced_after_lookups:
  assumes "AmountUSD (snd (enrich get env reg ce (get_all qs p))) = Some x"
  shows "listed p (Token ce)"
  using assms enrich_unlisted [of "get_all qs p" ce env reg] get_all_listed [of qs p "Token ce"] by fastforce

end

text \<open>Enriching adds and never changes: the chain event is kept field by field, the contract's name
  and protocol are there exactly when the registry has the contract, and there is a value in
  dollars exactly when the provider gives a price and the amount parses as a number above zero;
  it is their product.\<close>

theorem enrich_spec:
  "ChainEvent.truncate (snd (enrich get env reg ce p)) = ce \<and>
   ContractName (snd (enrich get env reg ce p)) = map_option ci_Name (LookupContract reg (Chain ce) (ContractAddress ce)) \<and>
   Protocol (snd (enrich get env reg ce p)) = map_option ci_Protocol (LookupContract reg (Chain ce) (ContractAddress ce)) \<and>
   (AmountUSD (snd (enrich get env reg ce p)) = Some x \<longleftrightarrow>
     (\<exists>u a. snd (get env (Token ce) p) = Inr u \<and> ParseFloat (Amount ce) = Some a \<and> f64_of_int 0 < a \<and> x = a * u))"
  by (simp add: enrich_def split_beta amount_usd_Some)
    (simp add: enrich_with_def split: option.split)

text \<open>With the Chainlink provider a token without a feed on the provider's chain is never valued,
  whatever prices were looked up before.\<close>

theorem unlisted_token_never_priced:
  assumes "LookupPriceFeed (pv_reg p) (pv_chain p) (Token ce) = None"
  shows "AmountUSD (snd (enrich chainlink_get env reg ce (chainlink.get_all qs p))) = None"
  using chainlink.priced_after_lookups [of env reg ce qs p] assms
  by (cases "AmountUSD (snd (enrich chainlink_get env reg ce (chainlink.get_all qs p)))")
    (auto simp: chainlink_listed_def)

lemma f64_zero_less:
  assumes n: "0 < n" "n < 2 ^ 53"
  shows "f64_of_int 0 < f64_of_int n"
proof -
  have mag: "f64_mag (f64_of_int n) = n * 2 ^ 1074" "f64_finite (f64_of_int n)"
    using f64_of_int_exact [OF n, of 0] by simp_all
  have z: "f64_val (f64_of_int 0) = 0" "f64_finite (f64_of_int 0)" by code_simp+
  have "f64_val (f64_of_int n) = n * 2 ^ 1074" using n mag(1) by (simp add: f64_val_def f64_of_int_neg)
  then show ?thesis using n z mag(2) by (simp add: f64_less_iff_val)
qed

text \<open>The value in dollars counts the smallest units of the token: for an amount of \<open>n\<close> units it is
  \<open>n\<close> times the price of one whole token, with no division by the token's own power of ten, so a
  transfer of one USDC (six decimals) at one dollar counts as a million dollars.\<close>

theorem amount_usd_counts_units:
  assumes "snd (get env (Token ce) p) = Inr u" "Amount ce = Itoa n" "0 < n" "n < 2 ^ 53"
  shows "AmountUSD (snd (enrich get env reg ce p)) = Some (f64_of_int n * u)"
proof -
  have "n < 2 ^ 1023" using assms(4) by (rule less_trans) simp
  then have "ParseFloat (Amount ce) = Some (f64_of_int n)" using ParseFloat_Itoa assms(2,3) by simp
  then show ?thesis using assms(1) f64_zero_less [OF assms(3,4)]
    by (simp add: enrich_def split_beta amount_usd_Some)
qed

lemma amount_usd_counts_units_witness:
  "AmountUSD (snd (enrich (\<lambda>_ _ p. (p, Inr (f64_of_int 1) :: string + float64)) () demo_feeds
     ((ChainEvent.truncate (demo_event EventBridgeDeposit ''0x1'' None))\<lparr>Amount := Itoa 1000000\<rparr>) ())) =
   Some (f64_of_int 1000000 * f64_of_int 1)"
  by (rule amount_usd_counts_units) simp_all

lemma unlisted_token_never_priced_witness:
  "AmountUSD (snd (enrich chainlink_get (demo_caller, ca_clk (demo_price_call 1010)) demo_feeds
     (ChainEvent.truncate (demo_event EventBridgeDeposit ''0x1'' None))
     (chainlink.get_all [((demo_caller, ca_clk (demo_price_call 1000)), ''usdc'')]
       (NewWithCaller demo_price_cfg demo_feeds ChainEthereum)))) = None"
  by (rule unlisted_token_never_priced)
    (simp add: NewWithCaller_def LookupPriceFeed_def demo_feeds_def demo_event_def ChainEvent.defs)

section \<open>The pool of workers\<close>

text \<open>
  A worker waits for an event, enriches it, sends the result and waits again; it returns when the
  input is closed and empty, when it receives an event after the context was cancelled (which is
  lost), or when it gives up a send because of that. \<open>pl_in\<close> is what the input channel still
  delivers before it is closed. What the provider answers is part of the label: any answer, so that
  the steps hold for whatever the other workers' lookups do to the provider meanwhile.
\<close>

datatype 'c wstate = Idle | Got "(ChainEvent, 'c) Traced" | Ready "(EnrichedEvent, 'c) Traced" | Returned

record 'c pool =
  pl_in :: "(ChainEvent, 'c) Traced list"
  pl_workers :: "'c wstate list"
  pl_out :: "(EnrichedEvent, 'c) Traced list"
  pl_cancelled :: bool

definition Run :: "'c Enricher \<Rightarrow> (ChainEvent, 'c) Traced list \<Rightarrow> 'c pool" where
  "Run e ins =
     \<lparr>pl_in = ins, pl_workers = replicate (nat (en_workers e)) Idle, pl_out = [], pl_cancelled = False\<rparr>"

datatype 'e wact = Take nat | Enrich nat "'e + float64" | Send nat | Quit nat | Cancel

definition set_worker :: "nat \<Rightarrow> 'c wstate \<Rightarrow> 'c pool \<Rightarrow> 'c pool" where
  "set_worker i w s = s\<lparr>pl_workers := (pl_workers s)[i := w]\<rparr>"

inductive wstep :: "'c Enricher \<Rightarrow> 'c pool \<Rightarrow> 'e wact \<Rightarrow> 'c pool \<Rightarrow> bool" for e where
  take: "i < length (pl_workers s) \<Longrightarrow> pl_workers s ! i = Idle \<Longrightarrow> pl_in s = x # xs \<Longrightarrow>
    wstep e s (Take i) (set_worker i (if pl_cancelled s then Returned else Got x) (s\<lparr>pl_in := xs\<rparr>))"
| closed: "i < length (pl_workers s) \<Longrightarrow> pl_workers s ! i = Idle \<Longrightarrow> pl_in s = [] \<Longrightarrow>
    wstep e s (Quit i) (set_worker i Returned s)"
| enriched: "i < length (pl_workers s) \<Longrightarrow> pl_workers s ! i = Got x \<Longrightarrow>
    wstep e s (Enrich i r) (set_worker i (Ready (processEvent (en_tel e) (en_reg e) x r)) s)"
| send: "i < length (pl_workers s) \<Longrightarrow> pl_workers s ! i = Ready y \<Longrightarrow>
    wstep e s (Send i) (set_worker i Idle (s\<lparr>pl_out := pl_out s @ [y]\<rparr>))"
| give_up: "i < length (pl_workers s) \<Longrightarrow> pl_workers s ! i = Ready y \<Longrightarrow> pl_cancelled s \<Longrightarrow>
    wstep e s (Quit i) (set_worker i Returned s)"
| cancel: "\<not> pl_cancelled s \<Longrightarrow> wstep e s Cancel (s\<lparr>pl_cancelled := True\<rparr>)"

inductive wsteps :: "'c Enricher \<Rightarrow> 'c pool \<Rightarrow> 'e wact list \<Rightarrow> 'c pool \<Rightarrow> bool" for e where
  none: "wsteps e s [] s"
| snoc: "wsteps e s as t \<Longrightarrow> wstep e t a u \<Longrightarrow> wsteps e s (as @ [a]) u"

inductive_simps wstep_Cancel: "wstep e s Cancel t"

section \<open>Nothing is lost, made up or done twice\<close>

text \<open>What enriching keeps of an event: the chain event and when it entered the pipeline.\<close>

definition in_key :: "(ChainEvent, 'c) Traced \<Rightarrow> ChainEvent \<times> time" where
  "in_key x = (tr_Value x, tr_StartedAt x)"

definition out_key :: "(EnrichedEvent, 'c) Traced \<Rightarrow> ChainEvent \<times> time" where
  "out_key y = (ChainEvent.truncate (tr_Value y), tr_StartedAt y)"

lemma out_key_processEvent [simp]: "out_key (processEvent tel reg x r) = in_key x"
  by (simp add: out_key_def in_key_def processEvent_def Let_def)

fun held :: "'c wstate \<Rightarrow> (ChainEvent \<times> time) list" where
  "held (Got x) = [in_key x]"
| "held (Ready y) = [out_key y]"
| "held _ = []"

definition in_pool :: "'c pool \<Rightarrow> (ChainEvent \<times> time) multiset" where
  "in_pool s = mset (map out_key (pl_out s)) + mset (concat (map held (pl_workers s))) + mset (map in_key (pl_in s))"

lemma mset_held_update:
  assumes "i < length ws"
  shows "mset (concat (map held (ws[i := w]))) + mset (held (ws ! i)) = mset (concat (map held ws)) + mset (held w)"
  using assms
proof (induction ws arbitrary: i)
  case (Cons v ws)
  then show ?case by (cases i) (auto simp: ac_simps)
qed simp

lemma set_worker_simps [simp]:
  "pl_in (set_worker i w s) = pl_in s" "pl_out (set_worker i w s) = pl_out s"
  "pl_cancelled (set_worker i w s) = pl_cancelled s"
  "pl_workers (set_worker i w s) = (pl_workers s)[i := w]"
  by (simp_all add: set_worker_def)

lemma in_pool_set_worker:
  "i < length (pl_workers s) \<Longrightarrow>
   in_pool (set_worker i w s) + mset (held (pl_workers s ! i)) = in_pool s + mset (held w)"
  using mset_held_update [of i "pl_workers s" w] by (simp add: in_pool_def ac_simps)

lemma in_pool_simps [simp]:
  "in_pool (s\<lparr>pl_cancelled := c\<rparr>) = in_pool s"
  "in_pool (s\<lparr>pl_out := pl_out s @ [y]\<rparr>) = in_pool s + {#out_key y#}"
  "pl_in s = x # xs \<Longrightarrow> in_pool s = in_pool (s\<lparr>pl_in := xs\<rparr>) + {#in_key x#}"
  by (simp_all add: in_pool_def ac_simps)

lemma wstep_in_pool:
  assumes "wstep e s a t"
  shows "in_pool t \<subseteq># in_pool s \<and> (\<not> pl_cancelled t \<longrightarrow> in_pool t = in_pool s)"
  using assms
proof cases
  case (take i x xs)
  let ?s = "s\<lparr>pl_in := xs\<rparr>" and ?w = "if pl_cancelled s then Returned else Got x"
  have "in_pool t = in_pool ?s + mset (held ?w)"
    using in_pool_set_worker [of i ?s ?w] take by simp
  moreover have "in_pool s = in_pool ?s + {#in_key x#}" using take by simp
  ultimately show ?thesis using take by auto
next
  case (closed i)
  then show ?thesis using in_pool_set_worker [of i s Returned] by simp
next
  case (enriched i x r)
  then show ?thesis using in_pool_set_worker [of i s "Ready (processEvent (en_tel e) (en_reg e) x r)"] by simp
next
  case (send i y)
  then show ?thesis using in_pool_set_worker [of i "s\<lparr>pl_out := pl_out s @ [y]\<rparr>" Idle] by simp
next
  case (give_up i y)
  then have "in_pool s = in_pool t + {#out_key y#}" using in_pool_set_worker [of i s Returned] by simp
  then show ?thesis using give_up by simp
next
  case cancel
  then show ?thesis by simp
qed

lemma wstep_cancelled: "wstep e s a t \<Longrightarrow> pl_cancelled s \<Longrightarrow> pl_cancelled t"
  by (auto elim: wstep.cases)

lemma wsteps_cancelled: "wsteps e s as t \<Longrightarrow> \<not> pl_cancelled t \<Longrightarrow> \<not> pl_cancelled s"
  by (induction rule: wsteps.induct) (auto dest: wstep_cancelled)

lemma wsteps_in_pool:
  "wsteps e s as t \<Longrightarrow> in_pool t \<subseteq># in_pool s \<and> (\<not> pl_cancelled t \<longrightarrow> in_pool t = in_pool s)"
proof (induction rule: wsteps.induct)
  case (snoc s as t a u)
  then show ?case using wstep_in_pool [OF snoc.hyps(2)] wstep_cancelled [OF snoc.hyps(2)]
    by (auto intro: subset_mset.order_trans)
qed simp

text \<open>Once a worker has returned without a cancellation, the input is used up.\<close>

definition used_up :: "'c pool \<Rightarrow> bool" where
  "used_up s \<longleftrightarrow> (\<not> pl_cancelled s \<longrightarrow> Returned \<in> set (pl_workers s) \<longrightarrow> pl_in s = [])"

lemma wstep_used_up: "wstep e s a t \<Longrightarrow> used_up s \<Longrightarrow> used_up t"
  by (cases rule: wstep.cases)
    (auto simp: used_up_def dest!: subsetD [OF set_update_subset_insert])

lemma wsteps_used_up: "wsteps e s as t \<Longrightarrow> used_up s \<Longrightarrow> used_up t"
  by (induction rule: wsteps.induct) (auto intro: wstep_used_up)

definition finished :: "'c pool \<Rightarrow> bool" where
  "finished s \<longleftrightarrow> set (pl_workers s) \<subseteq> {Returned}"

lemma in_pool_finished: "finished s \<Longrightarrow> in_pool s = mset (map out_key (pl_out s)) + mset (map in_key (pl_in s))"
  by (auto simp: finished_def in_pool_def)

lemma in_pool_Run [simp]: "in_pool (Run e ins) = mset (map in_key ins)"
  by (simp add: Run_def in_pool_def)

lemma Run_simps [simp]:
  "pl_in (Run e ins) = ins" "pl_out (Run e ins) = []" "\<not> pl_cancelled (Run e ins)"
  "pl_workers (Run e ins) = replicate (nat (en_workers e)) Idle"
  by (simp_all add: Run_def)

lemma wstep_workers: "wstep e s a t \<Longrightarrow> length (pl_workers t) = length (pl_workers s)"
  by (cases rule: wstep.cases) auto

lemma wsteps_workers: "wsteps e s as t \<Longrightarrow> length (pl_workers t) = length (pl_workers s)"
  by (induction rule: wsteps.induct) (auto dest: wstep_workers)

text \<open>However the workers interleave, the pool neither makes up nor repeats an event: what it has
  sent, holds and has still to read is always part of what it was given, as a multiset, and all of
  it as long as the context is not cancelled. When all workers have returned without a
  cancellation, each event of the input was sent exactly once.\<close>

theorem pool_conserves_events:
  assumes "wsteps e (Run e ins) as s" "0 < en_workers e"
  shows "in_pool s \<subseteq># mset (map in_key ins) \<and>
    (\<not> pl_cancelled s \<longrightarrow> in_pool s = mset (map in_key ins) \<and>
      (finished s \<longrightarrow> mset (map out_key (pl_out s)) = mset (map in_key ins)))"
proof -
  have "used_up (Run e ins)" by (auto simp: used_up_def)
  then have "used_up s" by (rule wsteps_used_up [OF assms(1)])
  moreover have "length (pl_workers s) = nat (en_workers e)" using wsteps_workers [OF assms(1)] by simp
  then have "pl_workers s \<noteq> []" using assms(2) by auto
  ultimately have "finished s \<Longrightarrow> \<not> pl_cancelled s \<Longrightarrow> pl_in s = []"
    by (cases "pl_workers s") (auto simp: used_up_def finished_def)
  then show ?thesis using wsteps_in_pool [OF assms(1)] in_pool_finished [of s] by auto
qed

section \<open>The pool always finishes\<close>

fun to_do :: "'c wstate \<Rightarrow> nat" where
  "to_do (Got x) = 3"
| "to_do (Ready y) = 2"
| "to_do Idle = 1"
| "to_do Returned = 0"

definition work :: "'c pool \<Rightarrow> nat" where
  "work s = 4 * length (pl_in s) + sum_list (map to_do (pl_workers s)) + (if pl_cancelled s then 0 else 1)"

lemma sum_to_do_update:
  "i < length ws \<Longrightarrow>
   sum_list (map to_do (ws[i := w])) + to_do (ws ! i) = sum_list (map to_do ws) + to_do w"
proof (induction ws arbitrary: i)
  case (Cons v ws)
  then show ?case by (cases i) auto
qed simp

lemma wstep_work:
  assumes "wstep e s a t"
  shows "work t < work s"
  using assms
proof cases
  case (take i x xs)
  then show ?thesis
    using sum_to_do_update [of i "pl_workers s" "if pl_cancelled s then Returned else Got x"]
    by (auto simp: work_def split: if_splits)
next
  case (closed i)
  then show ?thesis using sum_to_do_update [of i "pl_workers s" Returned] by (auto simp: work_def)
next
  case (enriched i x r)
  then show ?thesis
    using sum_to_do_update [of i "pl_workers s" "Ready (processEvent (en_tel e) (en_reg e) x r)"]
    by (auto simp: work_def)
next
  case (send i y)
  then show ?thesis using sum_to_do_update [of i "pl_workers s" Idle] by (auto simp: work_def)
next
  case (give_up i y)
  then show ?thesis using sum_to_do_update [of i "pl_workers s" Returned] by (auto simp: work_def)
next
  case cancel
  then show ?thesis by (simp add: work_def)
qed

lemma wsteps_work: "wsteps e s as t \<Longrightarrow> length as + work t \<le> work s"
  by (induction rule: wsteps.induct) (auto dest: wstep_work)

lemma stuck_iff_finished:
  "(\<forall>a t. wstep e s a t \<longrightarrow> a = Cancel) \<longleftrightarrow> finished s"
proof
  assume stuck: "\<forall>a t. wstep e s a t \<longrightarrow> a = Cancel"
  show "finished s" unfolding finished_def
  proof
    fix w assume "w \<in> set (pl_workers s)"
    then obtain i where i: "i < length (pl_workers s)" "pl_workers s ! i = w" by (meson in_set_conv_nth)
    show "w \<in> {Returned}"
    proof (cases w)
      case Idle
      then show ?thesis
        using i stuck wstep.take [of i s _ _ e] wstep.closed [of i s e] by (cases "pl_in s") blast+
    next
      case (Got x)
      then show ?thesis using i stuck wstep.enriched [of i s x e] by blast
    next
      case (Ready y)
      then show ?thesis using i stuck wstep.send [of i s y e] by blast
    qed simp
  qed
next
  assume "finished s"
  then have "pl_workers s ! i = Returned" if "i < length (pl_workers s)" for i
    using that nth_mem unfolding finished_def by blast
  then show "\<forall>a t. wstep e s a t \<longrightarrow> a = Cancel" by (auto elim!: wstep.cases)
qed

text \<open>The pool terminates and does not deadlock: no execution has more than four steps per event,
  one per worker and a cancellation, and as long as some worker has not returned, some worker can
  take a step, so every execution that goes on until none can ends with all workers returned (and
  the output channel closed).\<close>

theorem pool_terminates:
  assumes "wsteps e (Run e ins) as s"
  shows "length as \<le> 4 * length ins + nat (en_workers e) + 1 \<and>
    (finished s \<or> (\<exists>a t. wstep e s a t \<and> a \<noteq> Cancel))"
proof -
  have "work (Run e ins) = 4 * length ins + nat (en_workers e) + 1"
    by (simp add: work_def sum_list_replicate)
  then show ?thesis using wsteps_work [OF assms] stuck_iff_finished [of e s] by auto
qed

section \<open>Order\<close>

text \<open>With one worker, what was sent, what it holds and what it has still to read are the input in order.\<close>

definition in_order :: "'c pool \<Rightarrow> (ChainEvent \<times> time) list \<Rightarrow> bool" where
  "in_order s ks \<longleftrightarrow> length (pl_workers s) = 1 \<and>
     (\<not> pl_cancelled s \<longrightarrow>
        map out_key (pl_out s) @ held (pl_workers s ! 0) @ map in_key (pl_in s) = ks)"

lemma wstep_in_order:
  assumes "wstep e s a t" "in_order s ks"
  shows "in_order t ks"
  using assms
proof cases
  case (take i x xs)
  then show ?thesis using assms(2) by (auto simp: in_order_def)
next
  case (closed i)
  then show ?thesis using assms(2) by (auto simp: in_order_def)
next
  case (enriched i x r)
  then show ?thesis using assms(2) by (auto simp: in_order_def)
next
  case (send i y)
  then show ?thesis using assms(2) by (auto simp: in_order_def)
next
  case (give_up i y)
  then show ?thesis using assms(2) by (auto simp: in_order_def)
next
  case cancel
  then show ?thesis using assms(2) by (auto simp: in_order_def)
qed

lemma wsteps_in_order: "wsteps e s as t \<Longrightarrow> in_order s ks \<Longrightarrow> in_order t ks"
  by (induction rule: wsteps.induct) (auto intro: wstep_in_order)

text \<open>A single worker keeps the order: what it has sent is always an initial part of the input, and
  when it has returned without a cancellation it is the whole input, in order.\<close>

theorem one_worker_keeps_order:
  assumes "wsteps e (Run e ins) as s" "en_workers e = 1" "\<not> pl_cancelled s"
  shows "prefix (map out_key (pl_out s)) (map in_key ins) \<and>
    (finished s \<longrightarrow> map out_key (pl_out s) = map in_key ins)"
proof -
  have "in_order (Run e ins) (map in_key ins)" using assms(2) by (simp add: in_order_def)
  then have o: "in_order s (map in_key ins)" by (rule wsteps_in_order [OF assms(1)])
  moreover have "used_up s" by (rule wsteps_used_up [OF assms(1)]) (auto simp: used_up_def)
  moreover obtain w where "pl_workers s = [w]" using o by (auto simp: in_order_def length_Suc_conv)
  ultimately show ?thesis using assms(3)
    by (auto simp: in_order_def used_up_def finished_def intro: prefixI [OF sym])
qed

text \<open>A single worker, event by event: each result is what \<open>processEvent\<close> makes of its event with some answer of
  the provider.\<close>

definition enriched_by :: "'c Enricher \<Rightarrow> (ChainEvent, 'c) Traced \<Rightarrow> (EnrichedEvent, 'c) Traced \<Rightarrow> bool" where
  "enriched_by e x y \<longleftrightarrow> (\<exists>r :: unit + float64. y = processEvent (en_tel e) (en_reg e) x r)"

lemma amount_usd_map: "amount_usd a (map_sum f id r) = amount_usd a r"
  by (cases r) (simp_all add: amount_usd_def)

lemma enriched_by_processEvent: "enriched_by e x (processEvent (en_tel e) (en_reg e) x r)"
proof -
  have "processEvent (en_tel e) (en_reg e) x r = processEvent (en_tel e) (en_reg e) x (map_sum (\<lambda>_. ()) id r)"
    by (simp add: processEvent_def enrich_with_def amount_usd_map split: option.split)
  then show ?thesis unfolding enriched_by_def by blast
qed

fun held_input :: "'c Enricher \<Rightarrow> 'c wstate \<Rightarrow> (ChainEvent, 'c) Traced list \<Rightarrow> bool" where
  "held_input e (Got x) xs \<longleftrightarrow> xs = [x]"
| "held_input e (Ready y) xs \<longleftrightarrow> (\<exists>x. xs = [x] \<and> enriched_by e x y)"
| "held_input e w xs \<longleftrightarrow> xs = []"

definition single_inv :: "'c Enricher \<Rightarrow> (ChainEvent, 'c) Traced list \<Rightarrow> 'c pool \<Rightarrow> bool" where
  "single_inv e ins s \<longleftrightarrow> length (pl_workers s) = 1 \<and>
     (\<not> pl_cancelled s \<longrightarrow> (\<exists>fin hold. ins = fin @ hold @ pl_in s \<and>
        list_all2 (enriched_by e) fin (pl_out s) \<and> held_input e (pl_workers s ! 0) hold))"

lemma wstep_single:
  assumes "wstep e s a t" "single_inv e ins s"
  shows "single_inv e ins t"
  using assms
proof cases
  case (send i y)
  show ?thesis
  proof (cases "pl_cancelled s")
    case True
    then show ?thesis using send assms(2) by (simp add: single_inv_def)
  next
    case False
    then obtain fin hold where h: "ins = fin @ hold @ pl_in s" "list_all2 (enriched_by e) fin (pl_out s)"
      "held_input e (pl_workers s ! 0) hold" using assms(2) by (auto simp: single_inv_def)
    moreover have "i = 0" using send assms(2) by (simp add: single_inv_def)
    ultimately obtain x where "hold = [x]" "enriched_by e x y" using send by auto
    then have "ins = (fin @ [x]) @ [] @ pl_in t" "list_all2 (enriched_by e) (fin @ [x]) (pl_out t)"
      "held_input e (pl_workers t ! 0) []"
      using h send \<open>i = 0\<close> by (auto intro: list_all2_appendI)
    moreover have "length (pl_workers t) = 1" using send assms(2) by (simp add: single_inv_def)
    ultimately show ?thesis unfolding single_inv_def by blast
  qed
qed (use assms(2) enriched_by_processEvent in \<open>fastforce simp: single_inv_def\<close>)+

lemma wsteps_single: "wsteps e s as t \<Longrightarrow> single_inv e ins s \<Longrightarrow> single_inv e ins t"
  by (induction rule: wsteps.induct) (auto intro: wstep_single)

lemma one_worker_results:
  assumes "wsteps e (Run e ins) as s" "en_workers e = 1" "\<not> pl_cancelled s" "finished s"
  shows "list_all2 (enriched_by e) ins (pl_out s)"
proof -
  have "single_inv e ins (Run e ins)" using assms(2) by (simp add: single_inv_def Run_def)
  then have "single_inv e ins s" by (rule wsteps_single [OF assms(1)])
  moreover have "used_up s" by (rule wsteps_used_up [OF assms(1)]) (auto simp: used_up_def)
  ultimately show ?thesis using assms(3,4)
    by (auto simp: single_inv_def used_up_def finished_def length_Suc_conv)
qed

text \<open>The step of a label, computed.\<close>

definition worker_at :: "'c pool \<Rightarrow> nat \<Rightarrow> 'c wstate option" where
  "worker_at s i = (if i < length (pl_workers s) then Some (pl_workers s ! i) else None)"

fun wexec :: "'c Enricher \<Rightarrow> 'c pool \<Rightarrow> 'e wact \<Rightarrow> 'c pool option" where
  "wexec e s (Take i) =
     (case (worker_at s i, pl_in s) of
        (Some Idle, x # xs) \<Rightarrow> Some (set_worker i (if pl_cancelled s then Returned else Got x) (s\<lparr>pl_in := xs\<rparr>))
      | _ \<Rightarrow> None)"
| "wexec e s (Enrich i r) =
     (case worker_at s i of
        Some (Got x) \<Rightarrow> Some (set_worker i (Ready (processEvent (en_tel e) (en_reg e) x r)) s)
      | _ \<Rightarrow> None)"
| "wexec e s (Send i) =
     (case worker_at s i of
        Some (Ready y) \<Rightarrow> Some (set_worker i Idle (s\<lparr>pl_out := pl_out s @ [y]\<rparr>))
      | _ \<Rightarrow> None)"
| "wexec e s (Quit i) =
     (case worker_at s i of
        Some Idle \<Rightarrow> if pl_in s = [] then Some (set_worker i Returned s) else None
      | Some (Ready y) \<Rightarrow> if pl_cancelled s then Some (set_worker i Returned s) else None
      | _ \<Rightarrow> None)"
| "wexec e s Cancel = (if pl_cancelled s then None else Some (s\<lparr>pl_cancelled := True\<rparr>))"

lemma wexec_wstep: "wexec e s a = Some t \<Longrightarrow> wstep e s a t"
proof -
  have take: "wstep e s (Take i) (set_worker i w (s\<lparr>pl_in := xs\<rparr>))"
    if "i < length (pl_workers s)" "pl_workers s ! i = Idle" "pl_in s = x # xs"
      "w = (if pl_cancelled s then Returned else Got x)" for i x xs w
    unfolding that(4) by (rule wstep.take [OF that(1-3)])
  show "wexec e s a = Some t \<Longrightarrow> wstep e s a t"
    by (cases a) (auto simp: worker_at_def split: if_splits wstate.splits list.splits
        intro: wstep.intros take)
qed

lemma wexec_iff: "wexec e s a = Some t \<longleftrightarrow> wstep e s a t"
  using wexec_wstep by (auto simp: worker_at_def elim!: wstep.cases)

fun wexecs :: "'c Enricher \<Rightarrow> 'c pool \<Rightarrow> 'e wact list \<Rightarrow> 'c pool option" where
  "wexecs e s [] = Some s"
| "wexecs e s (a # as) = (case wexec e s a of None \<Rightarrow> None | Some t \<Rightarrow> wexecs e t as)"

lemma wexecs_wsteps: "wsteps e s as t \<Longrightarrow> wexecs e t bs = Some u \<Longrightarrow> wsteps e s (as @ bs) u"
proof (induction bs arbitrary: as t)
  case (Cons b bs)
  then obtain t' where "wexec e t b = Some t'" "wexecs e t' bs = Some u" by (auto split: option.splits)
  then show ?case using Cons.IH [of "as @ [b]" t'] wsteps.snoc [OF Cons.prems(1), of b t'] wexec_iff by auto
qed simp

lemmas wexecs_run = wexecs_wsteps [OF wsteps.none, unfolded append_Nil]

text \<open>Idle workers return one after the other once the input is closed.\<close>

lemma idle_workers_return:
  assumes "pl_in s = []" "pl_workers s = replicate m Returned @ replicate k Idle"
  shows "\<exists>as :: 'e wact list. wexecs e s as = Some (s\<lparr>pl_workers := replicate (m + k) Returned\<rparr>)"
  using assms
proof (induction k arbitrary: m s)
  case 0
  then have "s = s\<lparr>pl_workers := replicate (m + 0) Returned\<rparr>" by simp
  then show ?case by (metis wexecs.simps(1))
next
  case (Suc k)
  let ?t = "set_worker m Returned s"
  have "wexec e s (Quit m :: 'e wact) = Some ?t" using Suc.prems by (simp add: worker_at_def nth_append)
  moreover have "pl_workers ?t = replicate (Suc m) Returned @ replicate k Idle" "pl_in ?t = []"
    using Suc.prems by (simp_all add: list_update_append replicate_app_Cons_same)
  from Suc.IH [OF this(2,1)] obtain as :: "'e wact list" where
    "wexecs e ?t as = Some (?t\<lparr>pl_workers := replicate (Suc m + k) Returned\<rparr>)" by blast
  ultimately have "wexecs e s (Quit m # as) = Some (s\<lparr>pl_workers := replicate (m + Suc k) Returned\<rparr>)"
    by (simp add: set_worker_def)
  then show ?case by blast
qed

lemma pool_can_reorder:
  fixes e :: "'c Enricher" and r1 r2 :: "'e + float64"
  assumes "2 \<le> en_workers e"
  shows "\<exists>(as :: 'e wact list) s. wsteps e (Run e [x, y]) as s \<and> \<not> pl_cancelled s \<and> finished s \<and>
    pl_out s = [processEvent (en_tel e) (en_reg e) y r2, processEvent (en_tel e) (en_reg e) x r1]"
proof -
  define n where "n = nat (en_workers e) - 2"
  have n: "nat (en_workers e) = Suc (Suc n)" using assms by (simp add: n_def)
  let ?outs = "[processEvent (en_tel e) (en_reg e) y r2, processEvent (en_tel e) (en_reg e) x r1]"
  let ?s = "\<lparr>pl_in = [], pl_workers = Idle # Idle # replicate n Idle, pl_out = ?outs, pl_cancelled = False\<rparr>"
  let ?as = "[Take 0, Take 1, Enrich 1 r2, Send 1, Enrich 0 r1, Send 0]"
  have "wexecs e (Run e [x, y]) ?as = Some ?s"
    by (simp add: Run_def n worker_at_def set_worker_def)
  moreover have "pl_workers ?s = replicate 0 Returned @ replicate (Suc (Suc n)) Idle" by simp
  then obtain bs :: "'e wact list" where "wexecs e ?s bs = Some (?s\<lparr>pl_workers := replicate (0 + Suc (Suc n)) Returned\<rparr>)"
    using idle_workers_return [of ?s 0 "Suc (Suc n)" e] by (simp only: pool.select_convs) blast
  ultimately have "wsteps e (Run e [x, y]) (?as @ bs) (?s\<lparr>pl_workers := replicate (0 + Suc (Suc n)) Returned\<rparr>)"
    using wexecs_run wexecs_wsteps by blast
  then show ?thesis by (intro exI conjI) (assumption, auto simp: finished_def)
qed

text \<open>Two workers need not: with at least two of them, any two events can leave the pool in the
  opposite order, without any error or cancellation.\<close>

theorem workers_can_reorder:
  fixes e :: "'c Enricher" and r1 r2 :: "'e + float64"
  assumes "2 \<le> en_workers e"
  shows "\<exists>(as :: 'e wact list) s. wsteps e (Run e [x, y]) as s \<and> \<not> pl_cancelled s \<and> finished s \<and>
    pl_out s = [processEvent (en_tel e) (en_reg e) y r2, processEvent (en_tel e) (en_reg e) x r1]"
  using assms by (rule pool_can_reorder)

section \<open>Instances\<close>

definition demo_tel :: "unit tel" where
  "demo_tel = \<lparr>tl_Adapter = False, tl_Normalizer = False, tl_Enricher = False, tl_Engine = False,
     tl_Emitter = False, tl_Start = (\<lambda>_ c. c)\<rparr>"

definition demo_traced :: "string \<Rightarrow> (ChainEvent, unit) Traced" where
  "demo_traced addr = \<lparr>tr_Value = ChainEvent.truncate (demo_event EventBridgeDeposit addr None),
     tr_Ctx = (), tr_StartedAt = 0\<rparr>"

definition demo_pool_run :: "string wact list" where
  "demo_pool_run = [Take 0, Enrich 0 (Inl ''no price''), Send 0, Quit 0]"

definition demo_pool_end :: "unit pool" where
  "demo_pool_end = \<lparr>pl_in = [], pl_workers = [Returned],
     pl_out = [processEvent demo_tel demo_feeds (demo_traced ''0x1'') (Inl ''no price'' :: string + float64)],
     pl_cancelled = False\<rparr>"

lemma demo_pool_steps: "wsteps (New demo_feeds 1 demo_tel) (Run (New demo_feeds 1 demo_tel) [demo_traced ''0x1'']) demo_pool_run demo_pool_end"
  by (rule wexecs_run)
    (simp add: demo_pool_run_def demo_pool_end_def Run_def New_def worker_at_def set_worker_def)

lemma demo_pool_end_simps: "\<not> pl_cancelled demo_pool_end" "finished demo_pool_end"
  by (simp_all add: demo_pool_end_def finished_def)

lemma pool_conserves_events_witness:
  "mset (map out_key (pl_out demo_pool_end)) = {#in_key (demo_traced ''0x1'')#}"
  using pool_conserves_events [OF demo_pool_steps] demo_pool_end_simps by (simp add: New_def)

lemma pool_terminates_witness: "length demo_pool_run \<le> 4 * 1 + 1 + 1"
  using conjunct1 [OF pool_terminates [OF demo_pool_steps]] by (simp add: New_def)

lemma one_worker_keeps_order_witness:
  "map out_key (pl_out demo_pool_end) = [in_key (demo_traced ''0x1'')]"
  using one_worker_keeps_order [OF demo_pool_steps] demo_pool_end_simps by (simp add: New_def)

lemma workers_can_reorder_witness:
  "\<exists>(as :: string wact list) s. let e = New demo_feeds 0 demo_tel in
    wsteps e (Run e [demo_traced ''0x1'', demo_traced ''0x2'']) as s \<and> \<not> pl_cancelled s \<and> finished s \<and>
    map out_key (pl_out s) = map in_key [demo_traced ''0x2'', demo_traced ''0x1'']"
  using workers_can_reorder [of "New demo_feeds 0 demo_tel" "demo_traced ''0x1''" "demo_traced ''0x2''"
      "Inl ''no price''" "Inl ''no price''"]
  by (fastforce simp: New_def Let_def)

end
