(* ===== verification/Block_Cache.thy ===== *)
theory Block_Cache
  imports Prelude "HOL-Library.AList"
begin

text \<open>
  The cache of block timestamps (\<open>internal/adapter/evm/blockcache.go\<close>): block numbers are \<open>uint64\<close>
  words. \<open>Set\<close> ranges over the map while it deletes; the entries are an association list, whose
  order does not matter to the result. Both operations hold the cache's lock.
\<close>

section \<open>State and operations\<close>

record BlockCache =
  bc_maxSize :: uint64
  bc_entries :: "(uint64 \<times> int64) list"
  bc_latest :: uint64

definition NewBlockCache :: "int64 \<Rightarrow> BlockCache" where
  "NewBlockCache maxSize =
     (let maxSize = (if maxSize < 1 then 1 else maxSize)
      in \<lparr>bc_maxSize = word_of_int maxSize, bc_entries = [], bc_latest = 0\<rparr>)"

definition Get :: "BlockCache \<Rightarrow> uint64 \<Rightarrow> int64 option" where
  "Get c block = (case map_of (bc_entries c) block of Some ts \<Rightarrow> Some ts | None \<Rightarrow> None)"

definition Set :: "BlockCache \<Rightarrow> uint64 \<Rightarrow> int64 \<Rightarrow> BlockCache" where
  "Set c block timestamp =
     (let c1 = c\<lparr>bc_entries := AList.update block timestamp (bc_entries c)\<rparr>;
          c2 = (if block > bc_latest c1 then c1\<lparr>bc_latest := block\<rparr> else c1)
      in if bc_latest c2 > bc_maxSize c2
         then (let cutoff = bc_latest c2 - bc_maxSize c2
               in c2\<lparr>bc_entries := filter (\<lambda>(b, _). \<not> b < cutoff) (bc_entries c2)\<rparr>)
         else c2)"

section \<open>Lookups after stores\<close>

text \<open>The blocks that survive with \<open>latest\<close> as the newest block.\<close>

definition retained :: "uint64 \<Rightarrow> uint64 \<Rightarrow> uint64 \<Rightarrow> bool" where
  "retained maxSize latest b \<longleftrightarrow> \<not> (latest > maxSize \<and> b < latest - maxSize)"

lemma Get_map: "Get c b = map_of (bc_entries c) b"
  by (simp add: Get_def split: option.split)

lemma map_of_filter_key: "map_of (filter (\<lambda>(k, _). P k) xs) k = (if P k then map_of xs k else None)"
  by (induction xs) auto

lemma Set_fields [simp]:
  "bc_maxSize (Set c b t) = bc_maxSize c" "bc_latest (Set c b t) = max (bc_latest c) b"
  by (auto simp: Set_def Let_def max_def)

lemma Set_entries:
  "bc_entries (Set c b t) =
     filter (\<lambda>(k, _). retained (bc_maxSize c) (max (bc_latest c) b) k)
       (AList.update b t (bc_entries c))"
  by (auto simp: Set_def Let_def retained_def max_def intro!: filter_cong)

lemma Get_Set_lookup:
  "Get (Set c b t) k =
     (if retained (bc_maxSize c) (max (bc_latest c) b) k
      then if k = b then Some t else Get c k else None)"
  by (simp add: Get_map Set_entries map_of_filter_key update_conv')

lemma retained_iff:
  "retained m l b \<longleftrightarrow> unat l \<le> unat b + unat m"
  unfolding retained_def by (auto simp: word_less_nat_alt unat_sub word_le_nat_alt)

text \<open>A store keeps exactly the blocks at most \<open>maxSize\<close> behind the newest block seen (whatever the
  order in which blocks arrive, and without wrap-around for chains younger than that), with the
  stored block's new timestamp and every other block's old one; in particular a block older than
  that is not there even right after it is stored.\<close>

theorem Get_after_Set:
  "Get (Set c b t) k =
     (if unat (max (bc_latest c) b) \<le> unat k + unat (bc_maxSize c)
      then if k = b then Some t else Get c k else None)"
  by (simp add: Get_Set_lookup retained_iff)

section \<open>Size\<close>

definition cache_ok :: "BlockCache \<Rightarrow> bool" where
  "cache_ok c \<longleftrightarrow> distinct (map fst (bc_entries c)) \<and>
     (\<forall>b\<in>fst ` set (bc_entries c). b \<le> bc_latest c \<and> retained (bc_maxSize c) (bc_latest c) b)"

lemma cache_ok_New [inv_intros]: "cache_ok (NewBlockCache n)"
  by (simp add: cache_ok_def NewBlockCache_def Let_def)

lemma retained_mono: "retained m l b \<Longrightarrow> l' \<le> l \<Longrightarrow> retained m l' b"
  by (auto simp: retained_iff word_le_nat_alt)

lemma cache_ok_Set [inv_intros]:
  assumes "cache_ok c"
  shows "cache_ok (Set c b t)"
proof -
  let ?es = "AList.update b t (bc_entries c)"
  let ?P = "retained (bc_maxSize c) (max (bc_latest c) b)"
  have "distinct (map fst ?es)" using assms by (simp add: cache_ok_def distinct_update)
  then have "distinct (map fst (filter (\<lambda>(k, _). ?P k) ?es))"
    by (simp add: distinct_map inj_on_def)
  moreover have "\<forall>k\<in>fst ` set (filter (\<lambda>(k, _). ?P k) ?es). k \<le> max (bc_latest c) b \<and> ?P k"
  proof
    fix k assume k: "k \<in> fst ` set (filter (\<lambda>(k, _). ?P k) ?es)"
    then have P: "?P k" and "k \<in> fst ` set ?es" by auto
    then have "k = b \<or> k \<in> fst ` set (bc_entries c)" by (simp add: dom_update)
    then have "k \<le> max (bc_latest c) b"
    proof
      assume "k \<in> fst ` set (bc_entries c)"
      then have "k \<le> bc_latest c" using assms unfolding cache_ok_def by blast
      then show ?thesis by (rule max.coboundedI1)
    qed simp
    with P show "k \<le> max (bc_latest c) b \<and> ?P k" by blast
  qed
  ultimately show ?thesis unfolding cache_ok_def Set_entries Set_fields by (rule conjI)
qed

lemma cache_size:
  assumes "cache_ok c"
  shows "length (bc_entries c) \<le> unat (bc_maxSize c) + 1"
proof -
  let ?K = "fst ` set (bc_entries c)"
  have "length (bc_entries c) = card ?K"
    using assms distinct_card [of "map fst (bc_entries c)"] by (simp add: cache_ok_def)
  also have "\<dots> = card (unat ` ?K)" by (intro card_image [symmetric]) (simp add: inj_on_def word_unat_eq_iff)
  also have "\<dots> \<le> card {unat (bc_latest c) - unat (bc_maxSize c)..unat (bc_latest c)}"
  proof (intro card_mono subsetI)
    fix x assume "x \<in> unat ` ?K"
    then obtain b where "b \<in> ?K" "x = unat b" by blast
    then show "x \<in> {unat (bc_latest c) - unat (bc_maxSize c)..unat (bc_latest c)}"
      using assms by (auto simp: cache_ok_def retained_iff word_le_nat_alt)
  qed simp
  also have "\<dots> \<le> unat (bc_maxSize c) + 1" by simp
  finally show ?thesis .
qed

fun set_all :: "BlockCache \<Rightarrow> (uint64 \<times> int64) list \<Rightarrow> BlockCache" where
  "set_all c [] = c"
| "set_all c ((b, t) # xs) = set_all (Set c b t) xs"

lemma set_all_ok: "cache_ok c \<Longrightarrow> cache_ok (set_all c xs) \<and> bc_maxSize (set_all c xs) = bc_maxSize c"
  by (induction c xs rule: set_all.induct) (auto intro: cache_ok_Set)

text \<open>Whatever blocks are stored, in any order, the cache never holds more than one entry above the
  configured size (a size below one counts as one).\<close>

theorem BlockCache_bounded:
  assumes "n < 2 ^ 63"
  shows "int (length (bc_entries (set_all (NewBlockCache n) xs))) \<le> max 1 n + 1"
proof -
  have "cache_ok (set_all (NewBlockCache n) xs)"
    and m: "bc_maxSize (set_all (NewBlockCache n) xs) = word_of_int (max 1 n)"
    using set_all_ok [OF cache_ok_New [of n], of xs] by (auto simp: NewBlockCache_def Let_def max_def)
  then have "length (bc_entries (set_all (NewBlockCache n) xs)) \<le> unat (word_of_int (max 1 n) :: uint64) + 1"
    using cache_size m by metis
  moreover have "unat (word_of_int (max 1 n) :: uint64) = nat (max 1 n)"
    using assms by (simp add: unat_eq_nat_uint uint_word_of_int)
  ultimately show ?thesis by linarith
qed

lemma BlockCache_bounded_witness:
  "int (length (bc_entries (set_all (NewBlockCache 1) [(10, 5), (11, 6), (12, 7)]))) \<le> 2"
  using BlockCache_bounded [of 1 "[(10, 5), (11, 6), (12, 7)]"] by simp

section \<open>The contract of the cache\<close>

text \<open>
  What the adapter relies on: a cache may forget, but it never answers with anything other than
  what was stored last for the block asked about. A cache filled from one source of truth
  therefore never lies about it.
\<close>

locale timestamp_cache =
  fixes lookup :: "'c \<Rightarrow> 'b \<Rightarrow> 't option"
    and store :: "'c \<Rightarrow> 'b \<Rightarrow> 't \<Rightarrow> 'c"
    and empty :: 'c
  assumes lookup_empty: "lookup empty b = None"
    and lookup_store_same: "lookup (store c b t) b = Some x \<Longrightarrow> x = t"
    and lookup_store_other: "b' \<noteq> b \<Longrightarrow> lookup (store c b t) b' = Some x \<Longrightarrow> lookup c b' = Some x"
begin

lemma coherent_empty: "\<forall>b x. lookup empty b = Some x \<longrightarrow> truth b = x"
  by (simp add: lookup_empty)

lemma coherent_store:
  "\<forall>b x. lookup c b = Some x \<longrightarrow> truth b = x \<Longrightarrow> truth k = t \<Longrightarrow>
   \<forall>b x. lookup (store c k t) b = Some x \<longrightarrow> truth b = x"
  by (metis lookup_store_same lookup_store_other)

end

interpretation block_cache: timestamp_cache Get Set "NewBlockCache n" for n
  by unfold_locales (auto simp: Get_Set_lookup split: if_splits, simp add: Get_map NewBlockCache_def Let_def)

end
