(* ===== verification/Reconnect.thy ===== *)
theory Reconnect
  imports Prelude
begin

text \<open>
  The reconnect loop of \<open>internal/adapter/reconnect.go\<close>. Its environment, the context and the
  function \<open>connect\<close>, is a record of what each of its observations returns in the \<open>i\<close>-th attempt:
  \<open>ctx.Err()\<close> before and after the attempt, the error of \<open>connect\<close>, and which arm of the \<open>select\<close>
  is taken while waiting. The result is the error returned and the waits that were begun, in order.
\<close>

record ReconnectConfig =
  rc_InitialBackoff :: duration
  rc_MaxBackoff :: duration
  rc_MaxRetries :: int

record ('c, 'e) renv =
  rv_ctx_before :: "nat \<Rightarrow> 'c option"
  rv_connect :: "nat \<Rightarrow> 'e option"
  rv_ctx_after :: "nat \<Rightarrow> 'c option"
  rv_wait :: "nat \<Rightarrow> 'c option"

datatype ('c, 'e) rc_result =
    Connected
  | Cancelled 'c
  | RetriesExhausted int 'e
  | NeverTried

definition next_backoff :: "ReconnectConfig \<Rightarrow> duration \<Rightarrow> duration" where
  "next_backoff cfg backoff =
     (let backoff = i64 (backoff * 2)
      in if backoff > rc_MaxBackoff cfg then rc_MaxBackoff cfg else backoff)"

function reconnect_loop ::
  "('c, 'e) renv \<Rightarrow> ReconnectConfig \<Rightarrow> nat \<Rightarrow> duration \<Rightarrow> ('c, 'e) rc_result \<times> duration list" where
  "reconnect_loop env cfg attempt backoff =
     (if int attempt < rc_MaxRetries cfg then
        (case rv_ctx_before env attempt of
           Some c \<Rightarrow> (Cancelled c, [])
         | None \<Rightarrow> (case rv_connect env attempt of
             None \<Rightarrow> (Connected, [])
           | Some err \<Rightarrow> (case rv_ctx_after env attempt of
               Some c \<Rightarrow> (Cancelled c, [])
             | None \<Rightarrow>
                 (if int attempt = rc_MaxRetries cfg - 1
                  then (RetriesExhausted (rc_MaxRetries cfg) err, [])
                  else (case rv_wait env attempt of
                      Some c \<Rightarrow> (Cancelled c, [backoff])
                    | None \<Rightarrow>
                        (case reconnect_loop env cfg (Suc attempt) (next_backoff cfg backoff) of
                           (r, waits) \<Rightarrow> (r, backoff # waits)))))))
      else (NeverTried, []))"
  by pat_completeness auto
termination by (relation "measure (\<lambda>(env, cfg, attempt, _). nat (rc_MaxRetries cfg - int attempt))") auto

declare reconnect_loop.simps [simp del]

definition WithReconnect :: "('c, 'e) renv \<Rightarrow> ReconnectConfig \<Rightarrow> ('c, 'e) rc_result \<times> duration list" where
  "WithReconnect env cfg = reconnect_loop env cfg 0 (rc_InitialBackoff cfg)"

section \<open>What the loop returns\<close>

text \<open>Attempt \<open>i\<close> ended in an error and was followed by a complete wait.\<close>

definition failed_at :: "('c, 'e) renv \<Rightarrow> nat \<Rightarrow> bool" where
  "failed_at env i \<longleftrightarrow> rv_ctx_before env i = None \<and> rv_connect env i \<noteq> None \<and>
     rv_ctx_after env i = None \<and> rv_wait env i = None"

fun backoff_at :: "ReconnectConfig \<Rightarrow> nat \<Rightarrow> duration" where
  "backoff_at cfg 0 = rc_InitialBackoff cfg"
| "backoff_at cfg (Suc i) = next_backoff cfg (backoff_at cfg i)"

lemma loop_after_failures:
  assumes "int n < rc_MaxRetries cfg" "\<forall>i. a \<le> i \<and> i < n \<longrightarrow> failed_at env i" "a \<le> n"
  shows "reconnect_loop env cfg a (backoff_at cfg a) =
    (case reconnect_loop env cfg n (backoff_at cfg n) of
       (r, waits) \<Rightarrow> (r, map (backoff_at cfg) [a..<n] @ waits))"
  using assms(3,1,2)
proof (induction a rule: inc_induct)
  case base
  then show ?case by simp
next
  case (step a)
  have f: "failed_at env a" using step.prems(2) step.hyps by simp
  have IH: "reconnect_loop env cfg (Suc a) (backoff_at cfg (Suc a)) =
    (case reconnect_loop env cfg n (backoff_at cfg n) of
       (r, waits) \<Rightarrow> (r, map (backoff_at cfg) [Suc a..<n] @ waits))"
    using step.IH step.prems by auto
  have "int a < rc_MaxRetries cfg" "int a \<noteq> rc_MaxRetries cfg - 1" using step by simp_all
  then show ?case using f IH step.hyps
    by (subst reconnect_loop.simps)
      (auto simp: failed_at_def upt_conv_Cons split: prod.splits)
qed

lemma WithReconnect_at:
  assumes "int n < rc_MaxRetries cfg" "\<forall>i < n. failed_at env i"
  shows "WithReconnect env cfg =
    (case reconnect_loop env cfg n (backoff_at cfg n) of
       (r, waits) \<Rightarrow> (r, map (backoff_at cfg) [0..<n] @ waits))"
  using loop_after_failures [of n cfg 0 env] assms by (simp add: WithReconnect_def)

lemma loop_stops:
  assumes "int n < rc_MaxRetries cfg" "\<not> failed_at env n \<or> int n = rc_MaxRetries cfg - 1"
  shows "reconnect_loop env cfg n b =
    (case rv_ctx_before env n of Some c \<Rightarrow> (Cancelled c, [])
     | None \<Rightarrow> (case rv_connect env n of None \<Rightarrow> (Connected, [])
       | Some err \<Rightarrow> (case rv_ctx_after env n of Some c \<Rightarrow> (Cancelled c, [])
         | None \<Rightarrow> if int n = rc_MaxRetries cfg - 1 then (RetriesExhausted (rc_MaxRetries cfg) err, [])
             else (case rv_wait env n of Some c \<Rightarrow> (Cancelled c, [b]) | None \<Rightarrow> (NeverTried, [])))))"
  using assms by (subst reconnect_loop.simps) (auto simp: failed_at_def split: option.split)

lemma first_stop:
  assumes "0 < rc_MaxRetries cfg"
  obtains n where "int n < rc_MaxRetries cfg" "\<forall>i < n. failed_at env i"
    "\<not> failed_at env n \<or> int n = rc_MaxRetries cfg - 1"
proof -
  let ?P = "\<lambda>n. \<not> failed_at env n \<or> int n = rc_MaxRetries cfg - 1"
  have "?P (nat (rc_MaxRetries cfg - 1))" using assms by simp
  then have P: "?P (LEAST n. ?P n)" and le: "(LEAST n. ?P n) \<le> nat (rc_MaxRetries cfg - 1)"
    by (rule LeastI, rule Least_le)
  have "\<forall>i < (LEAST n. ?P n). failed_at env i" using not_less_Least by blast
  moreover have "int (LEAST n. ?P n) < rc_MaxRetries cfg" using le assms by linarith
  ultimately show ?thesis using that P by blast
qed

text \<open>C31. The loop always returns, and what it returns is decided by the first attempt that does not
  fail and wait: no error if and only if that attempt connects, the context's error if it is
  cancelled at any of the three places, and otherwise, after exactly \<open>MaxRetries\<close> attempts, the
  error of the last one. Before that, every earlier attempt was followed by its own wait.\<close>

theorem WithReconnect_result:
  assumes "0 < rc_MaxRetries cfg"
  shows "\<exists>n. int n < rc_MaxRetries cfg \<and> (\<forall>i < n. failed_at env i) \<and>
    (case WithReconnect env cfg of (r, waits) \<Rightarrow>
       take n waits = map (backoff_at cfg) [0..<n] \<and> n \<le> length waits \<and> length waits \<le> Suc n \<and>
       (r = Connected \<longleftrightarrow> rv_ctx_before env n = None \<and> rv_connect env n = None) \<and>
       (\<forall>c. r = Cancelled c \<longrightarrow> rv_ctx_before env n = Some c \<or> rv_ctx_after env n = Some c \<or>
          rv_wait env n = Some c) \<and>
       (\<forall>k e. r = RetriesExhausted k e \<longrightarrow> k = rc_MaxRetries cfg \<and> int n = k - 1 \<and> rv_connect env n = Some e) \<and>
       r \<noteq> NeverTried)"
proof -
  obtain n where n: "int n < rc_MaxRetries cfg" "\<forall>i < n. failed_at env i"
    "\<not> failed_at env n \<or> int n = rc_MaxRetries cfg - 1"
    using first_stop [OF assms] by blast
  have "case WithReconnect env cfg of (r, waits) \<Rightarrow>
       take n waits = map (backoff_at cfg) [0..<n] \<and> n \<le> length waits \<and> length waits \<le> Suc n \<and>
       (r = Connected \<longleftrightarrow> rv_ctx_before env n = None \<and> rv_connect env n = None) \<and>
       (\<forall>c. r = Cancelled c \<longrightarrow> rv_ctx_before env n = Some c \<or> rv_ctx_after env n = Some c \<or>
          rv_wait env n = Some c) \<and>
       (\<forall>k e. r = RetriesExhausted k e \<longrightarrow> k = rc_MaxRetries cfg \<and> int n = k - 1 \<and> rv_connect env n = Some e) \<and>
       r \<noteq> NeverTried"
    unfolding WithReconnect_at [OF n(1,2)] loop_stops [OF n(1,3)] using n(3)
    by (auto simp: failed_at_def split: option.split)
  then show ?thesis using n(1,2) by (intro exI [of _ n] conjI)
qed

section \<open>How long it waits\<close>

lemma next_backoff_small:
  assumes "0 \<le> b" "b < 2 ^ 62"
  shows "next_backoff cfg b = min (2 * b) (rc_MaxBackoff cfg)"
proof -
  have "i64 (b * 2) = b * 2" using assms by (intro i64_id) (simp add: is_i64_def)
  then show ?thesis by (simp add: next_backoff_def Let_def min_def)
qed

lemma backoff_at_closed:
  assumes "0 \<le> rc_InitialBackoff cfg" "rc_InitialBackoff cfg < 2 ^ 62"
    and "0 \<le> rc_MaxBackoff cfg" "rc_MaxBackoff cfg < 2 ^ 62"
  shows "backoff_at cfg (Suc i) = min (rc_InitialBackoff cfg * 2 ^ Suc i) (rc_MaxBackoff cfg)"
proof (induction i)
  case 0
  then show ?case using next_backoff_small [OF assms(1,2)] by (simp add: mult.commute)
next
  case (Suc i)
  let ?b = "backoff_at cfg (Suc i)"
  have b: "0 \<le> ?b" "?b < 2 ^ 62" using assms unfolding Suc by auto
  have "backoff_at cfg (Suc (Suc i)) = min (2 * ?b) (rc_MaxBackoff cfg)"
    using next_backoff_small [OF b] by simp
  also have "\<dots> = min (rc_InitialBackoff cfg * 2 ^ Suc (Suc i)) (rc_MaxBackoff cfg)"
    unfolding Suc using assms(3) by (simp add: min_def)
  finally show ?case .
qed

text \<open>The waits of the loop follow \<open>backoff_at\<close>, and there is one less than attempts.\<close>

lemma loop_waits:
  "\<exists>n. snd (reconnect_loop env cfg a (backoff_at cfg a)) = map (backoff_at cfg) [a..<a + n] \<and>
     int n \<le> max 0 (rc_MaxRetries cfg - 1 - int a)"
proof (induction "nat (rc_MaxRetries cfg - int a)" arbitrary: a rule: less_induct)
  case less
  show ?case
  proof (cases "int a < rc_MaxRetries cfg \<and> failed_at env a \<and> int a \<noteq> rc_MaxRetries cfg - 1")
    case True
    then obtain n where n: "snd (reconnect_loop env cfg (Suc a) (backoff_at cfg (Suc a))) = map (backoff_at cfg) [Suc a..<Suc a + n]"
      "int n \<le> max 0 (rc_MaxRetries cfg - 1 - int (Suc a))" using less [of "Suc a"] by auto
    have "snd (reconnect_loop env cfg a (backoff_at cfg a)) =
        backoff_at cfg a # snd (reconnect_loop env cfg (Suc a) (backoff_at cfg (Suc a)))"
      using True by (subst reconnect_loop.simps) (auto simp: failed_at_def split: prod.split)
    moreover have "[a..<a + Suc n] = a # [Suc a..<Suc a + n]" by (simp add: upt_conv_Cons del: upt_Suc)
    ultimately show ?thesis using n True by (intro exI [of _ "Suc n"]) (simp del: upt_Suc)
  next
    case False
    then have "snd (reconnect_loop env cfg a (backoff_at cfg a)) = [] \<or>
        snd (reconnect_loop env cfg a (backoff_at cfg a)) = [backoff_at cfg a] \<and> int a < rc_MaxRetries cfg - 1"
      by (subst (1 2) reconnect_loop.simps) (auto simp: failed_at_def split: option.split)
    then show ?thesis
    proof
      assume "snd (reconnect_loop env cfg a (backoff_at cfg a)) = []"
      then show ?thesis by (intro exI [of _ 0]) simp
    qed (rule exI [of _ 1], simp)
  qed
qed

text \<open>C32. The waits of \<open>WithReconnect\<close>, one less than \<open>MaxRetries\<close> at most, double up to the configured maximum
  and, for backoffs that are not negative and below \<open>2^62\<close> nanoseconds (about 146 years), without overflow: the first is
  \<open>InitialBackoff\<close> itself (which alone is not capped), and each later one is the smaller of \<open>InitialBackoff\<close> doubled once per
  attempt and \<open>MaxBackoff\<close>.\<close>

theorem backoff_bounds:
  assumes "0 \<le> rc_InitialBackoff cfg" "rc_InitialBackoff cfg < 2 ^ 62"
    and "0 \<le> rc_MaxBackoff cfg" "rc_MaxBackoff cfg < 2 ^ 62"
  shows "\<exists>n. int n \<le> max 0 (rc_MaxRetries cfg - 1) \<and>
    snd (WithReconnect env cfg) = map (\<lambda>i. if i = 0 then rc_InitialBackoff cfg
      else min (rc_InitialBackoff cfg * 2 ^ i) (rc_MaxBackoff cfg)) [0..<n]"
proof -
  have b: "backoff_at cfg i = (if i = 0 then rc_InitialBackoff cfg else min (rc_InitialBackoff cfg * 2 ^ i) (rc_MaxBackoff cfg))" for i
    using backoff_at_closed [OF assms] by (cases i) simp_all
  from loop_waits [of env cfg 0] show ?thesis unfolding WithReconnect_def by (auto simp: b cong: map_cong)
qed

text \<open>With \<open>MaxRetries\<close> at or below zero nothing is ever tried: the loop reports that the retries are
  exhausted without calling \<open>connect\<close> and without looking at the context.\<close>

theorem no_retries_no_attempt:
  assumes "rc_MaxRetries cfg \<le> 0"
  shows "WithReconnect env cfg = (NeverTried, [])"
  using assms by (simp add: WithReconnect_def reconnect_loop.simps)

definition demo_reconnect :: "int \<Rightarrow> ReconnectConfig" where
  "demo_reconnect n = \<lparr>rc_InitialBackoff = 1000, rc_MaxBackoff = 3000, rc_MaxRetries = n\<rparr>"

definition failing_env :: "(string, string) renv" where
  "failing_env = \<lparr>rv_ctx_before = (\<lambda>i. None), rv_connect = (\<lambda>i. Some ''refused''),
     rv_ctx_after = (\<lambda>i. None), rv_wait = (\<lambda>i. None)\<rparr>"

lemma demo_reconnect_simps [simp]:
  "rc_InitialBackoff (demo_reconnect n) = 1000" "rc_MaxBackoff (demo_reconnect n) = 3000"
  "rc_MaxRetries (demo_reconnect n) = n"
  by (simp_all add: demo_reconnect_def)

lemma WithReconnect_result_witness:
  "fst (WithReconnect failing_env (demo_reconnect 4)) = RetriesExhausted 4 ''refused''"
proof -
  obtain r waits where w: "WithReconnect failing_env (demo_reconnect 4) = (r, waits)" by force
  have "0 < rc_MaxRetries (demo_reconnect 4)" by simp
  from WithReconnect_result [OF this, of failing_env, unfolded w prod.case] obtain n where
    "r = Connected \<longleftrightarrow> rv_ctx_before failing_env n = None \<and> rv_connect failing_env n = None"
    "\<forall>c. r = Cancelled c \<longrightarrow> rv_ctx_before failing_env n = Some c \<or> rv_ctx_after failing_env n = Some c \<or>
          rv_wait failing_env n = Some c"
    "\<forall>k e. r = RetriesExhausted k e \<longrightarrow> k = rc_MaxRetries (demo_reconnect 4) \<and> int n = k - 1 \<and>
          rv_connect failing_env n = Some e"
    "r \<noteq> NeverTried"
    by blast
  then show ?thesis unfolding w by (cases r) (auto simp: failing_env_def)
qed

lemma failing_waits: "snd (WithReconnect failing_env (demo_reconnect 4)) = [1000, 2000, 3000]"
proof -
  have nb: "next_backoff (demo_reconnect 4) 1000 = 2000" "next_backoff (demo_reconnect 4) 2000 = 3000"
    by (simp_all add: next_backoff_def i64_def)
  have env: "rv_ctx_before failing_env i = None" "rv_connect failing_env i = Some ''refused''"
    "rv_ctx_after failing_env i = None" "rv_wait failing_env i = None" for i by (simp_all add: failing_env_def)
  have loop: "snd (reconnect_loop failing_env (demo_reconnect 4) i b) =
      (if i < 3 then b # snd (reconnect_loop failing_env (demo_reconnect 4) (Suc i) (next_backoff (demo_reconnect 4) b)) else [])" for i b
    by (subst reconnect_loop.simps) (simp add: env split: prod.split)
  show ?thesis by (simp add: WithReconnect_def loop nb)
qed

lemma backoff_bounds_witness:
  "snd (WithReconnect failing_env (demo_reconnect 4)) = map (\<lambda>i. if i = 0 then 1000 else min (1000 * 2 ^ i) 3000) [0..<3]"
proof -
  have "\<exists>n. int n \<le> max 0 (rc_MaxRetries (demo_reconnect 4) - 1) \<and> snd (WithReconnect failing_env (demo_reconnect 4)) =
      map (\<lambda>i. if i = 0 then rc_InitialBackoff (demo_reconnect 4)
        else min (rc_InitialBackoff (demo_reconnect 4) * 2 ^ i) (rc_MaxBackoff (demo_reconnect 4))) [0..<n]"
    by (rule backoff_bounds) simp_all
  then obtain n where n: "snd (WithReconnect failing_env (demo_reconnect 4)) =
      map (\<lambda>i. if i = 0 then 1000 else min (1000 * 2 ^ i) 3000) [0..<n]" unfolding demo_reconnect_simps by blast
  from arg_cong [OF n, of length] have "n = 3" by (simp add: failing_waits)
  then show ?thesis using n by simp
qed

lemma no_retries_no_attempt_witness:
  "WithReconnect failing_env (demo_reconnect 0) = (NeverTried, [])"
  by (rule no_retries_no_attempt) (simp add: demo_reconnect_def)

end
