(* ===== verification/Evm_Adapter.thy ===== *)
theory Evm_Adapter
  imports Decoder Block_Cache Tracker Reconnect Channels Registry Config
begin

text \<open>
  The EVM adapter (\<open>internal/adapter/evm/evm.go\<close>): it subscribes to the logs of the registered
  contracts, decodes each, gives it the timestamp of its block (from the cache, or from the node),
  tells the tracker and sends it on; a subscription that ends with an error is tried again by the
  reconnect loop. Dialling, subscribing and reading headers are go-ethereum's: what they answer is
  part of a session's record. What \<open>a.events\<close> is sent is recorded in order; how full the channel is
  belongs to \<open>Oracle_Main\<close>.
\<close>

section \<open>The adapter\<close>

text \<open>The strategies by which logs can be subscribed to: polling with a client, an interval and a buffer size, or a
  web socket with a client and a buffer size.\<close>

datatype 'k strategy = PollingStrategy 'k duration int | WebSocketStrategy 'k int

definition NewPollingStrategy :: "'k \<Rightarrow> duration \<Rightarrow> int \<Rightarrow> 'k strategy" where
  "NewPollingStrategy client interval bufferSize = PollingStrategy client interval bufferSize"

definition NewWebSocketStrategy :: "'k \<Rightarrow> int \<Rightarrow> 'k strategy" where
  "NewWebSocketStrategy client bufferSize = WebSocketStrategy client bufferSize"

record ('c, 'k) Adapter =
  ad_chain :: ChainID
  ad_cfg :: ChainConfig
  ad_reg :: "Registry option"
  ad_decoder :: DecoderRegistry
  ad_cache :: BlockCache
  ad_strategy :: "'k strategy option"
  ad_httpClient :: "'k option"
  ad_tuning :: TuningConfig
  ad_tel :: "'c tel"

definition New ::
  "ethlib \<Rightarrow> wormlib \<Rightarrow> ChainID \<Rightarrow> ChainConfig \<Rightarrow> Registry option \<Rightarrow> 'k strategy option \<Rightarrow> 'k option
     \<Rightarrow> TuningConfig \<Rightarrow> 'c tel \<Rightarrow> ('c, 'k) Adapter" where
  "New E W chain cfg reg strategy httpClient tuning tel =
     (let tokenBridgeAddr = (case reg of
            None \<Rightarrow> []
          | Some r \<Rightarrow> (case WormholeConfig r chain of Some wh \<Rightarrow> wa_TokenBridge wh | None \<Rightarrow> []))
      in \<lparr>ad_chain = chain, ad_cfg = cfg, ad_reg = reg, ad_decoder = NewDecoderRegistry E W tokenBridgeAddr,
          ad_cache = NewBlockCache (BlockCacheSize tuning), ad_strategy = strategy, ad_httpClient = httpClient,
          ad_tuning = tuning, ad_tel = tel\<rparr>)"

text \<open>What the adapter changes outside itself. A panic ends the program: nothing happens after it.\<close>

record 'c world =
  wo_tracker :: "(Tracker \<times> heap) option"
  wo_events :: "(RawEvent, 'c) Traced list"
  wo_counts :: counters
  wo_panic :: "panic_kind option"

definition set_connected :: "ChainID \<Rightarrow> bool \<Rightarrow> 'c world \<Rightarrow> 'c world" where
  "set_connected chain b w =
     (case wo_tracker w of
        Some (t, h) \<Rightarrow> w\<lparr>wo_tracker := Some (SetConnected chain b t h)\<rparr>
      | None \<Rightarrow> w)"

definition update_block :: "ChainID \<Rightarrow> uint64 \<Rightarrow> int64 \<Rightarrow> 'c world \<Rightarrow> 'c world" where
  "update_block chain block ts w =
     (case wo_tracker w of
        Some (t, h) \<Rightarrow> w\<lparr>wo_tracker := Some (UpdateBlock chain block ts t h)\<rparr>
      | None \<Rightarrow> w)"

section \<open>One log\<close>

record 'k node =
  nd_dial :: "string \<Rightarrow> string + 'k"
  nd_header_time :: "'k \<Rightarrow> uint64 \<Rightarrow> string + uint64"

definition fetchBlockTimestamp :: "'k node \<Rightarrow> ('c, 'k) Adapter \<Rightarrow> uint64 \<Rightarrow> int64 option" where
  "fetchBlockTimestamp N a block =
     (let client = (case ad_httpClient a of
            None \<Rightarrow> nd_dial N (DeriveHTTPURL (RPCURL (ad_cfg a)))
          | Some c \<Rightarrow> Inr c)
      in case client of
           Inl err \<Rightarrow> None
         | Inr c \<Rightarrow> (case nd_header_time N c block of
               Inl err \<Rightarrow> None
             | Inr t \<Rightarrow> Some (sint t)))"

text \<open>The timestamp of a log's block, and the cache afterwards: the cache is asked first, the node
  when it has nothing (or zero), and a positive answer of the node is kept.\<close>

definition block_time :: "'k node \<Rightarrow> ('c, 'k) Adapter \<Rightarrow> uint64 \<Rightarrow> int64 \<times> BlockCache" where
  "block_time N a block =
     (let ts = (case Get (ad_cache a) block of Some t \<Rightarrow> t | None \<Rightarrow> 0) in
      if ts = 0 then
        (let ts = (case fetchBlockTimestamp N a block of Some t \<Rightarrow> t | None \<Rightarrow> 0)
         in (ts, if ts > 0 then Set (ad_cache a) block ts else ad_cache a))
      else (ts, ad_cache a))"

text \<open>A log as it arrives: the node while it is processed, the time, and whether the context's arm of
  the final \<open>select\<close> is taken.\<close>

record 'k arrival =
  ar_log :: Log
  ar_node :: "'k node"
  ar_now :: time
  ar_done :: bool

definition processLog ::
  "ethlib \<Rightarrow> 'c \<Rightarrow> 'k arrival \<Rightarrow> ('c, 'k) Adapter \<times> 'c world \<Rightarrow> ('c, 'k) Adapter \<times> 'c world" where
  "processLog E ctx ar s =
     (case s of (a, w) \<Rightarrow> let lg = ar_log ar; block = log_BlockNumber lg in
      case Decode E (ad_decoder a) (ad_chain a) lg of
        Panic p \<Rightarrow> (a, w\<lparr>wo_panic := Some p\<rparr>)
      | Err err \<Rightarrow> (a, w\<lparr>wo_counts := count_dropped (wo_counts w)\<rparr>)
      | Ok rawEvent \<Rightarrow>
          (let (ts, cache) = block_time (ar_node ar) a block;
               rawEvent = rawEvent\<lparr>re_Timestamp := ts\<rparr>;
               w = update_block (ad_chain a) block (re_Timestamp rawEvent) w;
               eventCtx = (if tl_Adapter (ad_tel a) then tl_Start (ad_tel a) ''pipeline.adapter'' ctx else ctx);
               traced = NewTraced eventCtx rawEvent (ar_now ar);
               w = w\<lparr>wo_counts := count_received (wo_counts w)\<rparr>
           in (a\<lparr>ad_cache := cache\<rparr>,
               if ar_done ar then w else w\<lparr>wo_events := wo_events w @ [traced]\<rparr>)))"

fun process_logs ::
  "ethlib \<Rightarrow> 'c \<Rightarrow> 'k arrival list \<Rightarrow> ('c, 'k) Adapter \<times> 'c world \<Rightarrow> ('c, 'k) Adapter \<times> 'c world" where
  "process_logs E ctx [] s = s"
| "process_logs E ctx (ar # ars) s =
     (let s' = processLog E ctx ar s
      in if wo_panic (snd s') \<noteq> None then s' else process_logs E ctx ars s')"

section \<open>One session\<close>

definition createStrategy :: "(string \<Rightarrow> string + 'k) \<Rightarrow> ('c, 'k) Adapter \<Rightarrow> string + 'k strategy" where
  "createStrategy dial a =
     (if Mode (ad_cfg a) = ''polling'' then
        (let client = (case ad_httpClient a of
               None \<Rightarrow> dial (DeriveHTTPURL (RPCURL (ad_cfg a)))
             | Some c \<Rightarrow> Inr c)
         in case client of
              Inl err \<Rightarrow> Inl err
            | Inr c \<Rightarrow> Inr (NewPollingStrategy c (PollInterval (ad_cfg a)) (LogChannelBuffer (ad_tuning a))))
      else (case dial (RPCURL (ad_cfg a)) of
          Inl err \<Rightarrow> Inl err
        | Inr c \<Rightarrow> Inr (NewWebSocketStrategy c (LogChannelBuffer (ad_tuning a)))))"

text \<open>The strategy of a session: the one the adapter was given, or a new one.\<close>

definition session_strategy :: "(string \<Rightarrow> string + 'k) \<Rightarrow> ('c, 'k) Adapter \<Rightarrow> string + 'k strategy" where
  "session_strategy dial a =
     (case ad_strategy a of None \<Rightarrow> createStrategy dial a | Some strategy \<Rightarrow> Inr strategy)"

text \<open>With a nil registry the method call dereferences a nil pointer.\<close>

definition buildFilterQuery :: "ethlib \<Rightarrow> ('c, 'k) Adapter \<Rightarrow> (string, Address list) outcome" where
  "buildFilterQuery E a =
     (case ad_reg a of
        None \<Rightarrow> Panic NilDereference
      | Some r \<Rightarrow> (let strs = ContractAddresses r (ad_chain a) in Ok (map (eth_HexToAddress E) strs)))"

text \<open>How the \<open>select\<close> loop ends: the log channel is closed, the subscription reports an error or is
  closed, or the context is done.\<close>

datatype session_end = LogsClosed | SubErr "string option" | CtxDone string

record 'k session =
  ss_dial :: "string \<Rightarrow> string + 'k"
  ss_subscribe :: "'k strategy \<Rightarrow> Address list \<Rightarrow> string option"
  ss_logs :: "'k arrival list"
  ss_end :: session_end

definition connect ::
  "ethlib \<Rightarrow> 'c \<Rightarrow> 'k session \<Rightarrow> ('c, 'k) Adapter \<times> 'c world \<Rightarrow> (('c, 'k) Adapter \<times> 'c world) \<times> string option" where
  "connect E ctx ss s =
     (case s of (a, w) \<Rightarrow>
      case session_strategy (ss_dial ss) a of
        Inl err \<Rightarrow> (s, Some err)
      | Inr strategy \<Rightarrow>
          (case buildFilterQuery E a of
             Panic p \<Rightarrow> ((a, w\<lparr>wo_panic := Some p\<rparr>), None)
           | Err err \<Rightarrow> (s, Some err)
           | Ok addrs \<Rightarrow>
               (case ss_subscribe ss strategy addrs of
                  Some err \<Rightarrow> (s, Some err)
                | None \<Rightarrow>
                    (let s' = process_logs E ctx (ss_logs ss) (a, set_connected (ad_chain a) True w)
                     in if wo_panic (snd s') \<noteq> None then (s', None)
                        else (s', case ss_end ss of
                                    LogsClosed \<Rightarrow> None
                                  | SubErr err \<Rightarrow> err
                                  | CtxDone err \<Rightarrow> Some err)))))"

section \<open>Starting\<close>

text \<open>
  \<open>WithReconnect\<close> with a \<open>connect\<close> that changes a state: the same loop as in \<open>Reconnect\<close>, where only
  its results were of interest; \<open>reconnect_state_result\<close> below is the connection. A panic in
  \<open>connect\<close> leaves the loop with it.
\<close>

function reconnect_state ::
  "('x, 'e) renv \<Rightarrow> (nat \<Rightarrow> 's \<Rightarrow> 's \<times> 'e option) \<Rightarrow> ReconnectConfig \<Rightarrow> nat \<Rightarrow> duration \<Rightarrow> 's
     \<Rightarrow> 's \<times> ('x, 'e) rc_result \<times> duration list" where
  "reconnect_state env con cfg attempt backoff s =
     (if int attempt < rc_MaxRetries cfg then
        (case rv_ctx_before env attempt of
           Some c \<Rightarrow> (s, Cancelled c, [])
         | None \<Rightarrow> (case con attempt s of
             (s, None) \<Rightarrow> (s, Connected, [])
           | (s, Some err) \<Rightarrow> (case rv_ctx_after env attempt of
               Some c \<Rightarrow> (s, Cancelled c, [])
             | None \<Rightarrow>
                 (if int attempt = rc_MaxRetries cfg - 1
                  then (s, RetriesExhausted (rc_MaxRetries cfg) err, [])
                  else (case rv_wait env attempt of
                      Some c \<Rightarrow> (s, Cancelled c, [backoff])
                    | None \<Rightarrow>
                        (case reconnect_state env con cfg (Suc attempt) (next_backoff cfg backoff) s of
                           (s', r, waits) \<Rightarrow> (s', r, backoff # waits)))))))
      else (s, NeverTried, []))"
  by pat_completeness auto
termination
  by (relation "measure (\<lambda>(env, con, cfg, attempt, _). nat (rc_MaxRetries cfg - int attempt))") auto

declare reconnect_state.simps [simp del]

text \<open>\<open>ctl\<close> is what the context does in each attempt, \<open>ss i\<close> the session of the \<open>i\<close>-th attempt.\<close>

definition Start ::
  "ethlib \<Rightarrow> 'c \<Rightarrow> (string, string) renv \<Rightarrow> (nat \<Rightarrow> 'k session) \<Rightarrow> ('c, 'k) Adapter \<times> 'c world
     \<Rightarrow> (('c, 'k) Adapter \<times> 'c world) \<times> (string, string) rc_result \<times> duration list" where
  "Start E ctx ctl ss s =
     (let (a, w) = s;
          reconnCfg = \<lparr>rc_InitialBackoff = bo_Initial (Backoff (ad_cfg a)), rc_MaxBackoff = bo_Max (Backoff (ad_cfg a)),
            rc_MaxRetries = bo_MaxRetries (Backoff (ad_cfg a))\<rparr>;
          ((a', w'), r, waits) =
            reconnect_state ctl (\<lambda>i s. connect E ctx (ss i) s) reconnCfg 0 (rc_InitialBackoff reconnCfg) s
      in if wo_panic w' \<noteq> None then ((a', w'), r, waits)
         else ((a', set_connected (ad_chain a') False w'), r, waits))"

section \<open>The loop with a state\<close>

fun state_at :: "(nat \<Rightarrow> 's \<Rightarrow> 's \<times> 'e option) \<Rightarrow> 's \<Rightarrow> nat \<Rightarrow> 's" where
  "state_at con s 0 = s"
| "state_at con s (Suc i) = fst (con i (state_at con s i))"

text \<open>What the loop returns is what \<open>WithReconnect\<close> returns for the results of \<open>connect\<close> in the states it
  passes through.\<close>

lemma reconnect_state_result:
  "snd (reconnect_state env con cfg k b (state_at con s k)) =
   reconnect_loop (env\<lparr>rv_connect := \<lambda>i. snd (con i (state_at con s i))\<rparr>) cfg k b"
proof (induction "nat (rc_MaxRetries cfg - int k)" arbitrary: k b rule: less_induct)
  case less
  obtain s' e where c: "con k (state_at con s k) = (s', e)" by force
  then have s': "state_at con s (Suc k) = s'" by simp
  show ?case
  proof (cases "int k < rc_MaxRetries cfg")
    case False
    then show ?thesis by (subst reconnect_state.simps, subst reconnect_loop.simps) simp
  next
    case True
    then have IH: "snd (reconnect_state env con cfg (Suc k) b s') =
        reconnect_loop (env\<lparr>rv_connect := \<lambda>i. snd (con i (state_at con s i))\<rparr>) cfg (Suc k) b" for b
      using less [of "Suc k" b, unfolded s'] by simp
    show ?thesis
      by (subst reconnect_state.simps, subst reconnect_loop.simps)
        (auto simp: c IH [symmetric] split: option.split prod.split)
  qed
qed

lemma reconnect_state_inv:
  "(\<And>i s. P s \<Longrightarrow> P (fst (con i s))) \<Longrightarrow> P s \<Longrightarrow> P (fst (reconnect_state env con cfg k b s))"
proof (induction env con cfg k b s rule: reconnect_state.induct)
  case (1 env con cfg k b s)
  obtain s' e where c: "con k s = (s', e)" by force
  have P: "P s'" using 1(2) [OF 1(3), of k] by (simp add: c)
  have IH: "int k < rc_MaxRetries cfg \<Longrightarrow> rv_ctx_before env k = None \<Longrightarrow> e = Some err \<Longrightarrow>
      rv_ctx_after env k = None \<Longrightarrow> int k \<noteq> rc_MaxRetries cfg - 1 \<Longrightarrow> rv_wait env k = None \<Longrightarrow>
      P (fst (reconnect_state env con cfg (Suc k) (next_backoff cfg b) s'))" for err
    using 1(1) [OF _ _ c [symmetric], of err] 1(2) P by blast
  show ?case
    by (subst reconnect_state.simps)
      (use IH in \<open>auto simp: c P 1(3) split: option.split prod.split\<close>)
qed

section \<open>Timestamps\<close>

lemma transfer_raw:
  "decodeWormholeTransferPayload E W chain lg payload tb = Ok raw \<Longrightarrow>
   re_Block raw = log_BlockNumber lg \<and> re_Chain raw = chain"
  by (cases "vaa_DecodeTransferPayloadHdr W payload")
    (auto simp: decodeWormholeTransferPayload_def bind_outcome_Ok Let_def split: if_splits)

lemma Decode_raw:
  assumes "Decode E (NewDecoderRegistry E W tb) chain lg = Ok raw"
  shows "re_Block raw = log_BlockNumber lg \<and> re_Chain raw = chain"
  using assms
  by (auto simp: Decode_def NewDecoderRegistry_def makeWormholeDecoder_def decodeERC20Approval_def
      decodeWormholeLogMessagePublished_def bind_outcome_Ok Let_def
      split: if_splits option.splits dest: transfer_raw)

text \<open>The node's headers and the cache agree with the true times of the blocks.\<close>

definition true_node :: "(uint64 \<Rightarrow> int64) \<Rightarrow> 'k node \<Rightarrow> bool" where
  "true_node truth N \<longleftrightarrow> (\<forall>c b t. nd_header_time N c b = Inr t \<longrightarrow> sint t = truth b)"

definition true_session :: "(uint64 \<Rightarrow> int64) \<Rightarrow> 'k session \<Rightarrow> bool" where
  "true_session truth ss \<longleftrightarrow> (\<forall>ar \<in> set (ss_logs ss). true_node truth (ar_node ar))"

definition true_times :: "(uint64 \<Rightarrow> int64) \<Rightarrow> ('c, 'k) Adapter \<times> 'c world \<Rightarrow> bool" where
  "true_times truth s \<longleftrightarrow>
     (\<forall>b t. Get (ad_cache (fst s)) b = Some t \<longrightarrow> truth b = t) \<and>
     (\<forall>ev \<in> set (wo_events (snd s)). re_Chain (tr_Value ev) = ad_chain (fst s) \<and>
        (re_Timestamp (tr_Value ev) = 0 \<or> re_Timestamp (tr_Value ev) = truth (re_Block (tr_Value ev))))"

lemma fetch_true: "true_node truth N \<Longrightarrow> fetchBlockTimestamp N a b = Some t \<Longrightarrow> t = truth b"
  by (auto simp: fetchBlockTimestamp_def true_node_def Let_def split: option.splits sum.splits)

lemma block_time_true:
  assumes "\<forall>b t. Get (ad_cache a) b = Some t \<longrightarrow> truth b = t" "true_node truth N" "block_time N a b = (ts, cache)"
  shows "(ts = 0 \<or> ts = truth b) \<and> (\<forall>b t. Get cache b = Some t \<longrightarrow> truth b = t)"
proof -
  have f: "fetchBlockTimestamp N a b = Some t \<Longrightarrow> t = truth b" for t by (rule fetch_true [OF assms(2)])
  have st: "\<forall>b' x. Get (Set (ad_cache a) b t) b' = Some x \<longrightarrow> truth b' = x" if "t = truth b" for t
    by (rule block_cache.coherent_store [OF assms(1)]) (simp add: that)
  show ?thesis
  proof (cases "\<exists>t. Get (ad_cache a) b = Some t \<and> t \<noteq> 0")
    case True
    then obtain t where t: "Get (ad_cache a) b = Some t" "t \<noteq> 0" by blast
    then have "ts = t" "cache = ad_cache a" using assms(3) by (simp_all add: block_time_def)
    then show ?thesis using assms(1) t(1) by blast
  next
    case False
    then have e: "(case Get (ad_cache a) b of Some t \<Rightarrow> t | None \<Rightarrow> 0) = 0" by (auto split: option.split)
    show ?thesis
    proof (cases "fetchBlockTimestamp N a b")
      case None
      then have "ts = 0" "cache = ad_cache a" using assms(3) e by (simp_all add: block_time_def)
      then show ?thesis using assms(1) by blast
    next
      case (Some t)
      then have "ts = t" "cache = (if 0 < t then Set (ad_cache a) b t else ad_cache a)"
        using assms(3) e by (auto simp: block_time_def split: if_splits)
      then show ?thesis using assms(1) f [OF Some] st [of t] by presburger
    qed
  qed
qed

lemma update_block_simps [simp]:
  "wo_events (update_block c b t w) = wo_events w" "wo_counts (update_block c b t w) = wo_counts w"
  "wo_panic (update_block c b t w) = wo_panic w"
  by (simp_all add: update_block_def split: option.split)

lemma set_connected_simps [simp]:
  "wo_events (set_connected c b w) = wo_events w" "wo_counts (set_connected c b w) = wo_counts w"
  "wo_panic (set_connected c b w) = wo_panic w"
  by (simp_all add: set_connected_def split: option.split)

lemma processLog_Ok:
  assumes "Decode E (ad_decoder a) (ad_chain a) (ar_log ar) = Ok raw"
    and "block_time (ar_node ar) a (log_BlockNumber (ar_log ar)) = (ts, cache)"
  shows "processLog E ctx ar (a, w) = (a\<lparr>ad_cache := cache\<rparr>,
     (update_block (ad_chain a) (log_BlockNumber (ar_log ar)) ts w)
       \<lparr>wo_counts := count_received (wo_counts w),
        wo_events := wo_events w @ (if ar_done ar then [] else [NewTraced
          (if tl_Adapter (ad_tel a) then tl_Start (ad_tel a) ''pipeline.adapter'' ctx else ctx)
          (raw\<lparr>re_Timestamp := ts\<rparr>) (ar_now ar)])\<rparr>)"
  using assms by (simp add: processLog_def Let_def)

lemma processLog_Err:
  assumes "Decode E (ad_decoder a) (ad_chain a) (ar_log ar) = Err e"
  shows "processLog E ctx ar (a, w) = (a, w\<lparr>wo_counts := count_dropped (wo_counts w)\<rparr>)"
  using assms by (simp add: processLog_def)

lemma processLog_Panic:
  assumes "Decode E (ad_decoder a) (ad_chain a) (ar_log ar) = Panic p"
  shows "processLog E ctx ar (a, w) = (a, w\<lparr>wo_panic := Some p\<rparr>)"
  using assms by (simp add: processLog_def)

definition decodes_with :: "ethlib \<Rightarrow> wormlib \<Rightarrow> ('c, 'k) Adapter \<Rightarrow> bool" where
  "decodes_with E W a \<longleftrightarrow> (\<exists>tb. ad_decoder a = NewDecoderRegistry E W tb)"

definition adapter_ok :: "ethlib \<Rightarrow> wormlib \<Rightarrow> (uint64 \<Rightarrow> int64) \<Rightarrow> ('c, 'k) Adapter \<times> 'c world \<Rightarrow> bool" where
  "adapter_ok E W truth s \<longleftrightarrow> decodes_with E W (fst s) \<and> true_times truth s"

lemma decodes_with_cache [simp]: "decodes_with E W (a\<lparr>ad_cache := c\<rparr>) = decodes_with E W a"
  by (simp add: decodes_with_def)

lemma processLog_ok:
  assumes "adapter_ok E W truth s" "true_node truth (ar_node ar)"
  shows "adapter_ok E W truth (processLog E ctx ar s)"
proof -
  obtain a w where s: "s = (a, w)" by force
  have d: "decodes_with E W a" using assms(1) by (simp add: adapter_ok_def s)
  have t: "\<forall>b t. Get (ad_cache a) b = Some t \<longrightarrow> truth b = t" "true_times truth (a, w)"
    using assms(1) by (auto simp: adapter_ok_def true_times_def s)
  obtain ts cache where b: "block_time (ar_node ar) a (log_BlockNumber (ar_log ar)) = (ts, cache)" by force
  note bt = block_time_true [OF t(1) assms(2) b]
  show ?thesis
  proof (cases "Decode E (ad_decoder a) (ad_chain a) (ar_log ar)")
    case (Ok raw)
    have "re_Block raw = log_BlockNumber (ar_log ar) \<and> re_Chain raw = ad_chain a"
      using d Ok Decode_raw unfolding decodes_with_def by metis
    then show ?thesis using t(2) bt d
      by (auto simp: adapter_ok_def true_times_def s processLog_Ok [OF Ok b] NewTraced_def)
  next
    case (Err e)
    then show ?thesis using t(2) d by (simp add: adapter_ok_def true_times_def s processLog_Err)
  next
    case (Panic p)
    then show ?thesis using t(2) d by (simp add: adapter_ok_def true_times_def s processLog_Panic)
  qed
qed

lemma process_logs_ok:
  "adapter_ok E W truth s \<Longrightarrow> \<forall>ar \<in> set ars. true_node truth (ar_node ar) \<Longrightarrow>
   adapter_ok E W truth (process_logs E ctx ars s)"
  by (induction E ctx ars s rule: process_logs.induct) (auto simp: Let_def processLog_ok)

lemma connect_ok:
  assumes "adapter_ok E W truth s" "true_session truth ss"
  shows "adapter_ok E W truth (fst (connect E ctx ss s))"
proof -
  obtain a w where s: "s = (a, w)" by force
  have "adapter_ok E W truth (a, set_connected (ad_chain a) True w)"
    using assms(1) by (simp add: s adapter_ok_def true_times_def)
  then have "adapter_ok E W truth (process_logs E ctx (ss_logs ss) (a, set_connected (ad_chain a) True w))"
    by (rule process_logs_ok) (use assms(2) in \<open>simp add: true_session_def\<close>)
  then show ?thesis using assms(1)
    by (auto simp: connect_def s Let_def adapter_ok_def true_times_def split: sum.split outcome.split option.split)
qed

lemma process_logs_chain: "ad_chain (fst (process_logs E ctx ars s)) = ad_chain (fst s)"
proof (induction E ctx ars s rule: process_logs.induct)
  case (2 E ctx ar ars s)
  obtain a w where s: "s = (a, w)" by force
  have "ad_chain (fst (processLog E ctx ar s)) = ad_chain (fst s)"
  proof (cases "Decode E (ad_decoder a) (ad_chain a) (ar_log ar)")
    case (Ok raw)
    obtain ts cache where "block_time (ar_node ar) a (log_BlockNumber (ar_log ar)) = (ts, cache)" by force
    from processLog_Ok [OF Ok this] show ?thesis by (simp add: s)
  qed (simp_all add: s processLog_Err processLog_Panic)
  then show ?case using 2 by (simp add: Let_def)
qed simp

lemma connect_chain: "ad_chain (fst (fst (connect E ctx ss s))) = ad_chain (fst s)"
  by (cases s) (simp add: connect_def Let_def process_logs_chain split: sum.split outcome.split option.split)

text \<open>C26. Over any number of sessions and reconnections, and however often the node does not answer, every
  event the adapter sends carries its own chain, and the true time of its block or, when the node
  did not give one, zero; it is never stamped with another block's time, although the cache evicts
  and is filled in any order.\<close>

theorem event_times_true_or_zero:
  assumes "\<forall>i. true_session truth (ss i)" "wo_events w = []"
    and "Start E ctx ctl ss (New E W chain cfg reg strategy client tuning tel, w) = ((a', w'), r)"
    and "ev \<in> set (wo_events w')"
  shows "re_Chain (tr_Value ev) = chain \<and>
    (re_Timestamp (tr_Value ev) = 0 \<or> re_Timestamp (tr_Value ev) = truth (re_Block (tr_Value ev)))"
proof -
  let ?a = "New E W chain cfg reg strategy client tuning tel"
  let ?P = "\<lambda>s. adapter_ok E W truth s \<and> ad_chain (fst s) = chain"
  let ?con = "\<lambda>i s. connect E ctx (ss i) s"
  have "?P (?a, w)"
    using assms(2) block_cache.coherent_empty
    by (auto simp: adapter_ok_def true_times_def decodes_with_def New_def Let_def)
  moreover have "?P (fst (?con i s))" if "?P s" for i s
    using that connect_ok [of E W truth s "ss i" ctx] connect_chain [of E ctx "ss i" s] assms(1) by simp
  ultimately have inv: "?P (fst (reconnect_state ctl ?con cfg' k b (?a, w)))" for cfg' k b
    by (intro reconnect_state_inv [where P = ?P])
  obtain a1 w1 r1 where f: "reconnect_state ctl ?con
      \<lparr>rc_InitialBackoff = bo_Initial (Backoff (ad_cfg ?a)), rc_MaxBackoff = bo_Max (Backoff (ad_cfg ?a)),
       rc_MaxRetries = bo_MaxRetries (Backoff (ad_cfg ?a))\<rparr> 0 (bo_Initial (Backoff (ad_cfg ?a))) (?a, w) = ((a1, w1), r1)"
    by (metis surj_pair)
  have "wo_events w' = wo_events w1" using assms(3) by (auto simp: Start_def Let_def f split: prod.splits if_splits)
  then show ?thesis using inv assms(4) f unfolding adapter_ok_def true_times_def by (metis fst_conv snd_conv)
qed

section \<open>The connection flag\<close>

definition shown :: "'c world \<Rightarrow> ChainID \<Rightarrow> bool option" where
  "shown w c = (case wo_tracker w of None \<Rightarrow> None
     | Some (t, h) \<Rightarrow> map_option cs_Connected (view h (tk_chains t) c))"

definition world_ok :: "'c world \<Rightarrow> bool" where
  "world_ok w \<longleftrightarrow> (\<exists>t h. wo_tracker w = Some (t, h) \<and> tracker_ok t h)"

lemma set_connected_shown:
  assumes "world_ok w"
  shows "world_ok (set_connected c b w) \<and> shown (set_connected c b w) c = Some b"
proof -
  obtain t h where w: "wo_tracker w = Some (t, h)" "tracker_ok t h" using assms by (auto simp: world_ok_def)
  obtain t' h' where s: "SetConnected c b t h = (t', h')" by force
  from write_state_spec(1,2) [OF w(2) s [unfolded SetConnected_write]] show ?thesis
    by (simp add: world_ok_def shown_def set_connected_def w(1) s)
qed

lemma update_block_shown:
  assumes "world_ok w"
  shows "world_ok (update_block c blk ts w) \<and> (shown w c = Some b \<longrightarrow> shown (update_block c blk ts w) c = Some b)"
proof -
  obtain t h where w: "wo_tracker w = Some (t, h)" "tracker_ok t h" using assms by (auto simp: world_ok_def)
  obtain t' h' where s: "UpdateBlock c blk ts t h = (t', h')" by force
  from write_state_spec(1,2) [OF w(2) s [unfolded UpdateBlock_write]] show ?thesis
    by (auto simp: world_ok_def shown_def update_block_def w(1) s state_of_def)
qed

lemma world_upd [simp]:
  "world_ok (w\<lparr>wo_counts := m\<rparr>) = world_ok w" "world_ok (w\<lparr>wo_events := es\<rparr>) = world_ok w"
  "world_ok (w\<lparr>wo_panic := p\<rparr>) = world_ok w" "shown (w\<lparr>wo_counts := m\<rparr>) = shown w"
  "shown (w\<lparr>wo_events := es\<rparr>) = shown w" "shown (w\<lparr>wo_panic := p\<rparr>) = shown w"
  by (simp_all add: world_ok_def shown_def fun_eq_iff)

lemma processLog_world:
  assumes "world_ok w"
  shows "world_ok (snd (processLog E ctx ar (a, w))) \<and> ad_chain (fst (processLog E ctx ar (a, w))) = ad_chain a \<and>
    (shown w (ad_chain a) = Some b \<longrightarrow> shown (snd (processLog E ctx ar (a, w))) (ad_chain a) = Some b)"
proof (cases "Decode E (ad_decoder a) (ad_chain a) (ar_log ar)")
  case (Ok raw)
  obtain ts cache where "block_time (ar_node ar) a (log_BlockNumber (ar_log ar)) = (ts, cache)" by force
  from processLog_Ok [OF Ok this] show ?thesis using update_block_shown [OF assms] by simp
qed (use assms in \<open>simp_all add: processLog_Err processLog_Panic\<close>)

lemma process_logs_world:
  "world_ok (snd s) \<Longrightarrow> world_ok (snd (process_logs E ctx ars s)) \<and>
    (shown (snd s) (ad_chain (fst s)) = Some b \<longrightarrow> shown (snd (process_logs E ctx ars s)) (ad_chain (fst s)) = Some b)"
proof (induction E ctx ars s rule: process_logs.induct)
  case (2 E ctx ar ars s)
  obtain a w where s: "s = (a, w)" by force
  have w: "world_ok w" using 2(2) s by simp
  show ?case using processLog_world [OF w, of E ctx ar a b] 2(1) [OF refl]
    by (auto simp: s Let_def)
qed simp

lemma connect_world: "world_ok (snd s) \<Longrightarrow> world_ok (snd (fst (connect E ctx ss s)))"
proof -
  assume w: "world_ok (snd s)"
  obtain a w' where s: "s = (a, w')" by force
  have "world_ok (set_connected (ad_chain a) True w')" using w set_connected_shown [of w'] by (simp add: s)
  then have "world_ok (snd (process_logs E ctx (ss_logs ss) (a, set_connected (ad_chain a) True w')))"
    using process_logs_world [of "(a, set_connected (ad_chain a) True w')"] by simp
  then show ?thesis using w by (simp add: s connect_def Let_def split: sum.split outcome.split option.split)
qed

text \<open>The tracker shows a chain as connected from its first subscription on, also while a session has
  ended with an error and the adapter is only waiting to try again: a session that subscribed leaves
  the flag set, however it ended. Only when \<open>Start\<close> returns is the flag cleared, and then always.\<close>

theorem connected_until_start_returns:
  assumes "world_ok w"
  shows "(case connect E ctx ss (a, w) of ((a', w'), err) \<Rightarrow>
      \<forall>strategy r. session_strategy (ss_dial ss) a = Inr strategy \<longrightarrow> ad_reg a = Some r \<longrightarrow>
        ss_subscribe ss strategy (map (eth_HexToAddress E) (ContractAddresses r (ad_chain a))) = None \<longrightarrow>
        shown w' (ad_chain a) = Some True) \<and>
    (case Start E ctx ctl sss (a, w) of ((a', w'), res) \<Rightarrow>
      wo_panic w' = None \<longrightarrow> shown w' (ad_chain a) = Some False)"
proof
  let ?s = "(a, set_connected (ad_chain a) True w)"
  have "shown (snd (process_logs E ctx (ss_logs ss) ?s)) (ad_chain a) = Some True"
    using process_logs_world [of ?s E ctx "ss_logs ss" True] set_connected_shown [OF assms] by simp
  then show "case connect E ctx ss (a, w) of ((a', w'), err) \<Rightarrow>
      \<forall>strategy r. session_strategy (ss_dial ss) a = Inr strategy \<longrightarrow> ad_reg a = Some r \<longrightarrow>
        ss_subscribe ss strategy (map (eth_HexToAddress E) (ContractAddresses r (ad_chain a))) = None \<longrightarrow>
        shown w' (ad_chain a) = Some True"
    by (auto simp: connect_def buildFilterQuery_def Let_def split: prod.split if_splits)
next
  let ?P = "\<lambda>s. world_ok (snd s) \<and> ad_chain (fst s) = ad_chain a"
  let ?con = "\<lambda>i s. connect E ctx (sss i) s"
  have "?P (fst (?con i s))" if "?P s" for i s using that connect_world connect_chain by metis
  then have P: "?P (fst (reconnect_state ctl ?con cfg' k b (a, w)))" for cfg' k b
    by (intro reconnect_state_inv [where P = ?P]) (use assms in auto)
  let ?cfg = "\<lparr>rc_InitialBackoff = bo_Initial (Backoff (ad_cfg a)), rc_MaxBackoff = bo_Max (Backoff (ad_cfg a)),
       rc_MaxRetries = bo_MaxRetries (Backoff (ad_cfg a))\<rparr>"
  obtain a1 w1 r1 where f: "reconnect_state ctl ?con ?cfg 0 (bo_Initial (Backoff (ad_cfg a))) (a, w) = ((a1, w1), r1)"
    by (metis surj_pair)
  have "world_ok w1" "ad_chain a1 = ad_chain a"
    using P [of ?cfg 0 "bo_Initial (Backoff (ad_cfg a))"] by (simp_all add: f)
  then show "case Start E ctx ctl sss (a, w) of ((a', w'), res) \<Rightarrow>
      wo_panic w' = None \<longrightarrow> shown w' (ad_chain a) = Some False"
    using set_connected_shown [of w1 "ad_chain a" False] by (auto simp: Start_def Let_def f split: prod.split)
qed

section \<open>Retries are never given back\<close>

lemma connect_SubErr:
  "ss_end ss = SubErr (Some e) \<Longrightarrow> connect E ctx ss s = (s', None) \<Longrightarrow> wo_panic (snd s') \<noteq> None"
  by (cases s) (auto simp: connect_def Let_def split: sum.splits outcome.splits option.splits if_splits)

definition undisturbed :: "('x, 'e) renv \<Rightarrow> bool" where
  "undisturbed env \<longleftrightarrow> (\<forall>i. rv_ctx_before env i = None \<and> rv_ctx_after env i = None \<and> rv_wait env i = None)"

lemma all_sessions_fail:
  assumes "\<forall>i. \<exists>e. ss_end (ss i) = SubErr (Some e)" "undisturbed env"
  shows "int k < rc_MaxRetries cfg \<Longrightarrow>
    wo_panic (snd (fst (reconnect_state env (\<lambda>i s. connect E ctx (ss i) s) cfg k b s))) = None \<Longrightarrow>
    (\<exists>e. fst (snd (reconnect_state env (\<lambda>i s. connect E ctx (ss i) s) cfg k b s)) = RetriesExhausted (rc_MaxRetries cfg) e) \<and>
    int (length (snd (snd (reconnect_state env (\<lambda>i s. connect E ctx (ss i) s) cfg k b s)))) = rc_MaxRetries cfg - 1 - int k"
proof (induction "nat (rc_MaxRetries cfg - int k)" arbitrary: k b s rule: less_induct)
  case less
  let ?con = "\<lambda>i s. connect E ctx (ss i) s"
  obtain s' r where c: "connect E ctx (ss k) s = (s', r)" by (cases "connect E ctx (ss k) s")
  have n: "rv_ctx_before env k = None" "rv_ctx_after env k = None" "rv_wait env k = None"
    using assms(2) by (simp_all add: undisturbed_def)
  obtain e where e: "ss_end (ss k) = SubErr (Some e)" using assms(1) by blast
  obtain err where r: "r = Some err"
  proof (cases r)
    case None
    then have "reconnect_state env ?con cfg k b s = (s', Connected, [])"
      using less.prems(1) n by (subst reconnect_state.simps) (simp add: c)
    then show ?thesis using less.prems(2) connect_SubErr [OF e c [unfolded None]] by simp
  qed
  show ?case
  proof (cases "int k = rc_MaxRetries cfg - 1")
    case True
    then have "reconnect_state env ?con cfg k b s = (s', RetriesExhausted (rc_MaxRetries cfg) err, [])"
      using n by (subst reconnect_state.simps) (simp add: c r)
    then show ?thesis using True by simp
  next
    case False
    obtain s2 r2 ws where n2: "reconnect_state env ?con cfg (Suc k) (next_backoff cfg b) s' = (s2, r2, ws)"
      by (metis prod_cases3)
    have st: "reconnect_state env ?con cfg k b s = (s2, r2, b # ws)"
      using less.prems(1) n False n2 by (subst reconnect_state.simps) (simp add: c r)
    from less.hyps [of "Suc k" "next_backoff cfg b" s'] less.prems False n2 st show ?thesis by simp
  qed
qed

text \<open>C39. The number of retries is a budget for the adapter's whole life: if every session ends with a
  subscription error, however many logs each delivered before, the adapter gives up for good after
  \<open>MaxRetries\<close> sessions, with one wait less.\<close>

theorem healthy_sessions_exhaust_retries:
  assumes "\<forall>i. \<exists>e. ss_end (ss i) = SubErr (Some e)" "undisturbed ctl" "0 < bo_MaxRetries (Backoff (ad_cfg a))"
    and "Start E ctx ctl ss (a, w) = ((a', w'), res, waits)" "wo_panic w' = None"
  shows "(\<exists>e. res = RetriesExhausted (bo_MaxRetries (Backoff (ad_cfg a))) e) \<and>
    int (length waits) = bo_MaxRetries (Backoff (ad_cfg a)) - 1"
proof -
  let ?cfg = "\<lparr>rc_InitialBackoff = bo_Initial (Backoff (ad_cfg a)), rc_MaxBackoff = bo_Max (Backoff (ad_cfg a)),
       rc_MaxRetries = bo_MaxRetries (Backoff (ad_cfg a))\<rparr>"
  obtain a1 w1 r1 ws where f: "reconnect_state ctl (\<lambda>i s. connect E ctx (ss i) s) ?cfg 0
      (bo_Initial (Backoff (ad_cfg a))) (a, w) = ((a1, w1), r1, ws)"
    by (metis surj_pair)
  have "res = r1" "waits = ws" "wo_panic w1 = None"
    using assms(4,5) by (auto simp: Start_def Let_def f split: if_splits)
  then show ?thesis
    using all_sessions_fail [OF assms(1,2), of 0 ?cfg E ctx "bo_Initial (Backoff (ad_cfg a))" "(a, w)"] assms(3)
    by (simp add: f)
qed

section \<open>Instances\<close>

text \<open>An approval of five units, a node that knows the time of its block, and sessions that deliver it
  once and end.\<close>

definition demo_approval_log :: Log where
  "demo_approval_log = \<lparr>log_Address = replicate 20 9,
     log_Topics = [eth_Keccak256Hash demo_eth ''Approval(address,address,uint256)'', replicate 32 1, replicate 32 2],
     log_Data = replicate 31 0 @ [5], log_BlockNumber = 100, log_TxHash = replicate 32 5\<rparr>"

definition demo_node :: "unit node" where
  "demo_node = \<lparr>nd_dial = (\<lambda>_. Inr ()), nd_header_time = (\<lambda>_ b. Inr 1700000000)\<rparr>"

definition demo_arrival :: "unit arrival" where
  "demo_arrival = \<lparr>ar_log = demo_approval_log, ar_node = demo_node, ar_now = 0, ar_done = False\<rparr>"

definition demo_session :: "session_end \<Rightarrow> unit session" where
  "demo_session fin = \<lparr>ss_dial = (\<lambda>_. Inr ()), ss_subscribe = (\<lambda>_ _. None), ss_logs = [demo_arrival], ss_end = fin\<rparr>"

definition demo_chain :: "int \<Rightarrow> ChainConfig" where
  "demo_chain n = \<lparr>RPCURL = ''wss://node'', Mode = ''websocket'', PollInterval = 12 * Second, EventBuffer = 256,
     Backoff = \<lparr>bo_Initial = 1000, bo_Max = 3000, bo_MaxRetries = n\<rparr>\<rparr>"

definition no_spans :: "unit tel" where
  "no_spans = \<lparr>tl_Adapter = False, tl_Normalizer = False, tl_Enricher = False, tl_Engine = False,
     tl_Emitter = False, tl_Start = (\<lambda>_ c. c)\<rparr>"

definition demo_adapter :: "int \<Rightarrow> (unit, unit) Adapter" where
  "demo_adapter n = New demo_eth demo_vaa ChainEthereum (demo_chain n) (Some demo_registry) None (Some ()) DefaultTuningConfig no_spans"

definition demo_world :: "unit world" where
  "demo_world = \<lparr>wo_tracker = Some (demo_tracker, demo_heap), wo_events = [], wo_counts = no_counts, wo_panic = None\<rparr>"

definition calm_ctl :: "(string, string) renv" where
  "calm_ctl = \<lparr>rv_ctx_before = (\<lambda>_. None), rv_connect = (\<lambda>_. None), rv_ctx_after = (\<lambda>_. None), rv_wait = (\<lambda>_. None)\<rparr>"

definition demo_raw_event :: RawEvent where
  "demo_raw_event =
     (case decodeERC20Approval demo_eth ChainEthereum demo_approval_log of Ok raw \<Rightarrow> raw)"

lemma demo_adapter_simps:
  "ad_chain (demo_adapter n) = ChainEthereum" "ad_httpClient (demo_adapter n) = Some ()"
  "ad_reg (demo_adapter n) = Some demo_registry" "ad_cfg (demo_adapter n) = demo_chain n"
  "ad_cache (demo_adapter n) = NewBlockCache 100" "ad_strategy (demo_adapter n) = None" "ad_tel (demo_adapter n) = no_spans"
  by (simp_all add: demo_adapter_def New_def DefaultTuningConfig_def DefaultBlockCacheSize_def Let_def)

lemma demo_decodes: "Decode demo_eth (ad_decoder (demo_adapter n)) ChainEthereum demo_approval_log = Ok demo_raw_event"
proof -
  have "length (log_Data demo_approval_log) = 32" "length (log_Topics demo_approval_log) = 3"
    by (simp_all add: demo_approval_log_def)
  then obtain raw where r: "decodeERC20Approval demo_eth ChainEthereum demo_approval_log = Ok raw"
    by (simp add: decodeERC20Approval_def Let_def)
  have "log_Topics demo_approval_log ! 0 = eth_Keccak256Hash demo_eth ''Approval(address,address,uint256)''"
    "log_Topics demo_approval_log \<noteq> []"
    by (simp_all add: demo_approval_log_def)
  then have "Decode demo_eth (NewDecoderRegistry demo_eth demo_vaa tb) ChainEthereum demo_approval_log =
      decodeERC20Approval demo_eth ChainEthereum demo_approval_log" for tb
    by (simp add: Decode_def NewDecoderRegistry_def)
  then show ?thesis by (simp add: demo_adapter_def New_def Let_def demo_raw_event_def r)
qed

definition demo_after :: "int \<Rightarrow> (unit, unit) Adapter \<times> unit world" where
  "demo_after n =
     ((demo_adapter n)\<lparr>ad_cache := Set (NewBlockCache 100) 100 1700000000\<rparr>,
      (update_block ChainEthereum 100 1700000000 (set_connected ChainEthereum True demo_world))
        \<lparr>wo_counts := count_received no_counts,
         wo_events := [NewTraced () (demo_raw_event\<lparr>re_Timestamp := 1700000000\<rparr>) 0]\<rparr>)"

lemma demo_after_simps:
  "wo_panic (snd (demo_after n)) = None"
  "wo_events (snd (demo_after n)) = [NewTraced () (demo_raw_event\<lparr>re_Timestamp := 1700000000\<rparr>) 0]"
  by (simp_all add: demo_after_def demo_world_def)

lemma demo_processLog:
  "processLog demo_eth () demo_arrival (demo_adapter n, set_connected ChainEthereum True demo_world) = demo_after n"
proof -
  have "Get (NewBlockCache 100) 100 = None" by (simp add: Get_def NewBlockCache_def)
  then have b: "block_time (ar_node demo_arrival) (demo_adapter n) (log_BlockNumber (ar_log demo_arrival)) =
      (1700000000, Set (NewBlockCache 100) 100 1700000000)"
    by (simp add: block_time_def fetchBlockTimestamp_def demo_adapter_simps demo_arrival_def demo_node_def
        demo_approval_log_def)
  have d: "Decode demo_eth (ad_decoder (demo_adapter n)) (ad_chain (demo_adapter n)) (ar_log demo_arrival) = Ok demo_raw_event"
    by (simp add: demo_adapter_simps demo_decodes demo_arrival_def)
  have "wo_events demo_world = []" "wo_counts demo_world = no_counts" by (simp_all add: demo_world_def)
  moreover have "log_BlockNumber (ar_log demo_arrival) = 100" "ar_now demo_arrival = 0" "\<not> ar_done demo_arrival"
    by (simp_all add: demo_arrival_def demo_approval_log_def)
  ultimately show ?thesis
    by (simp add: processLog_Ok [OF d b] demo_adapter_simps no_spans_def demo_after_def)
qed

lemma demo_connect:
  "connect demo_eth () (demo_session fin) (demo_adapter n, demo_world) =
   (demo_after n, case fin of LogsClosed \<Rightarrow> None | SubErr err \<Rightarrow> err | CtxDone err \<Rightarrow> Some err)"
  by (simp add: connect_def session_strategy_def createStrategy_def buildFilterQuery_def demo_adapter_simps demo_chain_def
      demo_session_def demo_processLog demo_after_simps)

lemma demo_loop:
  assumes "rc_MaxRetries cfg = 1"
  shows "reconnect_state calm_ctl (\<lambda>i s. connect demo_eth () (demo_session fin) s) cfg 0 b (demo_adapter n, demo_world) =
    (demo_after n,
     (case fin of LogsClosed \<Rightarrow> Connected
      | SubErr err \<Rightarrow> (case err of None \<Rightarrow> Connected | Some e \<Rightarrow> RetriesExhausted 1 e)
      | CtxDone e \<Rightarrow> RetriesExhausted 1 e), [])"
  by (subst reconnect_state.simps)
    (simp add: assms demo_connect calm_ctl_def split: session_end.split option.split)

lemma demo_start:
  "snd (fst (Start demo_eth () calm_ctl (\<lambda>_. demo_session fin) (demo_adapter 1, demo_world))) =
   set_connected ChainEthereum False (snd (demo_after 1))"
proof -
  have c: "ad_chain (fst (demo_after 1)) = ChainEthereum" by (simp add: demo_after_def demo_adapter_simps)
  obtain a1 w1 where d: "demo_after 1 = (a1, w1)" by force
  have "bo_MaxRetries (Backoff (ad_cfg (demo_adapter 1))) = 1" by (simp add: demo_adapter_simps demo_chain_def)
  then show ?thesis
    using c demo_after_simps(1) [of 1]
    by (simp add: Start_def Let_def demo_loop d split: prod.split)
qed

lemma event_times_true_or_zero_witness:
  "\<exists>ev. re_Chain (tr_Value ev) = ChainEthereum \<and> (re_Timestamp (tr_Value ev) = 0 \<or> re_Timestamp (tr_Value ev) = 1700000000) \<and>
     ev = NewTraced () (demo_raw_event\<lparr>re_Timestamp := 1700000000\<rparr>) 0"
proof -
  let ?ev = "NewTraced () (demo_raw_event\<lparr>re_Timestamp := 1700000000\<rparr>) 0"
  obtain a' w' r where st: "Start demo_eth () calm_ctl (\<lambda>_. demo_session LogsClosed) (demo_adapter 1, demo_world) = ((a', w'), r)"
    by (metis surj_pair)
  then have ev: "?ev \<in> set (wo_events w')" using demo_start [of LogsClosed] demo_after_simps(2) [of 1] by auto
  have "\<forall>i. true_session (\<lambda>_. 1700000000) (demo_session LogsClosed)"
    by (simp add: true_session_def true_node_def demo_session_def demo_arrival_def demo_node_def)
  moreover have "wo_events demo_world = []" by (simp add: demo_world_def)
  ultimately show ?thesis
    using event_times_true_or_zero [OF _ _ st [unfolded demo_adapter_def] ev] by blast
qed

lemma demo_world_ok: "world_ok demo_world"
  by (simp add: world_ok_def demo_world_def demo_tracker_ok)

lemma connected_until_start_returns_witness:
  "shown (snd (fst (connect demo_eth () (demo_session (SubErr (Some ''reset''))) (demo_adapter 1, demo_world)))) ChainEthereum
     = Some True"
proof -
  let ?ss = "demo_session (SubErr (Some ''reset''))"
  have "session_strategy (ss_dial ?ss) (demo_adapter 1) = Inr (WebSocketStrategy () (LogChannelBuffer (ad_tuning (demo_adapter 1))))"
    by (simp add: session_strategy_def createStrategy_def NewWebSocketStrategy_def demo_adapter_simps demo_chain_def demo_session_def)
  moreover have "ss_subscribe ?ss st addrs = None" for st addrs by (simp add: demo_session_def)
  ultimately show ?thesis
    using conjunct1 [OF connected_until_start_returns [OF demo_world_ok, where E = demo_eth and ctx = "()" and ss = ?ss
        and a = "demo_adapter 1"]] demo_adapter_simps(1,3)
    by (simp split: prod.splits)
qed

lemma healthy_sessions_exhaust_retries_witness:
  "\<exists>e. fst (snd (Start demo_eth () calm_ctl (\<lambda>_. demo_session (SubErr (Some ''reset''))) (demo_adapter 1, demo_world)))
     = RetriesExhausted 1 e"
proof -
  let ?ss = "\<lambda>_::nat. demo_session (SubErr (Some ''reset''))"
  obtain a' w' res waits where st: "Start demo_eth () calm_ctl ?ss (demo_adapter 1, demo_world) = ((a', w'), res, waits)"
    by (metis surj_pair)
  have "\<forall>i. \<exists>e. ss_end (?ss i) = SubErr (Some e)" by (simp add: demo_session_def)
  moreover have "undisturbed calm_ctl" by (simp add: undisturbed_def calm_ctl_def)
  moreover have "0 < bo_MaxRetries (Backoff (ad_cfg (demo_adapter 1)))"
    by (simp add: demo_adapter_simps demo_chain_def)
  moreover have "wo_panic w' = None"
    using demo_start [of "SubErr (Some ''reset'')"] st demo_after_simps(1) [of 1] by simp
  ultimately show ?thesis
    using conjunct1 [OF healthy_sessions_exhaust_retries [OF _ _ _ st]] st
    by (simp add: demo_adapter_simps demo_chain_def)
qed

end
