(* ===== verification/Telemetry.thy ===== *)
theory Telemetry
  imports Config Channels Go_Time
begin

text \<open>
  Telemetry (\<open>internal/telemetry\<close>): which exporters, readers and instruments \<open>Init\<close> sets up and with
  which errors, what shutting down reaches, the channel monitor and the operations server. What
  OpenTelemetry, Prometheus and the network answer is a parameter; instruments are the list of
  their kinds and names.
\<close>

section \<open>Instruments\<close>

datatype instrument =
    Int64Counter string
  | Int64Gauge string
  | Float64Gauge string
  | Float64Histogram string "float64 list"

text \<open>The attribute that says which stage a measurement is of.\<close>

definition StageAdapter :: string where "StageAdapter = ''adapter''"
definition StageNormalizer :: string where "StageNormalizer = ''normalizer''"
definition StageEnricher :: string where "StageEnricher = ''enricher''"
definition StageEngine :: string where "StageEngine = ''engine''"
definition StageEmitter :: string where "StageEmitter = ''emitter''"

definition StageAttr :: "string \<Rightarrow> string \<times> string" where
  "StageAttr stage = (''stage'', stage)"

record Metrics =
  me_EventsReceived :: instrument
  me_EventsEmitted :: instrument
  me_EventsDropped :: instrument
  me_StageLatency :: instrument
  me_PipelineLatency :: instrument
  me_PriceLookups :: instrument
  me_RulesEvaluated :: instrument
  me_RulesMatched :: instrument
  me_CorrelationsOpen :: instrument
  me_BlocksProcessed :: instrument
  me_ReconnectCount :: instrument
  me_ConnectionStatus :: instrument
  me_ActiveSubscribers :: instrument
  me_SignalsEmitted :: instrument
  me_SignalsDropped :: instrument
  me_ChannelUtilization :: instrument

text \<open>Making an instrument is a call of the meter, which may fail.\<close>

definition create :: "(instrument \<Rightarrow> string option) \<Rightarrow> instrument \<Rightarrow> string + instrument" where
  "create meter i = (case meter i of Some err \<Rightarrow> Inl err | None \<Rightarrow> Inr i)"

definition newMetrics :: "(instrument \<Rightarrow> string option) \<Rightarrow> HistogramBuckets \<Rightarrow> string + Metrics" where
  "newMetrics meter buckets =
     bind_sum (create meter (Int64Counter ''oracle.events.received'')) (\<lambda>eventsReceived.
     bind_sum (create meter (Int64Counter ''oracle.events.emitted'')) (\<lambda>eventsEmitted.
     bind_sum (create meter (Int64Counter ''oracle.events.dropped'')) (\<lambda>eventsDropped.
     bind_sum (create meter (Float64Histogram ''oracle.stage.latency'' (LatencyMs buckets))) (\<lambda>stageLatency.
     bind_sum (create meter (Float64Histogram ''oracle.pipeline.latency'' (LatencyMs buckets))) (\<lambda>pipelineLatency.
     bind_sum (create meter (Int64Counter ''oracle.enricher.price_lookups'')) (\<lambda>priceLookups.
     bind_sum (create meter (Int64Counter ''oracle.engine.rules_evaluated'')) (\<lambda>rulesEvaluated.
     bind_sum (create meter (Int64Counter ''oracle.engine.rules_matched'')) (\<lambda>rulesMatched.
     bind_sum (create meter (Int64Gauge ''oracle.engine.correlations_open'')) (\<lambda>correlationsOpen.
     bind_sum (create meter (Int64Counter ''oracle.adapter.blocks_processed'')) (\<lambda>blocksProcessed.
     bind_sum (create meter (Int64Counter ''oracle.adapter.reconnect_count'')) (\<lambda>reconnectCount.
     bind_sum (create meter (Int64Gauge ''oracle.adapter.connection_status'')) (\<lambda>connectionStatus.
     bind_sum (create meter (Int64Gauge ''oracle.grpc.active_subscribers'')) (\<lambda>activeSubscribers.
     bind_sum (create meter (Int64Counter ''oracle.grpc.signals_emitted'')) (\<lambda>signalsEmitted.
     bind_sum (create meter (Int64Counter ''oracle.grpc.signals_dropped'')) (\<lambda>signalsDropped.
     bind_sum (create meter (Float64Gauge ''oracle.pipeline.channel_utilization'')) (\<lambda>channelUtilization.
     Inr \<lparr>me_EventsReceived = eventsReceived, me_EventsEmitted = eventsEmitted, me_EventsDropped = eventsDropped,
          me_StageLatency = stageLatency, me_PipelineLatency = pipelineLatency, me_PriceLookups = priceLookups,
          me_RulesEvaluated = rulesEvaluated, me_RulesMatched = rulesMatched,
          me_CorrelationsOpen = correlationsOpen, me_BlocksProcessed = blocksProcessed,
          me_ReconnectCount = reconnectCount, me_ConnectionStatus = connectionStatus,
          me_ActiveSubscribers = activeSubscribers, me_SignalsEmitted = signalsEmitted,
          me_SignalsDropped = signalsDropped, me_ChannelUtilization = channelUtilization\<rparr>))))))))))))))))"

definition newNoopMetrics :: Metrics where
  "newNoopMetrics = (case newMetrics (\<lambda>_. None) \<lparr>LatencyMs = [f64_of_int 1]\<rparr> of Inr m \<Rightarrow> m)"

section \<open>Setting up\<close>

datatype sampler = TraceIDRatioBased float64 | NeverSample

record tracer_provider =
  tp_batch :: "duration option"
  tp_sampler :: sampler

text \<open>The meter provider always has the Prometheus reader; the other one pushes.\<close>

record meter_provider =
  mp_push :: "duration option"

record Telemetry =
  tm_Metrics :: Metrics
  tm_Config :: TelemetryConfig
  tm_tracerProvider :: "tracer_provider option"
  tm_meterProvider :: "meter_provider option"
  tm_promExporter :: bool

record otel =
  ot_resource :: "TelemetryConfig \<Rightarrow> string option"
  ot_trace_exporter :: "string \<Rightarrow> bool \<Rightarrow> string option"
  ot_prometheus :: "string option"
  ot_metric_exporter :: "string \<Rightarrow> bool \<Rightarrow> string option"
  ot_meter :: "instrument \<Rightarrow> string option"

definition zero_config :: TelemetryConfig where
  "zero_config =
     \<lparr>Enabled = False, OTLPEndpoint = [], OTLPInsecure = False, HTTPPort = 0, ServiceName = [], ServiceVersion = [],
      Environment = [],
      Tracing = \<lparr>SampleRatio = f64_of_int 0, BatchTimeout = 0,
        Stages = \<lparr>st_Adapter = False, st_Normalizer = False, st_Enricher = False, st_Engine = False, st_Emitter = False\<rparr>\<rparr>,
      Metrics = \<lparr>ExportInterval = 0, Buckets = \<lparr>LatencyMs = []\<rparr>\<rparr>\<rparr>"

definition InitNoop :: Telemetry where
  "InitNoop =
     \<lparr>tm_Metrics = newNoopMetrics, tm_Config = zero_config, tm_tracerProvider = None, tm_meterProvider = None,
      tm_promExporter = False\<rparr>"

definition NewForTest :: "Metrics \<Rightarrow> TelemetryConfig \<Rightarrow> Telemetry" where
  "NewForTest metrics cfg =
     \<lparr>tm_Metrics = metrics, tm_Config = cfg, tm_tracerProvider = None, tm_meterProvider = None, tm_promExporter = False\<rparr>"

definition Init :: "otel \<Rightarrow> TelemetryConfig \<Rightarrow> string + Telemetry" where
  "Init ol cfg =
     (if \<not> Enabled cfg then Inr InitNoop
      else case ot_resource ol cfg of Some err \<Rightarrow> Inl err | None \<Rightarrow>
        (case (if OTLPEndpoint cfg \<noteq> [] then
                 (case ot_trace_exporter ol (OTLPEndpoint cfg) (OTLPInsecure cfg) of
                    Some err \<Rightarrow> Inl err
                  | None \<Rightarrow> Inr \<lparr>tp_batch = Some (BatchTimeout (Tracing cfg)),
                      tp_sampler = TraceIDRatioBased (SampleRatio (Tracing cfg))\<rparr>)
               else Inr \<lparr>tp_batch = None, tp_sampler = NeverSample\<rparr>) of
           Inl err \<Rightarrow> Inl err
         | Inr tp \<Rightarrow>
             (case ot_prometheus ol of Some err \<Rightarrow> Inl err | None \<Rightarrow>
               (case (if OTLPEndpoint cfg \<noteq> [] then
                        (case ot_metric_exporter ol (OTLPEndpoint cfg) (OTLPInsecure cfg) of
                           Some err \<Rightarrow> Inl err
                         | None \<Rightarrow> Inr \<lparr>mp_push = Some (ExportInterval (Metrics cfg))\<rparr>)
                      else Inr \<lparr>mp_push = None\<rparr>) of
                  Inl err \<Rightarrow> Inl err
                | Inr mp \<Rightarrow>
                    (case newMetrics (ot_meter ol) (Buckets (Metrics cfg)) of
                       Inl err \<Rightarrow> Inl err
                     | Inr metrics \<Rightarrow>
                         Inr \<lparr>tm_Metrics = metrics, tm_Config = cfg, tm_tracerProvider = Some tp,
                           tm_meterProvider = Some mp, tm_promExporter = True\<rparr>)))))"

text \<open>The toggles and the tracer as the stages see them.\<close>

definition stage_tel :: "(string \<Rightarrow> 'c \<Rightarrow> 'c) \<Rightarrow> Telemetry \<Rightarrow> 'c tel" where
  "stage_tel sp t =
     (let s = Stages (Tracing (tm_Config t))
      in \<lparr>tl_Adapter = st_Adapter s, tl_Normalizer = st_Normalizer s, tl_Enricher = st_Enricher s,
          tl_Engine = st_Engine s, tl_Emitter = st_Emitter s,
          tl_Start = (if tm_tracerProvider t = None then (\<lambda>_ c. c) else sp)\<rparr>)"

section \<open>Shutting down\<close>

text \<open>The error, and the providers whose \<open>Shutdown\<close> was called; what each answers is a parameter.\<close>

datatype provider = TracerProvider | MeterProvider

definition Shutdown :: "(provider \<Rightarrow> string option) \<Rightarrow> Telemetry \<Rightarrow> string option \<times> provider list" where
  "Shutdown answer t =
     (let (err, called) = (if tm_tracerProvider t \<noteq> None then (answer TracerProvider, [TracerProvider]) else (None, []))
      in if err \<noteq> None then (err, called)
         else if tm_meterProvider t \<noteq> None then (answer MeterProvider, called @ [MeterProvider])
         else (None, called))"

definition GRPCStatsHandler :: "Telemetry \<Rightarrow> (bool \<times> bool) option" where
  "GRPCStatsHandler t =
     (if tm_tracerProvider t = None \<and> tm_meterProvider t = None then None
      else Some (tm_tracerProvider t \<noteq> None, tm_meterProvider t \<noteq> None))"

section \<open>The operations server\<close>

datatype route = MetricsRoute | HealthzRoute

definition ServeHTTP :: "(int \<Rightarrow> string + string) \<Rightarrow> Telemetry \<Rightarrow> string + string \<times> route list" where
  "ServeHTTP listen t =
     (let routes = (if tm_promExporter t then [MetricsRoute] else []) @ [HealthzRoute]
      in case listen (HTTPPort (tm_Config t)) of Inl err \<Rightarrow> Inl err | Inr addr \<Rightarrow> Inr (addr, routes))"

definition healthz :: "time \<Rightarrow> time \<Rightarrow> string \<times> int" where
  "healthz startedAt now = (''ok'', f64_trunc (Seconds (now - startedAt)))"

section \<open>The channel monitor\<close>

record MonitoredChannel =
  mc_Name :: string
  mc_Len :: int
  mc_Cap :: int

definition monitor_tick :: "MonitoredChannel list \<Rightarrow> (string \<times> float64) list" where
  "monitor_tick channels =
     concat (map (\<lambda>ch. let c = mc_Cap ch in
       if c = 0 then [] else [(mc_Name ch, f64_div (f64_of_int (mc_Len ch)) (f64_of_int c))]) channels)"

definition monitored :: "string \<Rightarrow> 'a chan \<Rightarrow> MonitoredChannel" where
  "monitored name c = \<lparr>mc_Name = name, mc_Len = int (length (ch_buf c)), mc_Cap = int (ch_cap c)\<rparr>"

text \<open>The loop: a tick finds the channels as they are then; the loop ends when the context is done.\<close>

datatype monitor_event = Tick "MonitoredChannel list" | Monitor_Done

fun MonitorChannels :: "monitor_event list \<Rightarrow> (string \<times> float64) list" where
  "MonitorChannels [] = []"
| "MonitorChannels (Tick channels # es) = monitor_tick channels @ MonitorChannels es"
| "MonitorChannels (Monitor_Done # es) = []"

section \<open>What setting up gives\<close>

text \<open>The reference: the instruments in the order of the source, made one after the other until one fails.\<close>

definition instruments :: "HistogramBuckets \<Rightarrow> instrument list" where
  "instruments buckets =
     [Int64Counter ''oracle.events.received'', Int64Counter ''oracle.events.emitted'',
      Int64Counter ''oracle.events.dropped'', Float64Histogram ''oracle.stage.latency'' (LatencyMs buckets),
      Float64Histogram ''oracle.pipeline.latency'' (LatencyMs buckets),
      Int64Counter ''oracle.enricher.price_lookups'', Int64Counter ''oracle.engine.rules_evaluated'',
      Int64Counter ''oracle.engine.rules_matched'', Int64Gauge ''oracle.engine.correlations_open'',
      Int64Counter ''oracle.adapter.blocks_processed'', Int64Counter ''oracle.adapter.reconnect_count'',
      Int64Gauge ''oracle.adapter.connection_status'', Int64Gauge ''oracle.grpc.active_subscribers'',
      Int64Counter ''oracle.grpc.signals_emitted'', Int64Counter ''oracle.grpc.signals_dropped'',
      Float64Gauge ''oracle.pipeline.channel_utilization'']"

fun create_all :: "(instrument \<Rightarrow> string option) \<Rightarrow> instrument list \<Rightarrow> string + instrument list" where
  "create_all meter [] = Inr []"
| "create_all meter (i # is) = bind_sum (create meter i) (\<lambda>j. bind_sum (create_all meter is) (\<lambda>m. Inr (j # m)))"

definition metric_list :: "Metrics \<Rightarrow> instrument list" where
  "metric_list m =
     [me_EventsReceived m, me_EventsEmitted m, me_EventsDropped m, me_StageLatency m, me_PipelineLatency m,
      me_PriceLookups m, me_RulesEvaluated m, me_RulesMatched m, me_CorrelationsOpen m, me_BlocksProcessed m,
      me_ReconnectCount m, me_ConnectionStatus m, me_ActiveSubscribers m, me_SignalsEmitted m, me_SignalsDropped m, me_ChannelUtilization m]"

lemma bind_sum_assoc: "bind_sum (bind_sum r f) g = bind_sum r (\<lambda>x. bind_sum (f x) g)"
  by (cases r) simp_all

lemma create_all_iff: "create_all meter is = Inr m \<longleftrightarrow> m = is \<and> (\<forall>i\<in>set is. meter i = None)"
  by (induction "is" arbitrary: m) (auto simp: create_def bind_sum_Inr split: option.splits)

text \<open>Every instrument goes to its own field, and the first that cannot be made is the error.\<close>

lemma newMetrics_create_all: "map_sum id metric_list (newMetrics meter b) = create_all meter (instruments b)"
  by (simp add: newMetrics_def instruments_def metric_list_def create_def bind_sum_def split: option.split)

definition metrics_of :: "HistogramBuckets \<Rightarrow> Metrics" where
  "metrics_of b = (case newMetrics (\<lambda>_. None) b of Inr m \<Rightarrow> m)"

lemma metric_list_inj: "metric_list m = metric_list m' \<longleftrightarrow> m = m'" for m m' :: Metrics
  by (cases m; cases m') (simp add: metric_list_def)

lemma newMetrics_list: "newMetrics meter b = Inr m \<longleftrightarrow> metric_list m = instruments b \<and> (\<forall>i\<in>set (instruments b). meter i = None)"
proof -
  have "newMetrics meter b = Inr m \<longleftrightarrow> map_sum id metric_list (newMetrics meter b) = Inr (metric_list m)"
    by (cases "newMetrics meter b") (simp_all add: metric_list_inj)
  then show ?thesis by (simp add: newMetrics_create_all create_all_iff)
qed

lemma metric_list_metrics_of: "metric_list (metrics_of b) = instruments b"
proof -
  obtain m where m: "newMetrics (\<lambda>_. None) b = Inr m" by (simp add: newMetrics_def create_def)
  then show ?thesis using newMetrics_list [of "\<lambda>_. None" b m] by (simp add: metrics_of_def)
qed

lemma newMetrics_iff: "newMetrics meter b = Inr m \<longleftrightarrow> m = metrics_of b \<and> (\<forall>i\<in>set (instruments b). meter i = None)"
  using metric_list_inj [of m "metrics_of b"] by (auto simp: newMetrics_list metric_list_metrics_of)

lemma newNoopMetrics_all: "newNoopMetrics = metrics_of \<lparr>LatencyMs = [f64_of_int 1]\<rparr>"
  by (simp add: newNoopMetrics_def metrics_of_def)

definition exporters_ok :: "otel \<Rightarrow> TelemetryConfig \<Rightarrow> bool" where
  "exporters_ok ol cfg \<longleftrightarrow>
     ot_resource ol cfg = None \<and> ot_prometheus ol = None \<and>
     (OTLPEndpoint cfg \<noteq> [] \<longrightarrow> ot_trace_exporter ol (OTLPEndpoint cfg) (OTLPInsecure cfg) = None \<and>
        ot_metric_exporter ol (OTLPEndpoint cfg) (OTLPInsecure cfg) = None) \<and>
     (\<forall>i\<in>set (instruments (Buckets (Metrics cfg))). ot_meter ol i = None)"

lemma Init_disabled: "\<not> Enabled cfg \<Longrightarrow> Init ol cfg = Inr InitNoop"
  by (simp add: Init_def)

lemma Init_enabled:
  assumes "Enabled cfg"
  shows "Init ol cfg = Inr t \<longleftrightarrow>
    exporters_ok ol cfg \<and>
    t = \<lparr>tm_Metrics = metrics_of (Buckets (Metrics cfg)), tm_Config = cfg,
         tm_tracerProvider = Some (if OTLPEndpoint cfg = [] then \<lparr>tp_batch = None, tp_sampler = NeverSample\<rparr>
           else \<lparr>tp_batch = Some (BatchTimeout (Tracing cfg)), tp_sampler = TraceIDRatioBased (SampleRatio (Tracing cfg))\<rparr>),
         tm_meterProvider = Some \<lparr>mp_push = (if OTLPEndpoint cfg = [] then None else Some (ExportInterval (Metrics cfg)))\<rparr>,
         tm_promExporter = True\<rparr>"
proof (cases "newMetrics (ot_meter ol) (Buckets (Metrics cfg))")
  case (Inl err)
  then have "\<not> (\<forall>i\<in>set (instruments (Buckets (Metrics cfg))). ot_meter ol i = None)"
    using newMetrics_iff [of "ot_meter ol" "Buckets (Metrics cfg)" "metrics_of (Buckets (Metrics cfg))"] by auto
  then have "\<not> exporters_ok ol cfg" unfolding exporters_ok_def by blast
  then show ?thesis using assms Inl by (auto simp: Init_def split: option.splits)
next
  case (Inr m)
  then have "m = metrics_of (Buckets (Metrics cfg))" "\<forall>i\<in>set (instruments (Buckets (Metrics cfg))). ot_meter ol i = None"
    by (simp_all add: newMetrics_iff)
  then show ?thesis using assms Inr by (auto simp: Init_def exporters_ok_def split: option.splits)
qed

section \<open>Properties\<close>

text \<open>Shutting down after \<open>Init\<close>: with telemetry disabled nothing is called. With telemetry enabled the
  tracer provider is shut down, but the meter provider is only when that succeeded: an exporter
  that cannot flush its spans (an unreachable collector) leaves the metrics unflushed, and its error
  is the only one reported.\<close>

theorem Shutdown_reaches:
  assumes "Init ol cfg = Inr t"
  shows "Shutdown answer t =
    (if \<not> Enabled cfg then (None, [])
     else case answer TracerProvider of
         Some err \<Rightarrow> (Some err, [TracerProvider])
       | None \<Rightarrow> (answer MeterProvider, [TracerProvider, MeterProvider]))"
proof (cases "Enabled cfg")
  case True
  then show ?thesis
    using assms by (cases "answer TracerProvider") (simp_all add: Init_enabled Shutdown_def)
next
  case False
  then show ?thesis using assms by (auto simp: Init_disabled InitNoop_def Shutdown_def)
qed

text \<open>What the stages see of the telemetry after \<open>Init\<close>: the configured toggles when telemetry is
  enabled, and otherwise none, whatever the configuration says of the stages. Spans are sampled only
  when an endpoint is configured, and every instrument exists either way.\<close>

theorem stages_after_Init:
  assumes "Init ol cfg = Inr t"
  shows "(tl_Engine (stage_tel sp t) \<longleftrightarrow> Enabled cfg \<and> st_Engine (Stages (Tracing cfg))) \<and>
    (tl_Adapter (stage_tel sp t) \<longleftrightarrow> Enabled cfg \<and> st_Adapter (Stages (Tracing cfg))) \<and>
    map_option tp_sampler (tm_tracerProvider t) =
      (if \<not> Enabled cfg then None else if OTLPEndpoint cfg = [] then Some NeverSample
       else Some (TraceIDRatioBased (SampleRatio (Tracing cfg)))) \<and>
    metric_list (tm_Metrics t) = instruments (if Enabled cfg then Buckets (Metrics cfg) else \<lparr>LatencyMs = [f64_of_int 1]\<rparr>)"
proof (cases "Enabled cfg")
  case True
  then show ?thesis using assms by (simp add: Init_enabled stage_tel_def Let_def metric_list_metrics_of)
next
  case False
  then show ?thesis
    using assms by (auto simp: Init_disabled InitNoop_def zero_config_def stage_tel_def Let_def newNoopMetrics_all metric_list_metrics_of)
qed

section \<open>Channel utilization\<close>

lemma half_even_le: "half_even n d \<le> n div d + 1"
  by (simp add: half_even_def Let_def)

lemma int_div_less:
  assumes "0 < d" "n < b * (d::int)"
  shows "n div d < b"
proof (rule ccontr)
  assume "\<not> n div d < b"
  then have "b * d \<le> n div d * d" using assms(1) by (intro mult_right_mono) simp_all
  also have "\<dots> \<le> n" using assms(1) by (simp add: minus_mod_eq_div_mult [symmetric])
  finally show False using assms(2) by simp
qed

lemma round_idx_le_power:
  assumes "0 < d" "0 \<le> n" "n \<le> 2 ^ c * d" "53 \<le> c"
  shows "round_idx n d \<le> (int c - 51) * 2 ^ 52"
proof (cases "n = 2 ^ c * d")
  case True
  have "mag_of_idx (int (c - 52) * 2 ^ 52 + 2 ^ 52) = 2 ^ 52 * 2 ^ (c - 52)"
    by (rule mag_normal) simp_all
  also have "\<dots> = 2 ^ c" using assms(4) by (simp only: power_add [symmetric]) simp
  finally have "round_idx n d = int (c - 52) * 2 ^ 52 + 2 ^ 52"
    using round_idx_mag [OF assms(1), of "int (c - 52) * 2 ^ 52 + 2 ^ 52"] True by simp
  then show ?thesis using assms(4) by (simp add: of_nat_diff algebra_simps)
next
  case False
  let ?q = "n div d"
  have q: "?q < 2 ^ c" using assms False by (intro int_div_less) simp_all
  show ?thesis
  proof (cases "?q < 2 ^ 53")
    case True
    then have "round_idx n d \<le> 2 ^ 53" using half_even_le [of n d] by (simp add: round_idx_def)
    also have "\<dots> = (int 53 - 51) * 2 ^ 52" by simp
    also have "\<dots> \<le> (int c - 51) * 2 ^ 52" using assms(4) by (intro mult_right_mono) simp_all
    finally show ?thesis .
  next
    case F: False
    let ?k = "nat (bitlen ?q - 53)"
    have "54 \<le> bitlen ?q" using F by (simp add: bitlen_ge_iff_power)
    then have b: "53 \<le> bitlen ?q" "bitlen ?q \<le> int c"
      using q by (simp_all add: bitlen_le_iff_power)
    have "?q < 2 ^ nat (bitlen ?q)" using bitlen_bounds [of ?q] F by simp
    moreover have "nat (bitlen ?q) = 53 + ?k" using b by simp
    ultimately have "?q < 2 ^ 53 * 2 ^ ?k" by (simp only: power_add)
    then have "?q div 2 ^ ?k < 2 ^ 53" by (rule int_div_less [rotated]) simp
    then have "half_even n (d * 2 ^ ?k) \<le> 2 ^ 53"
      using half_even_le [of n "d * 2 ^ ?k"] assms(1) by (simp add: zdiv_zmult2_eq)
    then have "round_idx n d \<le> int ?k * 2 ^ 52 + 2 ^ 53" using F by (simp add: round_idx_def Let_def)
    also have "\<dots> = (bitlen ?q - 51) * 2 ^ 52" using b by (simp add: algebra_simps)
    also have "\<dots> \<le> (int c - 51) * 2 ^ 52" using b by (intro mult_right_mono) simp_all
    finally show ?thesis .
  qed
qed

lemma one_idx: "f64_of_int 1 = mk_f64 False (1023 * 2 ^ 52)"
proof -
  define c :: nat where "c = 1074"
  have c: "53 \<le> c" by (simp add: c_def)
  have "mag_of_idx (int (c - 52) * 2 ^ 52 + 2 ^ 52) = 2 ^ 52 * 2 ^ (c - 52)"
    by (rule mag_normal) simp_all
  also have "\<dots> = 2 ^ c" using c by (simp only: power_add [symmetric]) simp
  finally have "round_idx (2 ^ c) 1 = int (c - 52) * 2 ^ 52 + 2 ^ 52"
    using round_idx_mag [of 1 "int (c - 52) * 2 ^ 52 + 2 ^ 52"] by simp
  then have "round_idx (1 * 2 ^ 1074) 1 = 1023 * 2 ^ 52" by (simp only: c_def mult_1) simp
  then show ?thesis by (simp only: f64_of_int_def f64_round_def) (simp add: inf_idx_def)
qed

lemma int_ratio:
  assumes "0 \<le> m" "m \<le> n" "0 < n" "n < 2 ^ 53"
  shows "f64_of_int 0 \<le> f64_div (f64_of_int m) (f64_of_int n)"
    and "f64_div (f64_of_int m) (f64_of_int n) \<le> f64_of_int 1"
    and "m = n \<Longrightarrow> f64_div (f64_of_int m) (f64_of_int n) = f64_of_int 1"
    and "m = 0 \<Longrightarrow> f64_div (f64_of_int m) (f64_of_int n) = f64_of_int 0"
proof -
  define c :: nat where "c = 1074"
  have zero: "f64_of_int 0 = mk_f64 False 0"
    by (simp add: f64_of_int_def f64_round_def round_idx_def half_even_def inf_idx_def)
  have n: "f64_mag (f64_of_int n) = n * 2 ^ c" "f64_finite (f64_of_int n)"
    using f64_of_int_exact [of n 0] assms by (simp_all add: c_def)
  have m: "f64_mag (f64_of_int m) = m * 2 ^ c" "f64_finite (f64_of_int m)"
    using f64_of_int_exact [of m 0] assms
    by (cases "m = 0"; simp add: c_def zero f64_mag_def f64_finite_def inf_idx_def)+
  have "f64_idx (f64_of_int n) \<noteq> 0"
  proof
    assume "f64_idx (f64_of_int n) = 0"
    then have "n * 2 ^ c = 0" using n(1) by (simp add: f64_mag_def)
    then show False using assms(3) by simp
  qed
  then have "f64_div (f64_of_int m) (f64_of_int n) = f64_round False (m * 2 ^ c * 2 ^ c) (n * 2 ^ c)"
    using m n assms
    by (simp add: f64_div_def Let_def f64_is_nan_def f64_is_inf_def f64_finite_def f64_of_int_neg flip: c_def)
  also have "\<dots> = f64_round False (m * 2 ^ c) n"
    by (simp only: f64_round_def round_idx_scale [of "2 ^ c" "m * 2 ^ c" n] zero_less_power zero_less_numeral)
  finally have u: "f64_div (f64_of_int m) (f64_of_int n) = mk_f64 False (min inf_idx (round_idx (m * 2 ^ c) n))"
    by (simp only: f64_round_def)
  have "m * 2 ^ c \<le> 2 ^ c * n" using assms by (simp add: mult.commute mult_left_mono)
  then have le: "round_idx (m * 2 ^ c) n \<le> 1023 * 2 ^ 52"
    using round_idx_le_power [of n "m * 2 ^ c" c] assms by (simp add: c_def)
  have ge: "0 \<le> round_idx (m * 2 ^ c) n" using assms by (intro round_idx_nonneg) simp_all
  have u': "f64_div (f64_of_int m) (f64_of_int n) = mk_f64 False (round_idx (m * 2 ^ c) n)"
    using le u by (simp add: inf_idx_def min_def)
  show "f64_of_int 0 \<le> f64_div (f64_of_int m) (f64_of_int n)"
    using le ge by (simp add: u' zero less_eq_float64_def f64_is_nan_def f64_key_def inf_idx_def)
  show "f64_div (f64_of_int m) (f64_of_int n) \<le> f64_of_int 1"
    using le ge by (simp add: u' one_idx less_eq_float64_def f64_is_nan_def f64_key_def inf_idx_def)
  show "f64_div (f64_of_int m) (f64_of_int n) = f64_of_int 1" if "m = n"
  proof -
    have "f64_round (f64_neg (f64_of_int 1)) (f64_mag (f64_of_int 1) * n) n = f64_of_int 1"
      using assms by (intro f64_round_mag) (simp_all add: one_idx inf_idx_def)
    moreover have "f64_mag (f64_of_int 1) = 2 ^ c" using f64_of_int_exact [of 1 0] by (simp add: c_def)
    ultimately have "f64_round False (2 ^ c * n) n = f64_of_int 1" by (simp add: f64_of_int_neg)
    then show ?thesis using u that by (simp add: f64_round_def mult.commute)
  qed
  show "f64_div (f64_of_int m) (f64_of_int n) = f64_of_int 0" if "m = 0"
    using u' assms(3) by (simp add: that zero round_idx_def half_even_def)
qed

text \<open>Every utilization the monitor records for a Go channel lies between 0 and 1; it is exactly 1 for a
  full channel and exactly 0 for an empty one, and an unbuffered channel is left out.\<close>

theorem utilization_between_0_and_1:
  assumes "\<forall>(name, c)\<in>set chs. length (ch_buf c) \<le> ch_cap c \<and> ch_cap c < 2 ^ 53"
    and "(name, u) \<in> set (monitor_tick (map (\<lambda>(name, c). monitored name c) chs))"
  shows "f64_of_int 0 \<le> u \<and> u \<le> f64_of_int 1 \<and>
    (\<exists>c. (name, c) \<in> set chs \<and> 0 < ch_cap c \<and>
      (length (ch_buf c) = ch_cap c \<longrightarrow> u = f64_of_int 1) \<and> (ch_buf c = [] \<longrightarrow> u = f64_of_int 0))"
proof -
  obtain c where c: "(name, c) \<in> set chs" "ch_cap c \<noteq> 0"
    and u: "u = f64_div (f64_of_int (int (length (ch_buf c)))) (f64_of_int (int (ch_cap c)))"
    using assms(2) by (auto simp: monitor_tick_def monitored_def Let_def split: if_splits)
  have len: "length (ch_buf c) \<le> ch_cap c" and "ch_cap c < 2 ^ 53" using assms(1) c(1) by auto
  then have cap: "int (ch_cap c) < 2 ^ 53" by simp
  note ratio = int_ratio [of "int (length (ch_buf c))" "int (ch_cap c)", folded u]
  have "f64_of_int 0 \<le> u" "u \<le> f64_of_int 1"
    "length (ch_buf c) = ch_cap c \<Longrightarrow> u = f64_of_int 1" "ch_buf c = [] \<Longrightarrow> u = f64_of_int 0"
    using len cap c(2) by (intro ratio; simp)+
  then show ?thesis using c by blast
qed

section \<open>Examples\<close>

definition demo_otel :: otel where
  "demo_otel =
     \<lparr>ot_resource = (\<lambda>_. None), ot_trace_exporter = (\<lambda>_ _. None), ot_prometheus = None,
      ot_metric_exporter = (\<lambda>_ _. None), ot_meter = (\<lambda>_. None)\<rparr>"

definition demo_telemetry :: TelemetryConfig where
  "demo_telemetry = zero_config\<lparr>Enabled := True, OTLPEndpoint := ''otel:4317''\<rparr>"

lemma demo_Init: "\<exists>t. Init demo_otel demo_telemetry = Inr t"
  by (simp add: Init_enabled demo_telemetry_def zero_config_def exporters_ok_def demo_otel_def)

lemma Shutdown_reaches_witness:
  "\<exists>t. Init demo_otel demo_telemetry = Inr t \<and>
     Shutdown (\<lambda>p. if p = TracerProvider then Some ''timeout'' else None) t = (Some ''timeout'', [TracerProvider])"
proof -
  obtain t where t: "Init demo_otel demo_telemetry = Inr t" using demo_Init by blast
  show ?thesis
    using t Shutdown_reaches [OF t, of "\<lambda>p. if p = TracerProvider then Some ''timeout'' else None"]
    by (simp add: demo_telemetry_def)
qed

lemma stages_after_Init_witness:
  "\<exists>t. Init demo_otel demo_telemetry = Inr t \<and> me_EventsReceived (tm_Metrics t) = Int64Counter ''oracle.events.received''"
proof -
  obtain t where t: "Init demo_otel demo_telemetry = Inr t" using demo_Init by blast
  show ?thesis using t stages_after_Init [OF t] by (auto simp: metric_list_def instruments_def split: if_splits)
qed

lemma utilization_between_0_and_1_witness:
  "f64_div (f64_of_int 1) (f64_of_int 2) \<le> f64_of_int 1"
proof -
  let ?c = "\<lparr>ch_buf = [()], ch_cap = 2\<rparr>"
  have "\<forall>(name, c)\<in>set [(''signals'', ?c)]. length (ch_buf c) \<le> ch_cap c \<and> ch_cap c < 2 ^ 53" by simp
  moreover have "(''signals'', f64_div (f64_of_int 1) (f64_of_int 2))
      \<in> set (monitor_tick (map (\<lambda>(name, c). monitored name c) [(''signals'', ?c)]))"
    by (simp add: monitor_tick_def monitored_def)
  ultimately show ?thesis using utilization_between_0_and_1 by blast
qed

end
