(* ===== verification/Oracle_Main.thy ===== *)
theory Oracle_Main
  imports Emitter Engine_Run Enricher Evm_Adapter Telemetry Chainlink Normalizer
begin

text \<open>
  The program (\<open>cmd/oracle/main.go\<close>): what it builds from its files and how it fails, from the
  reading of its files to the launch of its goroutines, whose steps are in \<open>Adapter_Flow\<close> and in the
  theories of the stages. What the files decode to and what the network answers are parameters.
\<close>

section \<open>Start-up\<close>

datatype level = DebugLevel | WarnLevel | ErrorLevel | InfoLevel

definition buildLogger :: "string \<Rightarrow> level" where
  "buildLogger lvl =
     (if lvl = ''debug'' then DebugLevel
      else if lvl = ''warn'' then WarnLevel
      else if lvl = ''error'' then ErrorLevel
      else InfoLevel)"

record 'k host =
  ho_config :: "string + Config"
  ho_registry :: "string + rawRegistry"
  ho_rules :: "string + RulesConfig"
  ho_otel :: otel
  ho_listen :: "int \<Rightarrow> string + string"
  ho_dial :: "string \<Rightarrow> string + 'k"
  ho_now :: time

text \<open>The \<open>log.Fatalf\<close> calls, in their order, and the panic of \<open>make\<close> for a negative size.\<close>

datatype fatal =
    FatalConfig config_error
  | FatalRegistry string
  | FatalRules load_error
  | FatalTelemetry string
  | FatalOpsHTTP string
  | FatalDial string
  | PanicMakeChan int

definition chan_of_size :: "int \<Rightarrow> fatal + 'a chan" where
  "chan_of_size n = (if n < 0 then Inl (PanicMakeChan n) else Inr (make_chan n))"

definition fatally :: "('x \<Rightarrow> fatal) \<Rightarrow> 'x + 'a \<Rightarrow> fatal + 'a" where
  "fatally f r = (case r of Inl e \<Rightarrow> Inl (f e) | Inr x \<Rightarrow> Inr x)"

lemma fatally_Inr [simp]: "fatally f r = Inr y \<longleftrightarrow> r = Inr y"
  by (simp add: fatally_def split: sum.split)

text \<open>An adapter with its channel \<open>events\<close>, which \<open>Evm_Adapter\<close> leaves out.\<close>

record ('c, 'k) program =
  pg_level :: level
  pg_tracker :: Tracker
  pg_telemetry :: Telemetry
  pg_ops :: "(string \<times> route list) option"
  pg_port :: int
  pg_provider :: Provider
  pg_emitter :: Emitter
  pg_raw :: "(RawEvent, 'c) Traced chan"
  pg_chain :: "(ChainEvent, 'c) Traced chan"
  pg_enriched :: "(EnrichedEvent, 'c) Traced chan"
  pg_signals :: "(Signal, 'c) Traced chan"
  pg_adapters :: "(('c, 'k) Adapter \<times> (RawEvent, 'c) Traced chan) list"
  pg_enricher :: "'c Enricher"
  pg_engine :: "'c Engine"

text \<open>The files and the telemetry, with the operations server.\<close>

definition load_files :: "'k host \<Rightarrow> fatal + Config \<times> Registry \<times> RulesConfig \<times> Telemetry \<times> (string \<times> route list) option" where
  "load_files ho =
     bind_sum (fatally FatalConfig (LoadConfig (ho_config ho))) (\<lambda>cfg.
     bind_sum (fatally FatalRegistry (Load (ho_registry ho))) (\<lambda>reg.
     bind_sum (fatally FatalRules (LoadRules (ho_rules ho))) (\<lambda>rules.
     bind_sum (fatally FatalTelemetry (Init (ho_otel ho) (cf_Telemetry cfg))) (\<lambda>t.
     bind_sum (if Enabled (cf_Telemetry cfg)
               then fatally FatalOpsHTTP (map_sum id Some (ServeHTTP (ho_listen ho) t)) else Inr None) (\<lambda>ops.
     Inr (cfg, reg, rules, t, ops))))))"

definition startup ::
  "ethlib \<Rightarrow> wormlib \<Rightarrow> (string \<Rightarrow> 'c \<Rightarrow> 'c) \<Rightarrow> 'k host \<Rightarrow> fatal + ('c, 'k) program" where
  "startup E W sp ho =
     bind_sum (load_files ho) (\<lambda>(cfg, reg, rules, t, ops).
     bind_sum (case map_of (cf_Chains cfg) ''ethereum'' of
                 None \<Rightarrow> Inr None
               | Some ethCfg \<Rightarrow> fatally FatalDial (map_sum id Some (ho_dial ho (DeriveHTTPURL (RPCURL ethCfg))))) (\<lambda>httpClient.
     bind_sum (chan_of_size (RawEventBuffer (cf_Pipeline cfg))) (\<lambda>rawEvents.
     bind_sum (chan_of_size (ChainEventBuffer (cf_Pipeline cfg))) (\<lambda>chainEvents.
     bind_sum (chan_of_size (EnrichedEventBuffer (cf_Pipeline cfg))) (\<lambda>enrichedEvents.
     bind_sum (chan_of_size (SignalBuffer (cf_Pipeline cfg))) (\<lambda>signals.
     bind_sum (case map_of (cf_Chains cfg) ''ethereum'' of
                 None \<Rightarrow> Inr []
               | Some ethCfg \<Rightarrow> bind_sum (chan_of_size (EventBuffer ethCfg)) (\<lambda>events.
                   Inr [(Evm_Adapter.New E W ChainEthereum ethCfg (Some reg) None httpClient (cf_Tuning cfg) (stage_tel sp t),
                         events)])) (\<lambda>adapters.
     Inr \<lparr>pg_level = buildLogger (cf_LogLevel cfg), pg_tracker = NewTracker (ho_now ho), pg_telemetry = t, pg_ops = ops,
          pg_port = GPort (cf_GRPC cfg),
          pg_provider = Chainlink.New (cf_Chainlink cfg) reg ChainEthereum,
          pg_emitter = NewEmitter (SubscriberBufferSize (cf_GRPC cfg)),
          pg_raw = rawEvents, pg_chain = chainEvents, pg_enriched = enrichedEvents, pg_signals = signals,
          pg_adapters = adapters,
          pg_enricher = Enricher.New reg (Workers (cf_Enricher cfg)) (stage_tel sp t),
          pg_engine = Engine_Run.New rules
            \<lparr>cc_DefaultWindowTTL = DefaultWindowTTL (cf_Engine cfg), cc_PruneInterval = PruneInterval (cf_Engine cfg),
             cc_MaxWindowSize = MaxWindowSize (cf_Engine cfg)\<rparr> (stage_tel sp t)\<rparr>)))))))"

lemma startup_eq:
  "startup E W sp ho =
     bind_sum (fatally FatalConfig (LoadConfig (ho_config ho))) (\<lambda>cfg.
     bind_sum (fatally FatalRegistry (Load (ho_registry ho))) (\<lambda>reg.
     bind_sum (fatally FatalRules (LoadRules (ho_rules ho))) (\<lambda>rules.
     bind_sum (fatally FatalTelemetry (Init (ho_otel ho) (cf_Telemetry cfg))) (\<lambda>t.
     bind_sum (if Enabled (cf_Telemetry cfg)
               then fatally FatalOpsHTTP (map_sum id Some (ServeHTTP (ho_listen ho) t)) else Inr None) (\<lambda>ops.
     bind_sum (case map_of (cf_Chains cfg) ''ethereum'' of
                 None \<Rightarrow> Inr None
               | Some ethCfg \<Rightarrow> fatally FatalDial (map_sum id Some (ho_dial ho (DeriveHTTPURL (RPCURL ethCfg))))) (\<lambda>httpClient.
     bind_sum (chan_of_size (RawEventBuffer (cf_Pipeline cfg))) (\<lambda>rawEvents.
     bind_sum (chan_of_size (ChainEventBuffer (cf_Pipeline cfg))) (\<lambda>chainEvents.
     bind_sum (chan_of_size (EnrichedEventBuffer (cf_Pipeline cfg))) (\<lambda>enrichedEvents.
     bind_sum (chan_of_size (SignalBuffer (cf_Pipeline cfg))) (\<lambda>signals.
     bind_sum (case map_of (cf_Chains cfg) ''ethereum'' of
                 None \<Rightarrow> Inr []
               | Some ethCfg \<Rightarrow> bind_sum (chan_of_size (EventBuffer ethCfg)) (\<lambda>events.
                   Inr [(Evm_Adapter.New E W ChainEthereum ethCfg (Some reg) None httpClient (cf_Tuning cfg) (stage_tel sp t),
                         events)])) (\<lambda>adapters.
     Inr \<lparr>pg_level = buildLogger (cf_LogLevel cfg), pg_tracker = NewTracker (ho_now ho), pg_telemetry = t, pg_ops = ops,
          pg_port = GPort (cf_GRPC cfg),
          pg_provider = Chainlink.New (cf_Chainlink cfg) reg ChainEthereum,
          pg_emitter = NewEmitter (SubscriberBufferSize (cf_GRPC cfg)),
          pg_raw = rawEvents, pg_chain = chainEvents, pg_enriched = enrichedEvents, pg_signals = signals,
          pg_adapters = adapters,
          pg_enricher = Enricher.New reg (Workers (cf_Enricher cfg)) (stage_tel sp t),
          pg_engine = Engine_Run.New rules
            \<lparr>cc_DefaultWindowTTL = DefaultWindowTTL (cf_Engine cfg), cc_PruneInterval = PruneInterval (cf_Engine cfg),
             cc_MaxWindowSize = MaxWindowSize (cf_Engine cfg)\<rparr> (stage_tel sp t)\<rparr>)))))))))))"
  by (simp add: startup_def load_files_def bind_sum_assoc)

text \<open>What \<open>main\<close> itself logs (a failing adapter's goroutine logs too), and whether a message of a level is written at the configured one.\<close>

datatype log_entry =
    Derived_HTTP_URL string
  | Oracle_Started int int
  | Shutting_Down
  | Shutdown_Failed string
  | Shutdown_Complete

fun severity :: "level \<Rightarrow> nat" where
  "severity DebugLevel = 0"
| "severity InfoLevel = 1"
| "severity WarnLevel = 2"
| "severity ErrorLevel = 3"

definition written :: "level \<Rightarrow> level \<Rightarrow> log_entry \<Rightarrow> log_entry list" where
  "written configured lvl entry = (if severity configured \<le> severity lvl then [entry] else [])"

text \<open>Up to the launch of the goroutines.\<close>

definition start_log :: "'k host \<Rightarrow> log_entry list" where
  "start_log ho =
     (case load_files ho of
        Inl _ \<Rightarrow> []
      | Inr (cfg, _) \<Rightarrow>
          (case map_of (cf_Chains cfg) ''ethereum'' of
             None \<Rightarrow> []
           | Some ethCfg \<Rightarrow> written (buildLogger (cf_LogLevel cfg)) InfoLevel (Derived_HTTP_URL (DeriveHTTPURL (RPCURL ethCfg)))))"

section \<open>What a started program is made of\<close>

lemma chan_of_size_Inr [simp]: "chan_of_size n = Inr c \<longleftrightarrow> 0 \<le> n \<and> c = make_chan n"
  by (auto simp: chan_of_size_def)

lemma map_sum_Inr [simp]: "map_sum id Some r = Inr y \<longleftrightarrow> (\<exists>k. r = Inr k \<and> y = Some k)"
  by (cases r) auto

text \<open>The defaults leave no buffer of the pipeline at zero, so a size that \<open>make\<close> accepts is positive.\<close>

lemma default_chain_buffer: "EventBuffer (default_chain c) \<noteq> 0"
  by (simp add: default_chain_def Let_def or_default_def)

lemma defaults_nonzero:
  "RawEventBuffer (cf_Pipeline (applyDefaults raw)) \<noteq> 0"
  "ChainEventBuffer (cf_Pipeline (applyDefaults raw)) \<noteq> 0"
  "EnrichedEventBuffer (cf_Pipeline (applyDefaults raw)) \<noteq> 0"
  "SignalBuffer (cf_Pipeline (applyDefaults raw)) \<noteq> 0"
  by (simp_all add: applyDefaults_def or_default_def)

lemma defaults_chain: "map_of (cf_Chains (applyDefaults raw)) name = map_option default_chain (map_of (cf_Chains raw) name)"
  by (simp add: applyDefaults_def map_of_map)

text \<open>C35. A program that starts has read its three files, and everything built from them is usable: every
  channel of the pipeline has room for at least one event, the enricher has a worker, the windows of
  the correlator are bounded by a positive number, every correlation has two event types, and there
  is one adapter if the chains of the configuration have an \<open>ethereum\<close>, with a buffer of at least
  one event, and none otherwise.\<close>

theorem startup_builds:
  assumes "startup E W sp ho = Inr pg"
  shows "\<exists>cfg reg rules. LoadConfig (ho_config ho) = Inr cfg \<and> Load (ho_registry ho) = Inr reg \<and>
    LoadRules (ho_rules ho) = Inr rules \<and>
    0 < ch_cap (pg_raw pg) \<and> 0 < ch_cap (pg_chain pg) \<and> 0 < ch_cap (pg_enriched pg) \<and> 0 < ch_cap (pg_signals pg) \<and>
    en_workers (pg_enricher pg) = Workers (cf_Enricher cfg) \<and> 1 \<le> en_workers (pg_enricher pg) \<and>
    eg_rules (pg_engine pg) = rules \<and> (\<forall>corr\<in>set (rc_Correlations rules). length (co_Sequence corr) = 2) \<and>
    1 \<le> MaxWindowSize (cf_Engine cfg) \<and>
    map (ad_chain \<circ> fst) (pg_adapters pg) = (if map_of (cf_Chains cfg) ''ethereum'' = None then [] else [ChainEthereum]) \<and>
    (\<forall>(a, events)\<in>set (pg_adapters pg). ad_reg a = Some reg \<and> ch_buf events = [] \<and> 0 < ch_cap events)"
proof -
  obtain cfg reg rules where cfg: "LoadConfig (ho_config ho) = Inr cfg"
    and reg: "Load (ho_registry ho) = Inr reg" and rules: "LoadRules (ho_rules ho) = Inr rules"
    using assms by (auto simp: startup_eq bind_sum_Inr)
  then obtain raw where raw: "cfg = applyDefaults raw" and v: "Validate cfg = None"
    by (auto simp: LoadConfig_def Let_def split: sum.splits option.splits)
  have w: "1 \<le> Workers (cf_Enricher cfg)" "1 \<le> MaxWindowSize (cf_Engine cfg)" using v by (simp_all add: Validate_None)
  note nz = defaults_nonzero [of raw, folded raw]
  have nz5: "EventBuffer c \<noteq> 0" if "map_of (cf_Chains cfg) name = Some c" for name c
    using that default_chain_buffer by (auto simp: raw defaults_chain)
  have two: "\<forall>corr\<in>set (rc_Correlations rules). length (co_Sequence corr) = 2"
    using rules by (simp add: LoadRules_Inr check_sequences_ok)
  have caps: "0 < ch_cap (pg_raw pg)" "0 < ch_cap (pg_chain pg)" "0 < ch_cap (pg_enriched pg)" "0 < ch_cap (pg_signals pg)"
    "en_workers (pg_enricher pg) = Workers (cf_Enricher cfg)" "eg_rules (pg_engine pg) = rules"
    using assms nz w
    by (auto simp: startup_eq bind_sum_Inr cfg reg rules make_chan_def Enricher.New_def Engine_Run.New_def)
  have ads: "map (ad_chain \<circ> fst) (pg_adapters pg) = (if map_of (cf_Chains cfg) ''ethereum'' = None then [] else [ChainEthereum])"
    "\<forall>(a, events)\<in>set (pg_adapters pg). ad_reg a = Some reg \<and> ch_buf events = [] \<and> 0 < ch_cap events"
    using assms nz5 w
    by (force simp: startup_eq bind_sum_Inr cfg reg rules make_chan_def Evm_Adapter.New_def split: option.splits)+
  show ?thesis
    by (intro exI [of _ cfg] exI [of _ reg] exI [of _ rules] conjI)
      (use cfg reg rules caps w two ads in simp_all)
qed

text \<open>The channels of a program that starts are empty and have room, and there is at most one adapter.\<close>

lemma startup_shape:
  assumes "startup E W sp ho = Inr pg"
  obtains n2 n3 n4 n5 n where "pg_raw pg = make_chan n2" "pg_chain pg = make_chan n3" "pg_enriched pg = make_chan n4"
    "pg_signals pg = make_chan n5" "0 < n2" "0 < n3" "0 < n4" "0 < n5" "pg_emitter pg = NewEmitter n"
    "0 < en_workers (pg_enricher pg)" "pg_adapters pg = [] \<or> (\<exists>a n1. pg_adapters pg = [(a, make_chan n1)] \<and> 0 < n1)"
proof -
  obtain cfg where cfg: "LoadConfig (ho_config ho) = Inr cfg" using assms by (auto simp: startup_eq bind_sum_Inr)
  then obtain raw where raw: "cfg = applyDefaults raw" and v: "Validate cfg = None"
    by (auto simp: LoadConfig_def Let_def split: sum.splits option.splits)
  have w: "0 < Workers (cf_Enricher cfg)" using v by (simp add: Validate_None)
  note nz = defaults_nonzero [of raw, folded raw]
  have nz1: "EventBuffer c \<noteq> 0" if "map_of (cf_Chains cfg) name = Some c" for name c
    using that default_chain_buffer by (auto simp: raw defaults_chain)
  show thesis
  proof (rule that)
    show "pg_raw pg = make_chan (RawEventBuffer (cf_Pipeline cfg))" "pg_chain pg = make_chan (ChainEventBuffer (cf_Pipeline cfg))"
      "pg_enriched pg = make_chan (EnrichedEventBuffer (cf_Pipeline cfg))" "pg_signals pg = make_chan (SignalBuffer (cf_Pipeline cfg))"
      "pg_emitter pg = NewEmitter (SubscriberBufferSize (cf_GRPC cfg))" "0 < en_workers (pg_enricher pg)"
      "0 < RawEventBuffer (cf_Pipeline cfg)" "0 < ChainEventBuffer (cf_Pipeline cfg)" "0 < EnrichedEventBuffer (cf_Pipeline cfg)"
      "0 < SignalBuffer (cf_Pipeline cfg)"
      using assms nz w by (auto simp: startup_eq bind_sum_Inr cfg Enricher.New_def)
    show "pg_adapters pg = [] \<or> (\<exists>a n1. pg_adapters pg = [(a, make_chan n1)] \<and> 0 < n1)"
      using assms nz1 by (force simp: startup_eq bind_sum_Inr cfg split: option.splits)
  qed
qed

text \<open>Only the chain named \<open>ethereum\<close> is ever started: two configurations that both load and differ
  only in their other chains start exactly the same program (or fail in the same way), so the
  \<open>chains.solana\<close> of the shipped \<open>config.toml\<close> is checked and then ignored.\<close>

theorem other_chains_are_ignored:
  assumes "LoadConfig (Inr raw) = Inr cfg" "LoadConfig (Inr (raw\<lparr>cf_Chains := cs\<rparr>)) = Inr cfg'"
    and "map_of cs ''ethereum'' = map_of (cf_Chains raw) ''ethereum''"
  shows "startup E W sp (ho\<lparr>ho_config := Inr (raw\<lparr>cf_Chains := cs\<rparr>)\<rparr>) = startup E W sp (ho\<lparr>ho_config := Inr raw\<rparr>)"
proof -
  have c: "cfg = applyDefaults raw" "cfg' = applyDefaults (raw\<lparr>cf_Chains := cs\<rparr>)"
    using assms(1,2) by (auto simp: LoadConfig_def Let_def split: option.splits)
  have e: "map_of (cf_Chains cfg') ''ethereum'' = map_of (cf_Chains cfg) ''ethereum''"
    using assms(3) by (simp add: c defaults_chain)
  have same: "cf_Telemetry cfg' = cf_Telemetry cfg" "cf_Pipeline cfg' = cf_Pipeline cfg" "cf_Tuning cfg' = cf_Tuning cfg"
    "cf_LogLevel cfg' = cf_LogLevel cfg" "cf_Chainlink cfg' = cf_Chainlink cfg" "cf_GRPC cfg' = cf_GRPC cfg"
    "cf_Enricher cfg' = cf_Enricher cfg" "cf_Engine cfg' = cf_Engine cfg"
    by (simp_all add: c applyDefaults_def)
  show ?thesis
    by (simp add: startup_eq assms(1,2) fatally_def e same cong: if_cong option.case_cong)
qed

text \<open>A negative size in the pipeline section passes every check and then ends the program with a
  panic: take any configuration with which the program starts and make the first of its sizes
  negative.\<close>

theorem negative_buffer_panics:
  assumes "startup E W sp (ho\<lparr>ho_config := Inr raw\<rparr>) = Inr pg" "RawEventBuffer pl < 0"
    "ChainEventBuffer pl \<noteq> 0" "EnrichedEventBuffer pl \<noteq> 0" "SignalBuffer pl \<noteq> 0"
  shows "startup E W sp (ho\<lparr>ho_config := Inr (raw\<lparr>cf_Pipeline := pl\<rparr>)\<rparr>) = Inl (PanicMakeChan (RawEventBuffer pl))"
proof -
  obtain cfg reg rules t where cfg: "LoadConfig (Inr raw) = Inr cfg" and reg: "Load (ho_registry ho) = Inr reg"
    and rules: "LoadRules (ho_rules ho) = Inr rules" and t: "Init (ho_otel ho) (cf_Telemetry cfg) = Inr t"
    using assms(1) by (auto simp: startup_eq bind_sum_Inr)
  have "LoadConfig (Inr (raw\<lparr>cf_Pipeline := pl\<rparr>)) = Inr (cfg\<lparr>cf_Pipeline := pl\<rparr>)"
    using negative_buffer_loads [OF cfg, of pl] assms by simp
  then show ?thesis
    using assms(1,2)
    by (auto simp: startup_eq cfg reg rules t fatally_def chan_of_size_def bind_sum_def split: sum.splits option.splits)
qed

text \<open>The secret part of the node's URL is written to the log: whenever the program starts with the shipped log level
  (or \<open>debug\<close>) and the configuration has a web socket URL, everything after its scheme, the key in its path or the
  user's password included, is in the first log line.\<close>

theorem node_url_is_logged:
  assumes "startup E W sp ho = Inr pg" "LoadConfig (ho_config ho) = Inr cfg" "cf_LogLevel cfg \<notin> {''warn'', ''error''}"
    and "map_of (cf_Chains cfg) ''ethereum'' = Some ethCfg" "RPCURL ethCfg = ''wss://'' @ secret"
  shows "start_log ho = [Derived_HTTP_URL (''https://'' @ secret)]"
proof -
  obtain reg rules t ops where l: "load_files ho = Inr (cfg, reg, rules, t, ops)"
    using assms(1,2) by (auto simp: startup_def bind_sum_Inr load_files_def)
  have "severity (buildLogger (cf_LogLevel cfg)) \<le> 1" using assms(3) by (simp add: buildLogger_def)
  moreover have "DeriveHTTPURL (RPCURL ethCfg) = ''https://'' @ secret"
    by (simp only: assms(5) DeriveHTTPURL_cases)
  ultimately show ?thesis by (simp add: start_log_def l assms(4) written_def)
qed

section \<open>Examples\<close>

definition demo_host :: "unit host" where
  "demo_host =
     \<lparr>ho_config = Inr (demo_config 0 True []), ho_registry = Inr demo_raw,
      ho_rules = Inr \<lparr>rc_Rules = [], rc_Correlations = []\<rparr>, ho_otel = demo_otel,
      ho_listen = (\<lambda>_. Inr ''[::]:9090''), ho_dial = (\<lambda>_. Inr ()), ho_now = 0\<rparr>"

lemma demo_rules_load: "LoadRules (Inr \<lparr>rc_Rules = [], rc_Correlations = []\<rparr>) = Inr \<lparr>rc_Rules = [], rc_Correlations = []\<rparr>"
  by (simp add: LoadRules_Inr check_sequences_ok)

lemma demo_Init_all: "\<exists>t. Init demo_otel cfg = Inr t"
  by (cases "Enabled cfg") (simp_all add: Init_enabled Init_disabled exporters_ok_def demo_otel_def)

lemma demo_startup_rules:
  assumes "LoadRules (Inr rules) = Inr rules"
  shows "\<exists>pg :: (unit, unit) program. startup demo_eth demo_vaa (\<lambda>_ c. c) (demo_host\<lparr>ho_rules := Inr rules\<rparr>) = Inr pg"
proof -
  let ?cfg = "applyDefaults (demo_config 0 True [])"
  obtain t where t: "Init demo_otel (cf_Telemetry ?cfg) = Inr t" using demo_Init_all by blast
  have "map_of (cf_Chains ?cfg) ''ethereum'' = Some (default_chain \<lparr>RPCURL = ''wss://node'', Mode = [], PollInterval = 0, EventBuffer = 0,
      Backoff = \<lparr>bo_Initial = 0, bo_Max = 0, bo_MaxRetries = 0\<rparr>\<rparr>)"
    by (simp add: applyDefaults_def demo_config_def)
  then show ?thesis
    by (simp add: startup_eq demo_host_def demo_config_loads fatally_def demo_Load assms t ServeHTTP_def
        chan_of_size_def default_chain_def or_default_def)
      (simp add: applyDefaults_def demo_config_def or_default_def)
qed

lemma demo_startup: "\<exists>pg :: (unit, unit) program. startup demo_eth demo_vaa (\<lambda>_ c. c) demo_host = Inr pg"
  using demo_startup_rules [OF demo_rules_load] by (simp add: demo_host_def)

lemma startup_builds_witness:
  "\<exists>pg :: (unit, unit) program. startup demo_eth demo_vaa (\<lambda>_ c. c) demo_host = Inr pg \<and> 0 < ch_cap (pg_raw pg)"
proof -
  obtain pg :: "(unit, unit) program" where pg: "startup demo_eth demo_vaa (\<lambda>_ c. c) demo_host = Inr pg"
    using demo_startup by blast
  show ?thesis using startup_builds [OF pg] pg by blast
qed

lemma other_chains_are_ignored_witness:
  "startup demo_eth demo_vaa (\<lambda>_ c. c) (demo_host\<lparr>ho_config := Inr ((demo_config 0 True [])
      \<lparr>cf_Chains := cf_Chains (demo_config 0 True []) @ [(''solana'', snd (hd (cf_Chains (demo_config 0 True []))))]\<rparr>)\<rparr>) =
   startup demo_eth demo_vaa (\<lambda>_ (c::unit). c) (demo_host\<lparr>ho_config := Inr (demo_config 0 True [])\<rparr>)"
proof -
  let ?raw = "demo_config 0 True []"
  let ?cs = "cf_Chains ?raw @ [(''solana'', snd (hd (cf_Chains ?raw)))]"
  have "Validate (applyDefaults ?raw) = None" by (rule demo_config_valid)
  then have "Validate (applyDefaults (?raw\<lparr>cf_Chains := ?cs\<rparr>)) = None"
    by (simp add: Validate_None applyDefaults_def demo_config_def)
  then have "LoadConfig (Inr (?raw\<lparr>cf_Chains := ?cs\<rparr>)) = Inr (applyDefaults (?raw\<lparr>cf_Chains := ?cs\<rparr>))"
    by (simp add: LoadConfig_def)
  then show ?thesis by (rule other_chains_are_ignored [OF demo_config_loads]) (simp add: demo_config_def)
qed

lemma negative_buffer_panics_witness:
  "startup demo_eth demo_vaa (\<lambda>_ (c::unit). c) (demo_host\<lparr>ho_config := Inr ((demo_config 0 True [])\<lparr>cf_Pipeline :=
      \<lparr>RawEventBuffer = - 1, ChainEventBuffer = 1, EnrichedEventBuffer = 1, SignalBuffer = 1\<rparr>\<rparr>)\<rparr>) = Inl (PanicMakeChan (- 1))"
proof -
  obtain pg :: "(unit, unit) program" where
    "startup demo_eth demo_vaa (\<lambda>_ c. c) (demo_host\<lparr>ho_config := Inr (demo_config 0 True [])\<rparr>) = Inr pg"
    using demo_startup by (auto simp: demo_host_def)
  from negative_buffer_panics [OF this, of "\<lparr>RawEventBuffer = - 1, ChainEventBuffer = 1, EnrichedEventBuffer = 1, SignalBuffer = 1\<rparr>"]
  show ?thesis by simp
qed

lemma node_url_is_logged_witness:
  "start_log demo_host = [Derived_HTTP_URL ''https://node'']"
proof -
  obtain pg :: "(unit, unit) program" where pg: "startup demo_eth demo_vaa (\<lambda>_ c. c) demo_host = Inr pg" using demo_startup by blast
  have cfg: "LoadConfig (ho_config demo_host) = Inr (applyDefaults (demo_config 0 True []))"
    using demo_config_loads by (simp add: demo_host_def)
  have "cf_LogLevel (applyDefaults (demo_config 0 True [])) \<notin> {''warn'', ''error''}"
    by (simp add: applyDefaults_def demo_config_def or_default_def)
  moreover obtain c where "map_of (cf_Chains (applyDefaults (demo_config 0 True []))) ''ethereum'' = Some c" "RPCURL c = ''wss://'' @ ''node''"
    by (simp add: applyDefaults_def demo_config_def default_chain_def Let_def)
  ultimately show ?thesis using node_url_is_logged [OF pg cfg] by fastforce
qed

end
