(* ===== verification/Adapter_Flow.thy ===== *)
theory Adapter_Flow
  imports Normalizer Channels
begin

text \<open>
  The goroutines of \<open>cmd/oracle/main.go\<close> between the adapter and the enricher: the one that runs
  \<open>a.Start\<close> and then forwards \<open>a.Events()\<close> to \<open>rawEvents\<close>, the one that closes \<open>rawEvents\<close>, and the
  normalizer stage, with the three bounded channels they share and the context that a signal cancels.
  Each action is one step of one goroutine; a run is a list of actions in any interleaving.
\<close>

section \<open>State and steps\<close>

text \<open>The adapter's goroutine: inside \<open>Start\<close>, possibly in the \<open>select\<close> of \<open>processLog\<close> with an event;
  receiving from \<open>a.Events()\<close>; sending to \<open>rawEvents\<close>; past the loop. The normalizer's: receiving, in
  its \<open>select\<close>, or returned with \<open>chainEvents\<close> closed.\<close>

datatype 'c feeder = Starting "(RawEvent, 'c) Traced option" | Draining | Forwarding "(RawEvent, 'c) Traced" | Exited

datatype 'c norm = Receiving | Sending "(ChainEvent, 'c) Traced" | Returned

record 'c flow =
  fw_cancelled :: bool
  fw_logs :: "(RawEvent, 'c) Traced list"
  fw_feeder :: "'c feeder"
  fw_events :: "(RawEvent, 'c) Traced chan"
  fw_closed :: bool
  fw_raw :: "(RawEvent, 'c) Traced chan"
  fw_raw_closed :: bool
  fw_norm :: "'c norm"
  fw_chain :: "(ChainEvent, 'c) Traced chan"

text \<open>\<open>fw_logs\<close> are the events that the subscription will still bring: a log that the decoder refuses brings none, and one
  on which it panics ends the process, which is a step of \<open>Oracle_Process\<close>.\<close>

definition flow_start ::
  "(RawEvent, 'c) Traced chan \<Rightarrow> (RawEvent, 'c) Traced chan \<Rightarrow> (ChainEvent, 'c) Traced chan
     \<Rightarrow> (RawEvent, 'c) Traced list \<Rightarrow> 'c flow" where
  "flow_start events raw chain lgs =
     \<lparr>fw_cancelled = False, fw_logs = lgs, fw_feeder = Starting None, fw_events = events, fw_closed = False,
      fw_raw = raw, fw_raw_closed = False, fw_norm = Receiving, fw_chain = chain\<rparr>"

datatype fact =
    Signal_Received
  | Log_Arrives
  | Event_Sent
  | Event_Abandoned
  | Start_Returns
  | Event_Taken
  | Event_Forwarded
  | Feeder_Exits
  | Raw_Closed
  | Normalizer_Takes
  | Normalizer_Sends
  | Normalizer_Aborts
  | Normalizer_Ends
  | Enricher_Takes

fun fstep :: "'c tel \<Rightarrow> fact \<Rightarrow> 'c flow \<Rightarrow> 'c flow option" where
  "fstep tel Signal_Received s = Some (s\<lparr>fw_cancelled := True\<rparr>)"
| "fstep tel Log_Arrives s =
     (case (fw_feeder s, fw_logs s) of
        (Starting None, x # xs) \<Rightarrow> Some (s\<lparr>fw_feeder := Starting (Some x), fw_logs := xs\<rparr>)
      | _ \<Rightarrow> None)"
| "fstep tel Event_Sent s =
     (case fw_feeder s of
        Starting (Some x) \<Rightarrow> (case try_send x (fw_events s) of
            Some c \<Rightarrow> Some (s\<lparr>fw_feeder := Starting None, fw_events := c\<rparr>)
          | None \<Rightarrow> None)
      | _ \<Rightarrow> None)"
| "fstep tel Event_Abandoned s =
     (case fw_feeder s of
        Starting (Some x) \<Rightarrow> if fw_cancelled s then Some (s\<lparr>fw_feeder := Starting None\<rparr>) else None
      | _ \<Rightarrow> None)"
| "fstep tel Start_Returns s =
     (if fw_feeder s = Starting None then Some (s\<lparr>fw_feeder := Draining, fw_closed := True\<rparr>) else None)"
| "fstep tel Event_Taken s =
     (if fw_feeder s = Draining then (case try_recv (fw_events s) of
          Some (x, c) \<Rightarrow> Some (s\<lparr>fw_feeder := Forwarding x, fw_events := c\<rparr>)
        | None \<Rightarrow> None)
      else None)"
| "fstep tel Event_Forwarded s =
     (case fw_feeder s of
        Forwarding x \<Rightarrow> (case try_send x (fw_raw s) of
            Some c \<Rightarrow> Some (s\<lparr>fw_feeder := Draining, fw_raw := c\<rparr>)
          | None \<Rightarrow> None)
      | _ \<Rightarrow> None)"
| "fstep tel Feeder_Exits s =
     (if fw_feeder s = Draining \<and> fw_closed s \<and> try_recv (fw_events s) = None
      then Some (s\<lparr>fw_feeder := Exited\<rparr>) else None)"
| "fstep tel Raw_Closed s =
     (if fw_feeder s = Exited \<and> \<not> fw_raw_closed s then Some (s\<lparr>fw_raw_closed := True\<rparr>) else None)"
| "fstep tel Normalizer_Takes s =
     (if fw_norm s = Receiving then (case try_recv (fw_raw s) of
          Some (x, c) \<Rightarrow> Some (s\<lparr>fw_raw := c, fw_norm :=
            (if fw_cancelled s then Returned
             else (case processNormalize tel x of Inl err \<Rightarrow> Receiving | Inr y \<Rightarrow> Sending y))\<rparr>)
        | None \<Rightarrow> None)
      else None)"
| "fstep tel Normalizer_Sends s =
     (case fw_norm s of
        Sending y \<Rightarrow> (case try_send y (fw_chain s) of
            Some c \<Rightarrow> Some (s\<lparr>fw_norm := Receiving, fw_chain := c\<rparr>)
          | None \<Rightarrow> None)
      | _ \<Rightarrow> None)"
| "fstep tel Normalizer_Aborts s =
     (case fw_norm s of
        Sending y \<Rightarrow> if fw_cancelled s then Some (s\<lparr>fw_norm := Returned\<rparr>) else None
      | _ \<Rightarrow> None)"
| "fstep tel Normalizer_Ends s =
     (if fw_norm s = Receiving \<and> fw_raw_closed s \<and> try_recv (fw_raw s) = None
      then Some (s\<lparr>fw_norm := Returned\<rparr>) else None)"
| "fstep tel Enricher_Takes s =
     (case try_recv (fw_chain s) of Some (y, c) \<Rightarrow> Some (s\<lparr>fw_chain := c\<rparr>) | None \<Rightarrow> None)"

fun frun :: "'c tel \<Rightarrow> fact list \<Rightarrow> 'c flow \<Rightarrow> 'c flow option" where
  "frun tel [] s = Some s"
| "frun tel (a # as) s = (case fstep tel a s of None \<Rightarrow> None | Some t \<Rightarrow> frun tel as t)"

lemma frun_append: "frun tel (as @ bs) s = (case frun tel as s of None \<Rightarrow> None | Some t \<Rightarrow> frun tel bs t)"
  by (induction "as" arbitrary: s) (auto split: option.split)

text \<open>The invariants below are about runs from the start, one action at a time.\<close>

lemma frun_invariant:
  assumes "frun tel as s = Some t" "P s" "\<And>a u v. P u \<Longrightarrow> fstep tel a u = Some v \<Longrightarrow> P v"
  shows "P t"
  using assms(1,2)
proof (induction "as" arbitrary: s)
  case (Cons a "as")
  then show ?case using assms(3) [of s a] by (auto split: option.splits)
qed simp

text \<open>Sends and receives, by what they do to the buffer.\<close>

lemma try_recv_None [simp]: "try_recv c = None \<longleftrightarrow> ch_buf c = []"
  by (simp add: channel.recv_blocked)

lemma try_recv_Some [simp]: "try_recv c = Some (x, c') \<longleftrightarrow> ch_buf c = x # ch_buf c' \<and> ch_cap c' = ch_cap c"
  by (cases c; cases c') (auto simp: try_recv_def split: list.splits)

lemma try_send_None [simp]: "try_send x c = None \<longleftrightarrow> ch_cap c \<le> length (ch_buf c)"
  by (simp add: channel.send_blocked)

lemma try_send_Some [simp]:
  "try_send x c = Some c' \<longleftrightarrow> length (ch_buf c) < ch_cap c \<and> c' = c\<lparr>ch_buf := ch_buf c @ [x]\<rparr>"
  by (auto simp: try_send_def)

text \<open>What has returned stays so, and only the signal cancels.\<close>

lemma fstep_done:
  assumes "fstep tel a s = Some t"
  shows "fw_feeder s = Exited \<Longrightarrow> fw_feeder t = Exited" "fw_norm s = norm.Returned \<Longrightarrow> fw_norm t = norm.Returned"
    and "a \<noteq> Signal_Received \<Longrightarrow> fw_cancelled t = fw_cancelled s"
  using assms by (cases a; auto split: feeder.splits option.splits list.splits norm.splits if_splits prod.splits)+

lemma frun_calm: "frun tel fs f = Some g \<Longrightarrow> Signal_Received \<notin> set fs \<Longrightarrow> fw_cancelled g = fw_cancelled f"
proof (induction fs arbitrary: f)
  case (Cons a fs)
  then obtain u where u: "fstep tel a f = Some u" "frun tel fs u = Some g" by (auto split: option.splits)
  then show ?case using Cons.IH [OF u(2)] Cons.prems(2) fstep_done(3) [OF u(1)] by auto
qed simp

section \<open>While \<open>Start\<close> runs\<close>

fun waiting :: "'c feeder \<Rightarrow> (RawEvent, 'c) Traced list" where
  "waiting (Starting (Some x)) = [x]"
| "waiting (Forwarding x) = [x]"
| "waiting f = []"

fun is_starting :: "'c feeder \<Rightarrow> bool" where
  "is_starting (Starting p) = True"
| "is_starting f = False"

definition start_inv :: "(RawEvent, 'c) Traced list \<Rightarrow> nat \<Rightarrow> 'c flow \<Rightarrow> bool" where
  "start_inv lgs n s \<longleftrightarrow>
     (is_starting (fw_feeder s) \<longrightarrow>
        ch_buf (fw_raw s) = [] \<and> \<not> fw_raw_closed s \<and> \<not> fw_closed s \<and> fw_norm s = Receiving \<and>
        ch_buf (fw_chain s) = [] \<and>
        (\<not> fw_cancelled s \<longrightarrow> lgs = ch_buf (fw_events s) @ waiting (fw_feeder s) @ fw_logs s)) \<and>
     length (ch_buf (fw_events s)) \<le> n \<and> ch_cap (fw_events s) = n"

lemma start_inv_step:
  assumes "start_inv lgs n s" "fstep tel a s = Some t"
  shows "start_inv lgs n t"
  using assms
  by (cases a; simp add: start_inv_def split: feeder.splits option.splits list.splits norm.splits if_splits prod.splits)
     (force+)?

lemma frun_start_inv:
  "frun tel as (flow_start \<lparr>ch_buf = [], ch_cap = n\<rparr> raw chain lgs) = Some s \<Longrightarrow>
   ch_buf raw = [] \<Longrightarrow> ch_buf chain = [] \<Longrightarrow> start_inv lgs n s"
  by (erule frun_invariant) (simp_all add: start_inv_step, simp add: start_inv_def flow_start_def)

text \<open>C7. \<open>Start\<close> returns only when the adapter gives up, and only then does its goroutine receive from
  \<open>a.Events()\<close>. So in every run, as long as \<open>Start\<close> has not returned, \<open>rawEvents\<close> is
  empty and nothing is behind it, and while the context is not cancelled the events taken from the
  subscription are exactly the ones in \<open>a.events\<close> and in the hands of \<open>processLog\<close>: at most
  \<open>event_buffer + 1\<close> of them, whatever else arrives.\<close>

theorem nothing_flows_while_Start_runs:
  assumes "frun tel acts (flow_start (make_chan n) (make_chan m) (make_chan k) lgs) = Some s"
    and "fw_feeder s = Starting p"
  shows "ch_buf (fw_raw s) = [] \<and> fw_norm s = Receiving \<and> ch_buf (fw_chain s) = [] \<and>
    (\<not> fw_cancelled s \<longrightarrow>
       (\<exists>taken. lgs = taken @ fw_logs s \<and> taken = ch_buf (fw_events s) @ (case p of None \<Rightarrow> [] | Some x \<Rightarrow> [x]) \<and>
          length taken \<le> nat n + 1))"
proof -
  have "start_inv lgs (nat n) s"
    by (rule frun_start_inv [OF assms(1) [unfolded make_chan_def [of n]]]) (simp_all add: make_chan_def)
  then show ?thesis using assms(2) by (cases p) (auto simp: start_inv_def)
qed

text \<open>Filling the channel: \<open>Log_Arrives\<close> and \<open>Event_Sent\<close> in turn.\<close>

fun fill :: "nat \<Rightarrow> fact list" where
  "fill 0 = []"
| "fill (Suc i) = Log_Arrives # Event_Sent # fill i"

lemma fill_run:
  assumes "fw_feeder s = Starting None" "fw_logs s = xs @ ys" "length (ch_buf (fw_events s)) + length xs \<le> ch_cap (fw_events s)"
  shows "frun tel (fill (length xs)) s =
    Some (s\<lparr>fw_logs := ys, fw_events := (fw_events s)\<lparr>ch_buf := ch_buf (fw_events s) @ xs\<rparr>\<rparr>)"
  using assms
proof (induction xs arbitrary: s)
  case (Cons x xs)
  let ?s = "s\<lparr>fw_logs := xs @ ys, fw_events := (fw_events s)\<lparr>ch_buf := ch_buf (fw_events s) @ [x]\<rparr>\<rparr>"
  have "frun tel (fill (length (x # xs))) s = frun tel (fill (length xs)) ?s"
    using Cons.prems by (cases s) (simp add: try_send_def)
  then show ?case using Cons.IH [of ?s] Cons.prems by simp
qed simp

lemma fill_calm: "Signal_Received \<notin> set (fill i)" "Start_Returns \<notin> set (fill i)" "Enricher_Takes \<notin> set (fill i)"
  by (induction i) simp_all

text \<open>The program stops by itself: with more events coming than the buffer of the adapter has room
  for, it reaches (without any signal, and without \<open>Start\<close> returning) a state in which no goroutine
  can take any step, and in which the only thing that can still happen is the signal that ends the
  program. The normalizer has received nothing.\<close>

theorem adapter_blocks_forever:
  assumes "nat n < length lgs"
  shows "\<exists>acts s. frun tel acts (flow_start (make_chan n) (make_chan m) (make_chan k) lgs) = Some s \<and>
    Signal_Received \<notin> set acts \<and> Start_Returns \<notin> set acts \<and> Enricher_Takes \<notin> set acts \<and>
    ch_buf (fw_events s) = take (nat n) lgs \<and> fw_feeder s = Starting (Some (lgs ! nat n)) \<and>
    ch_buf (fw_raw s) = [] \<and> (\<forall>act. fstep tel act s \<noteq> None \<longrightarrow> act = Signal_Received)"
proof -
  let ?s0 = "flow_start (make_chan n) (make_chan m) (make_chan k) lgs :: 'a flow"
  let ?s1 = "?s0\<lparr>fw_logs := lgs ! nat n # drop (Suc (nat n)) lgs, fw_events := \<lparr>ch_buf = take (nat n) lgs, ch_cap = nat n\<rparr>\<rparr>"
  let ?s2 = "?s1\<lparr>fw_logs := drop (Suc (nat n)) lgs, fw_feeder := Starting (Some (lgs ! nat n))\<rparr>"
  have l: "lgs = take (nat n) lgs @ lgs ! nat n # drop (Suc (nat n)) lgs"
    using assms by (rule id_take_nth_drop)
  have len: "length (take (nat n) lgs) = nat n" using assms by simp
  have "frun tel (fill (nat n)) ?s0 = Some ?s1"
    using fill_run [of ?s0 "take (nat n) lgs" "lgs ! nat n # drop (Suc (nat n)) lgs" tel, unfolded len] l
    by (simp add: flow_start_def make_chan_def)
  then have "frun tel (fill (nat n) @ [Log_Arrives]) ?s0 = Some ?s2"
    by (simp add: frun_append flow_start_def)
  moreover have "fstep tel act ?s2 \<noteq> None \<longrightarrow> act = Signal_Received" for act
    using assms by (cases act) (simp_all add: flow_start_def make_chan_def try_send_def try_recv_def)
  ultimately show ?thesis
    using fill_calm
    by (intro exI [of _ "fill (nat n) @ [Log_Arrives]"] exI [of _ ?s2] conjI allI)
      (simp_all add: flow_start_def make_chan_def)
qed

section \<open>Shutting down\<close>

text \<open>How many events the forwarding and the normalizer still have between them.\<close>

definition in_flow :: "'c flow \<Rightarrow> nat" where
  "in_flow s = length (ch_buf (fw_events s)) + length (waiting (fw_feeder s)) + length (ch_buf (fw_raw s))"

definition flow_inv :: "nat \<Rightarrow> nat \<Rightarrow> 'c flow \<Rightarrow> bool" where
  "flow_inv n m s \<longleftrightarrow>
     ch_cap (fw_events s) = n \<and> ch_cap (fw_raw s) = m \<and> length (ch_buf (fw_events s)) \<le> n \<and>
     (is_starting (fw_feeder s) \<longrightarrow> fw_norm s = Receiving \<and> ch_buf (fw_raw s) = []) \<and>
     (\<not> is_starting (fw_feeder s) \<longrightarrow> fw_closed s \<and> in_flow s \<le> n) \<and>
     (fw_raw_closed s \<longrightarrow> fw_feeder s = Exited) \<and>
     (fw_norm s \<noteq> Receiving \<longrightarrow> in_flow s + 1 \<le> n \<or> fw_raw_closed s \<and> ch_buf (fw_raw s) = [])"

lemma flow_inv_step:
  assumes "flow_inv n m s" "fstep tel a s = Some t"
  shows "flow_inv n m t"
  using assms
  by (cases a; simp add: flow_inv_def in_flow_def split: feeder.splits option.splits list.splits norm.splits if_splits prod.splits sum.splits)
     (force+)?

lemma frun_flow_inv:
  "frun tel as (flow_start (make_chan n) (make_chan m) (make_chan k) lgs) = Some s \<Longrightarrow> flow_inv (nat n) (nat m) s"
  by (erule frun_invariant) (simp_all add: flow_inv_step, simp add: flow_inv_def flow_start_def make_chan_def)

text \<open>The work that is left: every action but the signal uses some of it up.\<close>

fun feeder_work :: "'c feeder \<Rightarrow> nat" where
  "feeder_work (Starting None) = 4"
| "feeder_work (Starting (Some x)) = 11"
| "feeder_work Draining = 3"
| "feeder_work (Forwarding x) = 8"
| "feeder_work Exited = 2"

fun norm_work :: "'c norm \<Rightarrow> nat" where
  "norm_work Receiving = 1"
| "norm_work (Sending y) = 4"
| "norm_work Returned = 0"

definition flow_work :: "'c flow \<Rightarrow> nat" where
  "flow_work s =
     8 * length (fw_logs s) + feeder_work (fw_feeder s) + 6 * length (ch_buf (fw_events s)) +
     4 * length (ch_buf (fw_raw s)) + (if fw_raw_closed s then 0 else 1) + norm_work (fw_norm s) +
     length (ch_buf (fw_chain s))"

lemma flow_work_step:
  assumes "fstep tel a s = Some t" "a \<noteq> Signal_Received"
  shows "flow_work t < flow_work s"
  using assms
  by (cases a; simp add: flow_work_def split: feeder.splits option.splits list.splits norm.splits if_splits prod.splits sum.splits)
     (force+)?

lemma flow_work_run:
  "frun tel as s = Some t \<Longrightarrow> Signal_Received \<notin> set as \<Longrightarrow> length as + flow_work t \<le> flow_work s"
proof (induction "as" arbitrary: s)
  case (Cons a "as")
  then obtain u where u: "fstep tel a s = Some u" "frun tel as u = Some t" by (auto split: option.splits)
  moreover have "a \<noteq> Signal_Received" using Cons.prems(2) by auto
  ultimately show ?case using Cons.IH [of u] Cons.prems(2) flow_work_step [of tel a s u] by simp
qed simp

lemma cancelled_stays: "fstep tel a s = Some t \<Longrightarrow> fw_cancelled s \<Longrightarrow> fw_cancelled t"
  by (cases a; auto split: feeder.splits option.splits list.splits norm.splits if_splits prod.splits)

text \<open>The actions of the goroutines themselves; what arrives and what the enricher does is up to others.\<close>

definition own_acts :: "fact set" where
  "own_acts = UNIV - {Signal_Received, Log_Arrives, Enricher_Takes}"

lemma own_actsI: "a \<noteq> Signal_Received \<Longrightarrow> a \<noteq> Log_Arrives \<Longrightarrow> a \<noteq> Enricher_Takes \<Longrightarrow> a \<in> own_acts"
  by (simp add: own_acts_def)

lemma cancelled_progress:
  assumes "flow_inv n m s" "n \<le> m + 1" "0 < m" "fw_cancelled s" "\<forall>a\<in>own_acts. fstep tel a s = None"
  shows "fw_feeder s = Exited \<and> fw_norm s = Returned"
proof -
  have no: "fstep tel a s = None" if "a \<noteq> Signal_Received" "a \<noteq> Log_Arrives" "a \<noteq> Enricher_Takes" for a
    using assms(5) own_actsI [OF that] by blast
  have n: "fw_norm s = Receiving \<or> fw_norm s = Returned"
    using no [of Normalizer_Aborts] assms(4) by (cases "fw_norm s") simp_all
  have take: "ch_buf (fw_raw s) = []" if "fw_norm s = Receiving"
    using no [of Normalizer_Takes] that assms(4) by (cases "ch_buf (fw_raw s)") (simp_all add: try_recv_def)
  have full: "m \<le> length (ch_buf (fw_raw s))" if "fw_feeder s = Forwarding x" for x
    using no [of Event_Forwarded] that assms(1) by (simp add: flow_inv_def try_send_def split: if_splits)
  have f: "fw_feeder s = Exited"
  proof (cases "fw_feeder s")
    case (Starting p)
    then show ?thesis using no [of Start_Returns] no [of Event_Abandoned] assms(4) by (cases p) simp_all
  next
    case Draining
    then show ?thesis using no [of Event_Taken] no [of Feeder_Exits] assms(1)
      by (cases "ch_buf (fw_events s)") (simp_all add: flow_inv_def try_recv_def)
  next
    case (Forwarding x)
    then show ?thesis
      using full [OF Forwarding] take n assms(1,2,3) by (auto simp: flow_inv_def in_flow_def)
  qed
  then have "fw_raw_closed s" using no [of Raw_Closed] by (simp split: if_splits)
  then have "fw_norm s \<noteq> Receiving" using no [of Normalizer_Ends] take by (auto simp: try_recv_def)
  then show ?thesis using f n by simp
qed

text \<open>Shutting down ends when \<open>event_buffer\<close> is at most one above \<open>raw_event_buffer\<close>: after the signal
  every run of these goroutines is finite, and where none of them can take a step both have
  returned, whatever the enricher does. So \<open>wg.Wait\<close> in \<open>main\<close> does not wait for them forever.\<close>

theorem shutdown_completes:
  assumes "nat n \<le> nat m + 1" "0 < m"
    and "frun tel acts (flow_start (make_chan n) (make_chan m) (make_chan k) lgs) = Some s" "fw_cancelled s"
  shows "\<exists>bound. \<forall>more t. frun tel more s = Some t \<longrightarrow> Signal_Received \<notin> set more \<longrightarrow>
    length more \<le> bound \<and>
    ((\<forall>a\<in>own_acts. fstep tel a t = None) \<longrightarrow> fw_feeder t = Exited \<and> fw_norm t = Returned)"
proof (rule exI [of _ "flow_work s"], intro allI impI)
  fix more t
  assume t: "frun tel more s = Some t" and calm: "Signal_Received \<notin> set more"
  have "frun tel (acts @ more) (flow_start (make_chan n) (make_chan m) (make_chan k) lgs) = Some t"
    using assms(3) t by (simp add: frun_append)
  then have inv: "flow_inv (nat n) (nat m) t" by (rule frun_flow_inv)
  have "fw_cancelled t"
    using t assms(4) by (rule frun_invariant) (rule cancelled_stays)
  then have "(\<forall>a\<in>own_acts. fstep tel a t = None) \<longrightarrow> fw_feeder t = Exited \<and> fw_norm t = Returned"
    using cancelled_progress [OF inv assms(1)] assms(2) by simp
  then show "length more \<le> flow_work s \<and>
      ((\<forall>a\<in>own_acts. fstep tel a t = None) \<longrightarrow> fw_feeder t = Exited \<and> fw_norm t = Returned)"
    using flow_work_run [OF t calm] by simp
qed

text \<open>Forwarding: \<open>Event_Taken\<close> and \<open>Event_Forwarded\<close> in turn.\<close>

fun drain :: "nat \<Rightarrow> fact list" where
  "drain 0 = []"
| "drain (Suc i) = Event_Taken # Event_Forwarded # drain i"

lemma drain_calm: "Enricher_Takes \<notin> set (drain i)"
  by (induction i) simp_all

lemma drain_run:
  assumes "fw_feeder s = Draining" "ch_buf (fw_events s) = xs @ ys" "length (ch_buf (fw_raw s)) + length xs \<le> ch_cap (fw_raw s)"
  shows "frun tel (drain (length xs)) s =
    Some (s\<lparr>fw_events := (fw_events s)\<lparr>ch_buf := ys\<rparr>, fw_raw := (fw_raw s)\<lparr>ch_buf := ch_buf (fw_raw s) @ xs\<rparr>\<rparr>)"
  using assms
proof (induction xs arbitrary: s)
  case Nil
  then show ?case by (cases s) simp
next
  case (Cons x xs)
  let ?s = "s\<lparr>fw_events := (fw_events s)\<lparr>ch_buf := xs @ ys\<rparr>, fw_raw := (fw_raw s)\<lparr>ch_buf := ch_buf (fw_raw s) @ [x]\<rparr>\<rparr>"
  have "frun tel (drain (length (x # xs))) s = frun tel (drain (length xs)) ?s"
    using Cons.prems by (cases s) (simp add: try_send_def try_recv_def)
  then show ?case using Cons.IH [of ?s] Cons.prems by simp
qed

text \<open>With an \<open>event_buffer\<close> of two more than \<open>raw_event_buffer\<close> shutting down can hang: the normalizer
  returns at the first event it receives after the signal, nobody takes from \<open>rawEvents\<close> any more,
  and the adapter's goroutine, whose send to \<open>rawEvents\<close> does not look at the context, stays in it for
  ever. In the state reached no action changes anything, so \<open>wg.Wait\<close> never returns.\<close>

theorem shutdown_can_hang:
  assumes "0 < m" "nat m + 2 \<le> nat n" "nat m + 2 \<le> length lgs"
  shows "\<exists>acts s x. frun tel acts (flow_start (make_chan n) (make_chan m) (make_chan k) lgs) = Some s \<and>
    Enricher_Takes \<notin> set acts \<and> fw_cancelled s \<and> fw_feeder s = Forwarding x \<and> fw_norm s = Returned \<and>
    (\<forall>act t. fstep tel act s = Some t \<longrightarrow> t = s)"
proof -
  let ?s0 = "flow_start (make_chan n) (make_chan m) (make_chan k) lgs :: 'a flow"
  define rest where "rest = drop (nat m + 2) lgs"
  obtain x xs y where l: "lgs = (x # xs @ [y]) @ rest" and len: "length xs = nat m"
  proof -
    have "length (take (nat m + 2) lgs) = Suc (Suc (nat m))" using assms(3) by simp
    then obtain x zs where z: "take (nat m + 2) lgs = x # zs" "length zs = Suc (nat m)"
      by (metis length_Suc_conv)
    then obtain xs y where "zs = xs @ [y]" "length xs = nat m" by (metis length_Suc_conv_rev)
    then show thesis using that [of x xs y] z(1) append_take_drop_id [of "nat m + 2" lgs] by (simp add: rest_def)
  qed
  let ?s1 = "?s0\<lparr>fw_logs := rest, fw_events := \<lparr>ch_buf = x # xs @ [y], ch_cap = nat n\<rparr>\<rparr>"
  let ?s2 = "?s1\<lparr>fw_cancelled := True, fw_feeder := Draining, fw_closed := True,
    fw_events := \<lparr>ch_buf = xs @ [y], ch_cap = nat n\<rparr>, fw_norm := Returned\<rparr>"
  let ?s3 = "?s2\<lparr>fw_events := \<lparr>ch_buf = [y], ch_cap = nat n\<rparr>, fw_raw := \<lparr>ch_buf = xs, ch_cap = nat m\<rparr>\<rparr>"
  let ?s4 = "?s3\<lparr>fw_feeder := Forwarding y, fw_events := \<lparr>ch_buf = [], ch_cap = nat n\<rparr>\<rparr>"
  let ?mid = "[Signal_Received, Start_Returns, Event_Taken, Event_Forwarded, Normalizer_Takes]"
  have "frun tel (fill (length (x # xs @ [y]))) ?s0 = Some ?s1"
    using fill_run [of ?s0 "x # xs @ [y]" rest tel] l len assms by (simp add: flow_start_def make_chan_def)
  moreover have "frun tel ?mid ?s1 = Some ?s2"
    using assms(1) by (simp add: flow_start_def make_chan_def try_send_def try_recv_def)
  moreover have "frun tel (drain (length xs)) ?s2 = Some ?s3"
    using drain_run [of ?s2 xs "[y]" tel] len by (simp add: flow_start_def make_chan_def)
  moreover have "frun tel [Event_Taken] ?s3 = Some ?s4"
    by (simp add: flow_start_def try_recv_def)
  ultimately have run: "frun tel (fill (length (x # xs @ [y])) @ ?mid @ drain (length xs) @ [Event_Taken]) ?s0 = Some ?s4"
    by (simp only: frun_append option.case)
  have "fstep tel act ?s4 = Some t \<longrightarrow> t = ?s4" for act t
    using len by (cases act) (simp_all add: flow_start_def make_chan_def try_send_def try_recv_def)
  then show ?thesis
    using run by (intro exI [of _ "fill (length (x # xs @ [y])) @ ?mid @ drain (length xs) @ [Event_Taken]"]
        exI [of _ ?s4] exI [of _ y] conjI) (simp_all add: flow_start_def fill_calm drain_calm)
qed

section \<open>Examples\<close>

definition demo_toggles :: "unit tel" where
  "demo_toggles = \<lparr>tl_Adapter = False, tl_Normalizer = False, tl_Enricher = False, tl_Engine = False,
     tl_Emitter = False, tl_Start = (\<lambda>_ c. c)\<rparr>"

definition demo_incoming :: "uint64 \<Rightarrow> (RawEvent, unit) Traced" where
  "demo_incoming block = NewTraced () \<lparr>re_Chain = ChainEthereum, re_Block = block, re_TxHash = ''0x1'',
     re_Timestamp = 1700000000, re_EventType = EventTokenApproval, re_Data = Map.empty\<rparr> 0"

lemma nothing_flows_while_Start_runs_witness:
  "\<exists>s. frun demo_toggles [Log_Arrives] (flow_start (make_chan 1) (make_chan 1) (make_chan 1) [demo_incoming 1, demo_incoming 2]) = Some s \<and>
     fw_feeder s = Starting (Some (demo_incoming 1)) \<and> ch_buf (fw_raw s) = []"
proof -
  let ?s = "(flow_start (make_chan 1) (make_chan 1) (make_chan 1) [demo_incoming 1, demo_incoming 2])
    \<lparr>fw_feeder := Starting (Some (demo_incoming 1)), fw_logs := [demo_incoming 2]\<rparr>"
  have r: "frun demo_toggles [Log_Arrives] (flow_start (make_chan 1) (make_chan 1) (make_chan 1) [demo_incoming 1, demo_incoming 2]) = Some ?s"
    by (simp add: flow_start_def)
  have f: "fw_feeder ?s = Starting (Some (demo_incoming 1))" by simp
  show ?thesis using nothing_flows_while_Start_runs [OF r f] r f by blast
qed

lemma adapter_blocks_forever_witness:
  "\<exists>acts s. frun demo_toggles acts (flow_start (make_chan 1) (make_chan 1) (make_chan 1) [demo_incoming 1, demo_incoming 2]) = Some s \<and>
     Signal_Received \<notin> set acts \<and> (\<forall>act. fstep demo_toggles act s \<noteq> None \<longrightarrow> act = Signal_Received)"
  using adapter_blocks_forever [of 1 "[demo_incoming 1, demo_incoming 2]" demo_toggles 1 1] by auto

lemma shutdown_completes_witness:
  "\<exists>s. frun demo_toggles [Signal_Received] (flow_start (make_chan 256) (make_chan 512) (make_chan 256) [demo_incoming 1]) = Some s \<and>
     (\<exists>bound. \<forall>more t. frun demo_toggles more s = Some t \<longrightarrow> Signal_Received \<notin> set more \<longrightarrow> length more \<le> bound)"
proof -
  let ?s = "(flow_start (make_chan 256) (make_chan 512) (make_chan 256) [demo_incoming 1])\<lparr>fw_cancelled := True\<rparr>"
  have r: "frun demo_toggles [Signal_Received] (flow_start (make_chan 256) (make_chan 512) (make_chan 256) [demo_incoming 1]) = Some ?s"
    by simp
  have c: "nat 256 \<le> nat 512 + 1" "(0::int) < 512" "fw_cancelled ?s" by simp_all
  show ?thesis using shutdown_completes [OF c(1,2) r c(3)] r by blast
qed

lemma shutdown_can_hang_witness:
  "\<exists>acts s. frun demo_toggles acts (flow_start (make_chan 3) (make_chan 1) (make_chan 1) [demo_incoming 1, demo_incoming 2, demo_incoming 3]) = Some s \<and>
     fw_cancelled s \<and> fw_feeder s \<noteq> Exited \<and> (\<forall>act t. fstep demo_toggles act s = Some t \<longrightarrow> t = s)"
proof -
  have "(0::int) < 1" "nat 1 + 2 \<le> nat 3" "nat 1 + 2 \<le> length [demo_incoming 1, demo_incoming 2, demo_incoming 3]" by simp_all
  from shutdown_can_hang [OF this, of demo_toggles 1] show ?thesis by fastforce
qed

end
