(* ===== verification/System_Run.thy ===== *)
theory System_Run
  imports Oracle_Main Adapter_Flow
begin

text \<open>
  The whole pipeline with its bounded channels, in any interleaving of its goroutines: the adapter's side up to
  \<open>chainEvents\<close> (\<open>Adapter_Flow\<close>), the enricher's workers, the engine's loop with its two rounds of sends, the emitter's
  loop and the subscribers. Each action is one step of one goroutine. The theories of the stages treat each of them
  alone, over the list of what it receives; here every receive and send is on the channel that two stages share. The
  pruner is left out; \<open>Correlator_Runs\<close> has it: it changes no signal unless an event is processed at the very instant of an earlier
  prune.
\<close>

section \<open>State and steps\<close>

text \<open>The engine's loop: receiving; sending the signals of the rules of one event; sending those of the correlator; returned.\<close>

datatype 'c eng_pc =
    EReceiving
  | ERules round_env "(EnrichedEvent, 'c) Traced" "(Signal, 'c) Traced list"
  | ECorr "(Signal, 'c) Traced list"
  | EReturned

text \<open>\<open>sy_rounds\<close> and \<open>sy_emitted\<close> record the events the engine has taken and the signals the emitter has emitted. A
  stage's output channel is closed exactly when the stage has returned.\<close>

record 'c system =
  sy_flow :: "'c flow"
  sy_workers :: "'c wstate list"
  sy_enriched :: "(EnrichedEvent, 'c) Traced chan"
  sy_engine :: "'c Engine"
  sy_pc :: "'c eng_pc"
  sy_rounds :: "(round_env \<times> (EnrichedEvent, 'c) Traced) list"
  sy_signals :: "(Signal, 'c) Traced chan"
  sy_emitting :: bool
  sy_emitted :: "(Signal, 'c) Traced list"
  sy_service :: service

definition system_start ::
  "'c flow \<Rightarrow> 'c Enricher \<Rightarrow> (EnrichedEvent, 'c) Traced chan \<Rightarrow> 'c Engine \<Rightarrow> (Signal, 'c) Traced chan \<Rightarrow> int \<Rightarrow> 'c system" where
  "system_start f e enriched eng signals n =
     \<lparr>sy_flow = f, sy_workers = replicate (nat (en_workers e)) Idle, sy_enriched = enriched, sy_engine = eng,
      sy_pc = EReceiving, sy_rounds = [], sy_signals = signals, sy_emitting = True, sy_emitted = [],
      sy_service = Emitter.start n\<rparr>"

datatype 'e sact =
    On_Flow fact
  | Worker_Takes nat
  | Worker_Enriches nat "'e + float64"
  | Worker_Sends nat
  | Worker_Quits nat
  | Engine_Takes round_env
  | Engine_Sends
  | Engine_Correlates
  | Engine_Next
  | Engine_Aborts
  | Engine_Ends
  | Emitter_Takes
  | Emitter_Ends
  | On_Service act

abbreviation cancelled :: "'c system \<Rightarrow> bool" where
  "cancelled s \<equiv> fw_cancelled (sy_flow s)"

definition the_worker :: "'c system \<Rightarrow> nat \<Rightarrow> 'c wstate" where
  "the_worker s i = (if i < length (sy_workers s) then sy_workers s ! i else wstate.Returned)"

definition with_worker :: "nat \<Rightarrow> 'c wstate \<Rightarrow> 'c system \<Rightarrow> 'c system" where
  "with_worker i w s = s\<lparr>sy_workers := (sy_workers s)[i := w]\<rparr>"

text \<open>A worker of the enricher (\<open>Run\<close> of \<open>enricher.go\<close>), the engine's loop (\<open>Run\<close> of \<open>engine.go\<close>) and the emitter's
  (\<open>Run\<close> of \<open>grpc.go\<close>).\<close>

fun worker_step :: "'c Enricher \<Rightarrow> 'e sact \<Rightarrow> 'c system \<Rightarrow> 'c system option" where
  "worker_step e (Worker_Takes i) s =
     (case (the_worker s i, try_recv (fw_chain (sy_flow s))) of
        (Idle, Some (x, c)) \<Rightarrow>
          Some (with_worker i (if cancelled s then wstate.Returned else Got x) (s\<lparr>sy_flow := (sy_flow s)\<lparr>fw_chain := c\<rparr>\<rparr>))
      | _ \<Rightarrow> None)"
| "worker_step e (Worker_Enriches i r) s =
     (case the_worker s i of
        Got x \<Rightarrow> Some (with_worker i (Ready (processEvent (en_tel e) (en_reg e) x r)) s)
      | _ \<Rightarrow> None)"
| "worker_step e (Worker_Sends i) s =
     (case the_worker s i of
        Ready y \<Rightarrow> (case try_send y (sy_enriched s) of
            Some c \<Rightarrow> Some (with_worker i Idle (s\<lparr>sy_enriched := c\<rparr>))
          | None \<Rightarrow> None)
      | _ \<Rightarrow> None)"
| "worker_step e (Worker_Quits i) s =
     (case the_worker s i of
        Idle \<Rightarrow> if fw_norm (sy_flow s) = norm.Returned \<and> try_recv (fw_chain (sy_flow s)) = None
                then Some (with_worker i wstate.Returned s) else None
      | Ready y \<Rightarrow> if cancelled s then Some (with_worker i wstate.Returned s) else None
      | _ \<Rightarrow> None)"
| "worker_step e _ s = None"

fun engine_step :: "'e sact \<Rightarrow> 'c system \<Rightarrow> 'c system option" where
  "engine_step (Engine_Takes ro) s =
     (case (sy_pc s, try_recv (sy_enriched s)) of
        (EReceiving, Some (y, c)) \<Rightarrow>
          Some (if cancelled s then s\<lparr>sy_enriched := c, sy_pc := EReturned\<rparr>
                else s\<lparr>sy_enriched := c, sy_pc := ERules ro y (evaluateWithSpan (sy_engine s) ro y),
                       sy_rounds := sy_rounds s @ [(ro, y)]\<rparr>)
      | _ \<Rightarrow> None)"
| "engine_step Engine_Sends s =
     (case sy_pc s of
        ERules ro y (x # xs) \<Rightarrow> (case try_send x (sy_signals s) of
            Some c \<Rightarrow> Some (s\<lparr>sy_signals := c, sy_pc := ERules ro y xs\<rparr>) | None \<Rightarrow> None)
      | ECorr (x # xs) \<Rightarrow> (case try_send x (sy_signals s) of
            Some c \<Rightarrow> Some (s\<lparr>sy_signals := c, sy_pc := ECorr xs\<rparr>) | None \<Rightarrow> None)
      | _ \<Rightarrow> None)"
| "engine_step Engine_Correlates s =
     (case sy_pc s of
        ERules ro y [] \<Rightarrow> (case correlateWithSpan (sy_engine s) ro (tr_Ctx y) (tr_Value y) of
            (e', sigs) \<Rightarrow> Some (s\<lparr>sy_engine := e', sy_pc := ECorr sigs\<rparr>))
      | _ \<Rightarrow> None)"
| "engine_step Engine_Next s = (case sy_pc s of ECorr [] \<Rightarrow> Some (s\<lparr>sy_pc := EReceiving\<rparr>) | _ \<Rightarrow> None)"
| "engine_step Engine_Aborts s =
     (if \<not> cancelled s then None
      else (case sy_pc s of
          ERules ro y (x # xs) \<Rightarrow> Some (s\<lparr>sy_pc := EReturned\<rparr>)
        | ECorr (x # xs) \<Rightarrow> Some (s\<lparr>sy_pc := EReturned\<rparr>)
        | _ \<Rightarrow> None))"
| "engine_step Engine_Ends s =
     (case sy_pc s of
        EReceiving \<Rightarrow> if (\<forall>w\<in>set (sy_workers s). w = wstate.Returned) \<and> try_recv (sy_enriched s) = None
                      then Some (s\<lparr>sy_pc := EReturned\<rparr>) else None
      | _ \<Rightarrow> None)"
| "engine_step _ s = None"

fun emitter_step :: "'e sact \<Rightarrow> 'c system \<Rightarrow> 'c system option" where
  "emitter_step Emitter_Takes s =
     (if \<not> sy_emitting s then None
      else (case try_recv (sy_signals s) of
          None \<Rightarrow> None
        | Some (x, c) \<Rightarrow>
            Some (if cancelled s then s\<lparr>sy_signals := c, sy_emitting := False\<rparr>
                  else s\<lparr>sy_signals := c, sy_emitted := sy_emitted s @ [x],
                         sy_service := (sy_service s)\<lparr>sv_em := Emit (tr_Value x) (sv_em (sy_service s))\<rparr>\<rparr>)))"
| "emitter_step Emitter_Ends s =
     (if sy_emitting s \<and> sy_pc s = EReturned \<and> try_recv (sy_signals s) = None
      then Some (s\<lparr>sy_emitting := False\<rparr>) else None)"
| "emitter_step _ s = None"

fun sstep :: "'c Enricher \<Rightarrow> 'e sact \<Rightarrow> 'c system \<Rightarrow> 'c system option" where
  "sstep e (On_Flow a) s =
     (if a = Enricher_Takes then None
      else (case fstep (en_tel e) a (sy_flow s) of None \<Rightarrow> None | Some f \<Rightarrow> Some (s\<lparr>sy_flow := f\<rparr>)))"
| "sstep e (Worker_Takes i) s = worker_step e (Worker_Takes i :: 'e sact) s"
| "sstep e (Worker_Enriches i r) s = worker_step e (Worker_Enriches i r) s"
| "sstep e (Worker_Sends i) s = worker_step e (Worker_Sends i :: 'e sact) s"
| "sstep e (Worker_Quits i) s = worker_step e (Worker_Quits i :: 'e sact) s"
| "sstep e (Engine_Takes ro) s = engine_step (Engine_Takes ro :: 'e sact) s"
| "sstep e Engine_Sends s = engine_step (Engine_Sends :: 'e sact) s"
| "sstep e Engine_Correlates s = engine_step (Engine_Correlates :: 'e sact) s"
| "sstep e Engine_Next s = engine_step (Engine_Next :: 'e sact) s"
| "sstep e Engine_Aborts s = engine_step (Engine_Aborts :: 'e sact) s"
| "sstep e Engine_Ends s = engine_step (Engine_Ends :: 'e sact) s"
| "sstep e Emitter_Takes s = emitter_step (Emitter_Takes :: 'e sact) s"
| "sstep e Emitter_Ends s = emitter_step (Emitter_Ends :: 'e sact) s"
| "sstep e (On_Service a) s =
     (if (\<exists>sig. a = EmitSig sig) then None
      else (case sv_step a (sy_service s) of None \<Rightarrow> None | Some sv \<Rightarrow> Some (s\<lparr>sy_service := sv\<rparr>)))"

fun srun :: "'c Enricher \<Rightarrow> 'e sact list \<Rightarrow> 'c system \<Rightarrow> 'c system option" where
  "srun e [] s = Some s"
| "srun e (a # acts) s = (case sstep e a s of None \<Rightarrow> None | Some t \<Rightarrow> srun e acts t)"

lemma srun_append: "srun e (as @ bs) s = (case srun e as s of None \<Rightarrow> None | Some t \<Rightarrow> srun e bs t)"
  by (induction "as" arbitrary: s) (auto split: option.split)

lemma srun_invariant:
  fixes acts :: "'e sact list"
  assumes "srun e acts s = Some t" "P s" "\<And>(a :: 'e sact) u v. P u \<Longrightarrow> sstep e a u = Some v \<Longrightarrow> P v"
  shows "P t"
  using assms(1,2)
proof (induction acts arbitrary: s)
  case (Cons a acts)
  then show ?case using assms(3) [of s a] by (auto split: option.splits)
qed simp

section \<open>Where the events are\<close>

text \<open>The events still to be normalized and those on their way behind the normalizer, the oldest first; an event is named by
  what it says and when it entered the pipeline.\<close>

definition raw_in_flow :: "'c flow \<Rightarrow> (RawEvent, 'c) Traced list" where
  "raw_in_flow f =
     ch_buf (fw_raw f) @ (case fw_feeder f of Forwarding x \<Rightarrow> [x] | _ \<Rightarrow> []) @ ch_buf (fw_events f) @
     (case fw_feeder f of Starting (Some x) \<Rightarrow> [x] | _ \<Rightarrow> []) @ fw_logs f"

definition flow_keys :: "'c tel \<Rightarrow> 'c flow \<Rightarrow> (ChainEvent \<times> time) list" where
  "flow_keys tel f =
     map in_key (ch_buf (fw_chain f) @ (case fw_norm f of Sending y \<Rightarrow> [y] | _ \<Rightarrow> []) @ normalized tel (raw_in_flow f))"

definition in_transit :: "'c Enricher \<Rightarrow> 'c system \<Rightarrow> (ChainEvent \<times> time) list" where
  "in_transit e s =
     map (out_key \<circ> snd) (sy_rounds s) @ map out_key (ch_buf (sy_enriched s)) @ concat (map held (sy_workers s)) @
     flow_keys (en_tel e) (sy_flow s)"

lemma normalized_simps [simp]:
  "normalized tel [] = []" "normalized tel (xs @ ys) = normalized tel xs @ normalized tel ys"
  "normalized tel (x # xs) = (case processNormalize tel x of Inl _ \<Rightarrow> [] | Inr t \<Rightarrow> [t]) @ normalized tel xs"
  by (simp_all add: normalized_def)

text \<open>No step of the flow adds an event or changes their order, and only a cancellation loses one.\<close>

lemma flow_keys_Normalizer_Takes:
  assumes "fstep tel Normalizer_Takes f = Some g"
  shows "subseq (flow_keys tel g) (flow_keys tel f) \<and> (\<not> fw_cancelled g \<longrightarrow> flow_keys tel g = flow_keys tel f)"
proof -
  obtain x c where r: "fw_norm f = norm.Receiving" "ch_buf (fw_raw f) = x # ch_buf c" "fw_cancelled g = fw_cancelled f"
    "g = f\<lparr>fw_raw := c, fw_norm := (if fw_cancelled f then norm.Returned
       else (case processNormalize tel x of Inl err \<Rightarrow> norm.Receiving | Inr y \<Rightarrow> norm.Sending y))\<rparr>"
    using assms by (auto split: if_splits option.splits)
  have new: "raw_in_flow f = x # raw_in_flow g" using r(2,4) by (simp add: raw_in_flow_def)
  have old: "flow_keys tel f = map in_key (ch_buf (fw_chain f)) @ map in_key (case processNormalize tel x of Inl _ \<Rightarrow> [] | Inr t \<Rightarrow> [t]) @
      map in_key (normalized tel (raw_in_flow g))"
    using r(1) by (simp add: flow_keys_def new)
  show ?thesis
  proof (cases "fw_cancelled f")
    case True
    then have "flow_keys tel g = map in_key (ch_buf (fw_chain f)) @ map in_key (normalized tel (raw_in_flow g))"
      using r(4) by (simp add: flow_keys_def raw_in_flow_def)
    then show ?thesis using True r(3) by (simp only: old subseq_append' simp_thms) (simp add: subseq_drop_many)
  next
    case False
    then have "flow_keys tel g = flow_keys tel f"
      by (simp only: old) (simp add: flow_keys_def raw_in_flow_def r(4) split: sum.split)
    then show ?thesis by simp
  qed
qed

lemma flow_keys_Event_Abandoned:
  assumes "fstep tel Event_Abandoned f = Some g"
  shows "subseq (flow_keys tel g) (flow_keys tel f) \<and> fw_cancelled g"
proof -
  obtain x where r: "fw_feeder f = Starting (Some x)" "fw_cancelled f" "g = f\<lparr>fw_feeder := Starting None\<rparr>"
    using assms by (auto split: if_splits option.splits feeder.splits)
  show ?thesis using r(2)
    by (simp only: r(3) flow_keys_def raw_in_flow_def) (simp add: r(1) subseq_append' subseq_drop_many)
qed

lemma flow_keys_Normalizer_Aborts:
  assumes "fstep tel Normalizer_Aborts f = Some g"
  shows "subseq (flow_keys tel g) (flow_keys tel f) \<and> fw_cancelled g"
proof -
  obtain y where r: "fw_norm f = norm.Sending y" "fw_cancelled f" "g = f\<lparr>fw_norm := norm.Returned\<rparr>"
    using assms by (auto split: if_splits norm.splits)
  have "raw_in_flow g = raw_in_flow f" by (simp add: r(3) raw_in_flow_def)
  then have "flow_keys tel f = map in_key (ch_buf (fw_chain g)) @ [in_key y] @ map in_key (normalized tel (raw_in_flow g))"
    using r by (simp add: flow_keys_def)
  moreover have "flow_keys tel g = map in_key (ch_buf (fw_chain g)) @ map in_key (normalized tel (raw_in_flow g))"
    using r by (simp add: flow_keys_def)
  moreover have "fw_cancelled g" using r by simp
  ultimately show ?thesis by (simp only: subseq_append' simp_thms) (rule subseq_drop_many, simp)
qed

definition normalizer_act :: "fact \<Rightarrow> bool" where
  "normalizer_act a \<longleftrightarrow> a \<in> {Normalizer_Takes, Normalizer_Sends, Normalizer_Aborts, Normalizer_Ends}"

lemma feeder_moves:
  assumes "fstep tel a f = Some g" "\<not> normalizer_act a" "a \<notin> {Enricher_Takes, Event_Abandoned}"
  shows "raw_in_flow g = raw_in_flow f \<and> fw_chain g = fw_chain f \<and> fw_norm g = fw_norm f"
proof (cases a)
  case Log_Arrives
  then show ?thesis using assms(1) by (auto simp: raw_in_flow_def split: feeder.splits option.splits list.splits)
next
  case Event_Sent
  then show ?thesis using assms(1) by (auto simp: raw_in_flow_def split: feeder.splits option.splits)
next
  case Event_Taken
  then show ?thesis using assms(1) by (auto simp: raw_in_flow_def split: if_splits option.splits)
next
  case Event_Forwarded
  then show ?thesis using assms(1) by (auto simp: raw_in_flow_def split: feeder.splits option.splits)
qed (use assms in \<open>auto simp: raw_in_flow_def normalizer_act_def split: if_splits\<close>)

lemma normalizer_moves:
  assumes "fstep tel a f = Some g" "a \<in> {Normalizer_Sends, Normalizer_Ends}"
  shows "flow_keys tel g = flow_keys tel f"
proof (cases "a = Normalizer_Sends")
  case True
  then obtain y where "fw_norm f = norm.Sending y"
    "g = f\<lparr>fw_norm := norm.Receiving, fw_chain := (fw_chain f)\<lparr>ch_buf := ch_buf (fw_chain f) @ [y]\<rparr>\<rparr>"
    using assms(1) by (auto split: norm.splits option.splits)
  then show ?thesis by (simp add: flow_keys_def raw_in_flow_def)
next
  case False
  then have "fw_norm f = norm.Receiving" "g = f\<lparr>fw_norm := norm.Returned\<rparr>" using assms by (auto split: if_splits)
  then show ?thesis by (simp add: flow_keys_def raw_in_flow_def)
qed

lemma flow_keys_step:
  assumes "fstep tel a f = Some g" "a \<noteq> Enricher_Takes"
  shows "subseq (flow_keys tel g) (flow_keys tel f) \<and> (\<not> fw_cancelled g \<longrightarrow> flow_keys tel g = flow_keys tel f)"
proof -
  consider "a \<in> {Normalizer_Takes, Event_Abandoned, Normalizer_Aborts}" | "a \<in> {Normalizer_Sends, Normalizer_Ends}"
    | "\<not> normalizer_act a" "a \<notin> {Enricher_Takes, Event_Abandoned}"
    using assms(2) unfolding normalizer_act_def by blast
  then show ?thesis
  proof cases
    case 1
    then show ?thesis using assms(1) flow_keys_Normalizer_Takes flow_keys_Event_Abandoned flow_keys_Normalizer_Aborts by blast
  next
    case 2
    then show ?thesis using normalizer_moves [OF assms(1)] by simp
  next
    case 3
    then show ?thesis using feeder_moves [OF assms(1)] by (simp add: flow_keys_def)
  qed
qed

text \<open>What the subscription still brings is what is left of what it was given.\<close>

lemma fw_logs_step: "fstep tel a f = Some g \<Longrightarrow> \<exists>d. fw_logs f = d @ fw_logs g"
  by (cases a) (auto split: feeder.splits option.splits list.splits norm.splits if_splits prod.splits)

section \<open>The workers\<close>

text \<open>The steps that touch the events between the flow and the engine.\<close>

definition worker_act :: "'e sact \<Rightarrow> nat option" where
  "worker_act a = (case a of Worker_Takes i \<Rightarrow> Some i | Worker_Enriches i r \<Rightarrow> Some i | Worker_Sends i \<Rightarrow> Some i
     | Worker_Quits i \<Rightarrow> Some i | _ \<Rightarrow> None)"

lemma with_worker_simps [simp]:
  "sy_flow (with_worker i w s) = sy_flow s" "sy_enriched (with_worker i w s) = sy_enriched s"
  "sy_engine (with_worker i w s) = sy_engine s" "sy_pc (with_worker i w s) = sy_pc s"
  "sy_rounds (with_worker i w s) = sy_rounds s" "sy_signals (with_worker i w s) = sy_signals s"
  "sy_emitting (with_worker i w s) = sy_emitting s" "sy_emitted (with_worker i w s) = sy_emitted s"
  "sy_service (with_worker i w s) = sy_service s" "sy_workers (with_worker i w s) = (sy_workers s)[i := w]"
  by (simp_all add: with_worker_def)

text \<open>A step of a worker: it takes an event, enriches it, sends it, or returns.\<close>

lemma worker_step_cases:
  assumes "sstep e a s = Some t" "worker_act a = Some i"
  obtains (takes) x c where "i < length (sy_workers s)" "sy_workers s ! i = Idle" "ch_buf (fw_chain (sy_flow s)) = x # ch_buf c"
      "ch_cap c = ch_cap (fw_chain (sy_flow s))"
      "t = with_worker i (if cancelled s then wstate.Returned else Got x) (s\<lparr>sy_flow := (sy_flow s)\<lparr>fw_chain := c\<rparr>\<rparr>)"
    | (enriches) x r where "i < length (sy_workers s)" "sy_workers s ! i = Got x" "a = Worker_Enriches i r"
      "t = with_worker i (Ready (processEvent (en_tel e) (en_reg e) x r)) s"
    | (sends) y where "i < length (sy_workers s)" "sy_workers s ! i = Ready y"
      "t = with_worker i Idle (s\<lparr>sy_enriched := (sy_enriched s)\<lparr>ch_buf := ch_buf (sy_enriched s) @ [y]\<rparr>\<rparr>)"
    | (gives_up) y where "i < length (sy_workers s)" "sy_workers s ! i = Ready y" "cancelled s" "t = with_worker i wstate.Returned s"
    | (done_) "i < length (sy_workers s)" "sy_workers s ! i = Idle" "fw_norm (sy_flow s) = norm.Returned"
      "ch_buf (fw_chain (sy_flow s)) = []" "t = with_worker i wstate.Returned s"
proof (cases a)
  case (Worker_Takes j)
  then show ?thesis using assms takes by (auto simp: worker_act_def the_worker_def split: if_splits wstate.splits option.splits prod.splits)
next
  case (Worker_Enriches j r)
  then show ?thesis using assms enriches by (auto simp: worker_act_def the_worker_def split: if_splits wstate.splits)
next
  case (Worker_Sends j)
  then show ?thesis using assms sends by (auto simp: worker_act_def the_worker_def split: if_splits wstate.splits option.splits)
next
  case (Worker_Quits j)
  then show ?thesis using assms gives_up done_ by (auto simp: worker_act_def the_worker_def split: if_splits wstate.splits option.splits)
qed (use assms(2) in \<open>simp_all add: worker_act_def\<close>)

lemma engine_step_enriched:
  assumes "sstep e a s = Some t" "worker_act a = None" "\<forall>b. a \<noteq> On_Flow b"
  shows "sy_flow t = sy_flow s \<and> sy_workers t = sy_workers s \<and>
    (sy_rounds t = sy_rounds s \<and> sy_enriched t = sy_enriched s \<or>
     (\<exists>ro y. ch_buf (sy_enriched s) = y # ch_buf (sy_enriched t) \<and>
        sy_rounds t = (if cancelled s then sy_rounds s else sy_rounds s @ [(ro, y)])))"
proof (cases a)
  case (Engine_Takes ro)
  then show ?thesis using assms(1) by (cases "cancelled s") (auto split: eng_pc.splits option.splits prod.splits)
next
  case Engine_Sends
  then show ?thesis using assms(1) by (auto split: eng_pc.splits option.splits list.splits)
next
  case Engine_Correlates
  then show ?thesis using assms(1) by (auto split: eng_pc.splits list.splits prod.splits)
next
  case Engine_Next
  then show ?thesis using assms(1) by (auto split: eng_pc.splits list.splits)
next
  case Engine_Aborts
  then show ?thesis using assms(1) by (auto split: if_splits eng_pc.splits list.splits)
next
  case Engine_Ends
  then show ?thesis using assms(1) by (auto split: if_splits eng_pc.splits)
next
  case Emitter_Takes
  then show ?thesis using assms(1) by (auto split: if_splits option.splits prod.splits)
next
  case Emitter_Ends
  then show ?thesis using assms(1) by (auto split: if_splits)
next
  case (On_Service b)
  then show ?thesis using assms(1) by (auto split: if_splits option.splits)
qed (use assms in \<open>simp_all add: worker_act_def\<close>)

text \<open>The three kinds of steps: of the flow, of a worker, and of what is behind the workers.\<close>

lemma sstep_kinds:
  assumes "sstep e a s = Some t"
  obtains (flow) b f where "a = On_Flow b" "b \<noteq> Enricher_Takes" "fstep (en_tel e) b (sy_flow s) = Some f" "t = s\<lparr>sy_flow := f\<rparr>"
    | (worker) i where "worker_act a = Some i"
    | (behind) "worker_act a = None" "\<forall>b. a \<noteq> On_Flow b"
proof (cases "\<exists>b. a = On_Flow b")
  case True
  then show ?thesis using assms flow by (auto split: if_splits option.splits)
next
  case False
  then show ?thesis using worker behind by (cases "worker_act a") auto
qed

section \<open>Conservation\<close>

lemma mset_subseq: "subseq xs ys \<Longrightarrow> mset xs \<subseteq># mset ys"
  by (induction rule: list_emb.induct) (auto intro: subset_mset.order_trans)

lemma in_transit_flow:
  assumes "fstep (en_tel e) b (sy_flow s) = Some f" "b \<noteq> Enricher_Takes" "t = s\<lparr>sy_flow := f\<rparr>"
  shows "subseq (in_transit e t) (in_transit e s) \<and> (\<not> cancelled t \<longrightarrow> in_transit e t = in_transit e s)"
  using flow_keys_step [OF assms(1,2)] by (simp add: in_transit_def assms(3) subseq_append')

lemma in_transit_behind:
  assumes "sstep e a s = Some t" "worker_act a = None" "\<forall>b. a \<noteq> On_Flow b"
  shows "subseq (in_transit e t) (in_transit e s) \<and> (\<not> cancelled t \<longrightarrow> in_transit e t = in_transit e s)"
proof -
  note st = engine_step_enriched [OF assms]
  let ?rest = "concat (map held (sy_workers s)) @ flow_keys (en_tel e) (sy_flow s)"
  let ?done = "map (out_key \<circ> snd) (sy_rounds s)"
  show ?thesis
  proof (cases "sy_rounds t = sy_rounds s \<and> sy_enriched t = sy_enriched s")
    case True
    then show ?thesis using st by (simp add: in_transit_def)
  next
    case False
    then obtain ro y where y: "ch_buf (sy_enriched s) = y # ch_buf (sy_enriched t)"
      "sy_rounds t = (if cancelled s then sy_rounds s else sy_rounds s @ [(ro, y)])" using st by blast
    have "in_transit e s = ?done @ [out_key y] @ map out_key (ch_buf (sy_enriched t)) @ ?rest"
      by (simp add: in_transit_def y(1))
    moreover have "in_transit e t = ?done @ (if cancelled s then [] else [out_key y]) @ map out_key (ch_buf (sy_enriched t)) @ ?rest"
      using st by (simp add: in_transit_def y(2))
    ultimately show ?thesis using st by (simp add: subseq_append' list_emb_Cons)
  qed
qed

lemma concat_update_single: "length ws = 1 \<Longrightarrow> i < length ws \<Longrightarrow> concat (map f (ws[i := w])) = f w \<and> concat (map f ws) = f (ws ! i)"
  by (cases ws) auto

lemma held_same: "i < length ws \<Longrightarrow> held w = held (ws ! i) \<Longrightarrow> map held (ws[i := w]) = map held ws"
  by (simp add: map_update) (metis length_map list_update_id nth_map)

lemma in_transit_worker:
  assumes "sstep e a s = Some t" "worker_act a = Some i"
  shows "mset (in_transit e t) \<subseteq># mset (in_transit e s) \<and> (\<not> cancelled t \<longrightarrow> mset (in_transit e t) = mset (in_transit e s)) \<and>
    (length (sy_workers s) = 1 \<longrightarrow> subseq (in_transit e t) (in_transit e s))"
  using assms
proof (cases rule: worker_step_cases)
  case (takes x c)
  let ?w = "if cancelled s then wstate.Returned else Got x"
  let ?pre = "map (out_key \<circ> snd) (sy_rounds s) @ map out_key (ch_buf (sy_enriched s))"
  let ?keys = "flow_keys (en_tel e) ((sy_flow s)\<lparr>fw_chain := c\<rparr>)"
  have keys: "flow_keys (en_tel e) (sy_flow s) = in_key x # ?keys"
    using takes by (simp add: flow_keys_def raw_in_flow_def)
  have s: "in_transit e s = ?pre @ concat (map held (sy_workers s)) @ in_key x # ?keys"
    by (simp add: in_transit_def keys)
  have t: "in_transit e t = ?pre @ concat (map held ((sy_workers s)[i := ?w])) @ ?keys"
    by (simp add: in_transit_def takes(5))
  have w: "held ?w = (if cancelled s then [] else [in_key x])" by simp
  have m: "mset (concat (map held ((sy_workers s)[i := ?w]))) = mset (concat (map held (sy_workers s))) + mset (held ?w)"
    using mset_held_update [OF takes(1), of ?w] takes(2) by simp
  have "cancelled t = cancelled s" by (simp add: takes(5))
  then have 1: "mset (in_transit e t) \<subseteq># mset (in_transit e s) \<and> (\<not> cancelled t \<longrightarrow> mset (in_transit e t) = mset (in_transit e s))"
    unfolding s t mset_append mset.simps(2) m w by auto
  have "subseq (in_transit e t) (in_transit e s)" if "length (sy_workers s) = 1"
  proof -
    have h: "concat (map held ((sy_workers s)[i := ?w])) = held ?w" "concat (map held (sy_workers s)) = []"
      using concat_update_single [OF that takes(1), of held ?w] takes(2) by simp_all
    show ?thesis unfolding s t append_assoc subseq_append' h w by (simp add: list_emb_Cons)
  qed
  with 1 show ?thesis by blast
next
  case (enriches x r)
  then have "map held (sy_workers t) = map held (sy_workers s)" by (simp add: held_same)
  then show ?thesis by (simp add: in_transit_def enriches(4))
next
  case (sends y)
  have "in_transit e t = in_transit e s" if one: "length (sy_workers s) = 1"
  proof -
    obtain v where "sy_workers s = [v]" "i = 0" using one sends(1) by (cases "sy_workers s") auto
    then show ?thesis using sends(2) by (simp add: in_transit_def sends(3))
  qed
  moreover have "mset (in_transit e t) = mset (in_transit e s)" using mset_held_update [OF sends(1), of Idle] sends(2)
    by (simp add: in_transit_def sends(3))
  ultimately show ?thesis by simp
next
  case (gives_up y)
  have "mset (concat (map held (sy_workers s))) = mset (concat (map held (sy_workers t))) + {#out_key y#}"
    using mset_held_update [OF gives_up(1), of wstate.Returned] gives_up(2,4) by simp
  then have "mset (in_transit e t) \<subseteq># mset (in_transit e s)" by (simp add: in_transit_def gives_up(4))
  moreover have "subseq (in_transit e t) (in_transit e s)" if one: "length (sy_workers s) = 1"
  proof -
    obtain v where "sy_workers s = [v]" "i = 0" using one gives_up(1) by (cases "sy_workers s") auto
    then show ?thesis using gives_up(2) by (simp add: in_transit_def gives_up(4) subseq_append' list_emb_Cons)
  qed
  ultimately show ?thesis using gives_up(3,4) by simp
next
  case done_
  then have "map held (sy_workers t) = map held (sy_workers s)" by (simp add: held_same)
  then show ?thesis by (simp add: in_transit_def done_)
qed

lemma in_transit_step:
  assumes "sstep e a s = Some t"
  shows "mset (in_transit e t) \<subseteq># mset (in_transit e s)" "\<not> cancelled t \<Longrightarrow> mset (in_transit e t) = mset (in_transit e s)"
    "length (sy_workers s) = 1 \<Longrightarrow> subseq (in_transit e t) (in_transit e s)"
proof -
  have "mset (in_transit e t) \<subseteq># mset (in_transit e s) \<and> (\<not> cancelled t \<longrightarrow> mset (in_transit e t) = mset (in_transit e s)) \<and>
    (length (sy_workers s) = 1 \<longrightarrow> subseq (in_transit e t) (in_transit e s))"
    using assms
  proof (cases rule: sstep_kinds)
    case (flow b f)
    then show ?thesis using in_transit_flow [OF flow(3,2,4)] mset_subseq by auto
  next
    case (worker i)
    then show ?thesis using in_transit_worker [OF assms] by simp
  next
    case behind
    then show ?thesis using in_transit_behind [OF assms behind] mset_subseq by auto
  qed
  then show "mset (in_transit e t) \<subseteq># mset (in_transit e s)" "\<not> cancelled t \<Longrightarrow> mset (in_transit e t) = mset (in_transit e s)"
    "length (sy_workers s) = 1 \<Longrightarrow> subseq (in_transit e t) (in_transit e s)" by blast+
qed

lemma sstep_frame:
  assumes "sstep e a s = Some t"
  shows "cancelled s \<Longrightarrow> cancelled t" "length (sy_workers t) = length (sy_workers s)" "\<exists>d. fw_logs (sy_flow s) = d @ fw_logs (sy_flow t)"
proof -
  have "(cancelled s \<longrightarrow> cancelled t) \<and> length (sy_workers t) = length (sy_workers s) \<and> (\<exists>d. fw_logs (sy_flow s) = d @ fw_logs (sy_flow t))"
    using assms
  proof (cases rule: sstep_kinds)
    case (flow b f)
    then show ?thesis using cancelled_stays fw_logs_step by auto
  next
    case (worker i)
    from assms worker show ?thesis by (cases rule: worker_step_cases) auto
  next
    case behind
    then show ?thesis using engine_step_enriched [OF assms behind] by auto
  qed
  then show "cancelled s \<Longrightarrow> cancelled t" "length (sy_workers t) = length (sy_workers s)"
    "\<exists>d. fw_logs (sy_flow s) = d @ fw_logs (sy_flow t)" by blast+
qed

definition conserved :: "'c Enricher \<Rightarrow> (RawEvent, 'c) Traced list \<Rightarrow> 'c system \<Rightarrow> bool" where
  "conserved e lgs s \<longleftrightarrow>
     mset (in_transit e s) \<subseteq># mset (map in_key (normalized (en_tel e) lgs)) \<and>
     (\<not> cancelled s \<longrightarrow> mset (in_transit e s) = mset (map in_key (normalized (en_tel e) lgs))) \<and>
     (en_workers e = 1 \<longrightarrow> subseq (in_transit e s) (map in_key (normalized (en_tel e) lgs))) \<and>
     length (sy_workers s) = nat (en_workers e) \<and> (\<exists>d. lgs = d @ fw_logs (sy_flow s))"

lemma conserved_step:
  assumes "conserved e lgs s" "sstep e a s = Some t"
  shows "conserved e lgs t"
proof -
  note st = in_transit_step [OF assms(2)] sstep_frame [OF assms(2)]
  have c: "mset (in_transit e s) \<subseteq># mset (map in_key (normalized (en_tel e) lgs))"
    "\<not> cancelled s \<longrightarrow> mset (in_transit e s) = mset (map in_key (normalized (en_tel e) lgs))"
    "en_workers e = 1 \<longrightarrow> subseq (in_transit e s) (map in_key (normalized (en_tel e) lgs))"
    "length (sy_workers s) = nat (en_workers e)" "\<exists>d. lgs = d @ fw_logs (sy_flow s)"
    using assms(1) unfolding conserved_def by blast+
  have 1: "mset (in_transit e t) \<subseteq># mset (map in_key (normalized (en_tel e) lgs))"
    using st(1) c(1) by (rule subset_mset.order_trans)
  have 2: "\<not> cancelled t \<longrightarrow> mset (in_transit e t) = mset (map in_key (normalized (en_tel e) lgs))"
    using st(2,4) c(2) by auto
  have 3: "en_workers e = 1 \<longrightarrow> subseq (in_transit e t) (map in_key (normalized (en_tel e) lgs))"
    using st(3) c(3,4) subseq_order.trans by auto
  obtain d d' where "lgs = d @ fw_logs (sy_flow s)" "fw_logs (sy_flow s) = d' @ fw_logs (sy_flow t)" using c(5) st(6) by blast
  then have 4: "\<exists>d. lgs = d @ fw_logs (sy_flow t)" by (intro exI [of _ "d @ d'"]) simp
  show ?thesis using 1 2 3 4 c(4) st(5) unfolding conserved_def by simp
qed

text \<open>A system with empty channels, about to run.\<close>

definition fresh_system ::
  "'c Enricher \<Rightarrow> 'c Engine \<Rightarrow> int \<Rightarrow> int \<Rightarrow> int \<Rightarrow> int \<Rightarrow> int \<Rightarrow> int \<Rightarrow> (RawEvent, 'c) Traced list \<Rightarrow> 'c system" where
  "fresh_system e eng events raw chain enriched signals n lgs =
     system_start (flow_start (make_chan events) (make_chan raw) (make_chan chain) lgs) e (make_chan enriched) eng
       (make_chan signals) n"

lemma fresh_system_simps:
  "sy_flow (fresh_system e eng n1 n2 n3 n4 n5 n lgs) = flow_start (make_chan n1) (make_chan n2) (make_chan n3) lgs"
  "sy_workers (fresh_system e eng n1 n2 n3 n4 n5 n lgs) = replicate (nat (en_workers e)) Idle"
  "sy_enriched (fresh_system e eng n1 n2 n3 n4 n5 n lgs) = make_chan n4"
  "sy_engine (fresh_system e eng n1 n2 n3 n4 n5 n lgs) = eng" "sy_pc (fresh_system e eng n1 n2 n3 n4 n5 n lgs) = EReceiving"
  "sy_rounds (fresh_system e eng n1 n2 n3 n4 n5 n lgs) = []" "sy_signals (fresh_system e eng n1 n2 n3 n4 n5 n lgs) = make_chan n5"
  "sy_emitting (fresh_system e eng n1 n2 n3 n4 n5 n lgs)" "sy_emitted (fresh_system e eng n1 n2 n3 n4 n5 n lgs) = []"
  "sy_service (fresh_system e eng n1 n2 n3 n4 n5 n lgs) = Emitter.start n"
  by (simp_all add: fresh_system_def system_start_def)

lemma conserved_start: "conserved e lgs (fresh_system e eng n1 n2 n3 n4 n5 n lgs)"
  by (simp add: conserved_def in_transit_def fresh_system_simps make_chan_def flow_keys_def flow_start_def raw_in_flow_def)

lemma srun_conserved:
  "srun e acts (fresh_system e eng n1 n2 n3 n4 n5 n lgs) = Some s \<Longrightarrow> conserved e lgs s"
  by (erule srun_invariant) (rule conserved_start, erule (1) conserved_step)

section \<open>What the engine has sent\<close>

lemma stage_signals_snoc:
  "stage_signals e (ins @ [(ro, y)]) =
     (case stage_signals e ins of (e', sigs) \<Rightarrow> (case event_signals e' ro y of (e'', rest) \<Rightarrow> (e'', sigs @ rest)))"
  by (induction ins arbitrary: e) (auto split: prod.splits)

text \<open>The engine and the signals that the loop's place in its round stands for: the ones it has in hand, and after those of
  the rules the ones of the correlator.\<close>

fun round_end :: "'c Engine \<Rightarrow> 'c eng_pc \<Rightarrow> 'c Engine \<times> (Signal, 'c) Traced list" where
  "round_end eng (ERules ro y xs) =
     (case correlateWithSpan eng ro (tr_Ctx y) (tr_Value y) of (e', sigs) \<Rightarrow> (e', xs @ sigs))"
| "round_end eng (ECorr xs) = (eng, xs)"
| "round_end eng pc = (eng, [])"

definition accounted :: "'c Engine \<Rightarrow> 'c system \<Rightarrow> bool" where
  "accounted eng s \<longleftrightarrow>
     (sy_pc s \<noteq> EReturned \<longrightarrow> fst (stage_signals eng (sy_rounds s)) = fst (round_end (sy_engine s) (sy_pc s))) \<and>
     (sy_pc s \<noteq> EReturned \<longrightarrow> sy_emitting s \<longrightarrow> snd (stage_signals eng (sy_rounds s)) =
        sy_emitted s @ ch_buf (sy_signals s) @ snd (round_end (sy_engine s) (sy_pc s))) \<and>
     (sy_emitting s \<longrightarrow> prefix (sy_emitted s @ ch_buf (sy_signals s)) (snd (stage_signals eng (sy_rounds s)))) \<and>
     prefix (sy_emitted s) (snd (stage_signals eng (sy_rounds s)))"

lemma accounted_same:
  assumes "accounted eng s" "sy_pc t = sy_pc s" "sy_rounds t = sy_rounds s" "sy_engine t = sy_engine s"
    "sy_signals t = sy_signals s" "sy_emitting t = sy_emitting s" "sy_emitted t = sy_emitted s"
  shows "accounted eng t"
  using assms by (simp add: accounted_def)

lemma accounted_Engine_Takes:
  assumes "accounted eng s" "sstep e (Engine_Takes ro) s = Some t"
  shows "accounted eng t"
proof -
  obtain y c where y: "sy_pc s = EReceiving" "t = (if cancelled s then s\<lparr>sy_enriched := c, sy_pc := EReturned\<rparr>
     else s\<lparr>sy_enriched := c, sy_pc := ERules ro y (evaluateWithSpan (sy_engine s) ro y), sy_rounds := sy_rounds s @ [(ro, y)]\<rparr>)"
    using assms(2) by (auto split: eng_pc.splits option.splits prod.splits)
  obtain g sigs where st: "stage_signals eng (sy_rounds s) = (g, sigs)" by force
  have g: "g = sy_engine s" using assms(1) y(1) st by (simp add: accounted_def)
  have "sy_emitting s \<Longrightarrow> sigs = sy_emitted s @ ch_buf (sy_signals s)" "prefix (sy_emitted s) sigs"
    using assms(1) y(1) st by (simp_all add: accounted_def)
  then show ?thesis using assms(1)
    by (simp add: accounted_def y st stage_signals_snoc g event_signals_def split: prod.split)
qed

lemma accounted_Engine_Sends:
  assumes "accounted eng s" "sstep e Engine_Sends s = Some t"
  shows "accounted eng t"
proof (cases "sy_pc s")
  case (ERules ro y xs)
  then show ?thesis using assms by (auto simp: accounted_def split: list.splits option.splits prod.splits)
next
  case (ECorr xs)
  then show ?thesis using assms by (auto simp: accounted_def split: list.splits option.splits)
qed (use assms(2) in simp_all)

lemma accounted_Emitter_Takes:
  assumes "accounted eng s" "sstep e Emitter_Takes s = Some t"
  shows "accounted eng t"
proof -
  obtain x c where x: "sy_emitting s" "ch_buf (sy_signals s) = x # ch_buf c" "t = (if cancelled s then s\<lparr>sy_signals := c, sy_emitting := False\<rparr>
     else s\<lparr>sy_signals := c, sy_emitted := sy_emitted s @ [x], sy_service := (sy_service s)\<lparr>sv_em := Emit (tr_Value x) (sv_em (sy_service s))\<rparr>\<rparr>)"
    using assms(2) by (auto split: if_splits option.splits prod.splits)
  then have "prefix (sy_emitted s @ [x]) (snd (stage_signals eng (sy_rounds s)))"
    using assms(1) prefix_order.trans [of "sy_emitted s @ [x]" "sy_emitted s @ ch_buf (sy_signals s)"] by (simp add: accounted_def)
  then show ?thesis using assms(1) x by (simp add: accounted_def)
qed

lemma accounted_worker:
  assumes "accounted eng s" "sstep e a s = Some t" "worker_act a = Some i"
  shows "accounted eng t"
  using assms(2,3) by (cases rule: worker_step_cases) (rule accounted_same [OF assms(1)]; simp)+

lemma accounted_step:
  assumes "accounted eng s" "sstep e a s = Some t"
  shows "accounted eng t"
proof (cases a)
  case (On_Flow b)
  then show ?thesis using assms(2) by (intro accounted_same [OF assms(1)]) (auto split: if_splits option.splits)
next
  case (Engine_Takes ro)
  then show ?thesis using accounted_Engine_Takes assms by blast
next
  case Engine_Sends
  then show ?thesis using accounted_Engine_Sends assms by blast
next
  case Engine_Correlates
  then obtain ro y g sigs where "sy_pc s = ERules ro y []" "correlateWithSpan (sy_engine s) ro (tr_Ctx y) (tr_Value y) = (g, sigs)"
    "t = s\<lparr>sy_engine := g, sy_pc := ECorr sigs\<rparr>"
    using assms(2) by (auto split: eng_pc.splits list.splits prod.splits)
  then show ?thesis using assms(1) by (simp add: accounted_def)
next
  case Engine_Next
  then have "sy_pc s = ECorr []" "t = s\<lparr>sy_pc := EReceiving\<rparr>" using assms(2) by (auto split: eng_pc.splits list.splits)
  then show ?thesis using assms(1) by (simp add: accounted_def)
next
  case Engine_Aborts
  then have "t = s\<lparr>sy_pc := EReturned\<rparr>" using assms(2) by (auto split: if_splits eng_pc.splits list.splits)
  then show ?thesis using assms(1) by (simp add: accounted_def)
next
  case Engine_Ends
  then have "t = s\<lparr>sy_pc := EReturned\<rparr>" using assms(2) by (auto split: if_splits eng_pc.splits)
  then show ?thesis using assms(1) by (simp add: accounted_def)
next
  case Emitter_Takes
  then show ?thesis using accounted_Emitter_Takes assms by blast
next
  case Emitter_Ends
  then have "t = s\<lparr>sy_emitting := False\<rparr>" using assms(2) by (auto split: if_splits)
  then show ?thesis using assms(1) by (simp add: accounted_def)
next
  case (On_Service b)
  then show ?thesis using assms(2) by (intro accounted_same [OF assms(1)]) (auto split: if_splits option.splits)
qed (use accounted_worker [OF assms] in \<open>simp_all add: worker_act_def\<close>)

lemma srun_accounted:
  "srun e acts (fresh_system e eng n1 n2 n3 n4 n5 n lgs) = Some s \<Longrightarrow> accounted eng s"
  by (erule srun_invariant) (simp add: accounted_def fresh_system_simps make_chan_def, erule (1) accounted_step)

section \<open>What the events and the streams are made of\<close>

definition enriched_event :: "'c Enricher \<Rightarrow> (EnrichedEvent, 'c) Traced \<Rightarrow> bool" where
  "enriched_event e y \<longleftrightarrow> (\<exists>r :: unit + float64. tr_Value y = enrich_with (en_reg e) (fst (out_key y)) r)"

lemma enriched_event_processEvent: "enriched_event e (processEvent (en_tel e) (en_reg e) x r)"
proof -
  obtain r' :: "unit + float64" where "processEvent (en_tel e) (en_reg e) x r = processEvent (en_tel e) (en_reg e) x r'"
    using enriched_by_processEvent [of e x r] unfolding enriched_by_def by blast
  then show ?thesis unfolding enriched_event_def by (auto simp: processEvent_def out_key_def Let_def)
qed

definition ready_events :: "'c system \<Rightarrow> (EnrichedEvent, 'c) Traced set" where
  "ready_events s = {y. Ready y \<in> set (sy_workers s)} \<union> set (ch_buf (sy_enriched s)) \<union> snd ` set (sy_rounds s)"

lemma ready_events_step:
  assumes "sstep e a s = Some t" "\<forall>y\<in>ready_events s. enriched_event e y"
  shows "\<forall>y\<in>ready_events t. enriched_event e y"
  using assms(1)
proof (cases rule: sstep_kinds)
  case (flow b f)
  then show ?thesis using assms(2) by (simp add: ready_events_def)
next
  case (worker i)
  have upd: "Ready y \<in> set ((sy_workers s)[i := w]) \<Longrightarrow> Ready y = w \<or> Ready y \<in> set (sy_workers s)" for y w
    using set_update_subset_insert [of "sy_workers s" i w] by blast
  from assms(1) worker show ?thesis
  proof (cases rule: worker_step_cases)
    case (takes x c)
    then show ?thesis using assms(2) by (auto simp: ready_events_def dest!: upd split: if_splits)
  next
    case (enriches x r)
    then show ?thesis using assms(2) by (auto simp: ready_events_def enriched_event_processEvent dest!: upd)
  next
    case (sends y)
    then have "Ready y \<in> set (sy_workers s)" using nth_mem by metis
    then show ?thesis using assms(2) sends(3) by (auto simp: ready_events_def dest!: upd)
  next
    case (gives_up y)
    then show ?thesis using assms(2) by (auto simp: ready_events_def dest!: upd)
  next
    case done_
    then show ?thesis using assms(2) by (auto simp: ready_events_def dest!: upd)
  qed
next
  case behind
  have "ready_events t \<subseteq> ready_events s"
    using engine_step_enriched [OF assms(1) behind] by (cases "cancelled s") (auto simp: ready_events_def)
  then show ?thesis using assms(2) by blast
qed

lemma srun_ready:
  assumes "srun e acts (fresh_system e eng n1 n2 n3 n4 n5 n lgs) = Some s"
  shows "\<forall>y\<in>ready_events s. enriched_event e y"
  using assms
proof (rule srun_invariant)
  show "\<forall>y\<in>ready_events (fresh_system e eng n1 n2 n3 n4 n5 n lgs). enriched_event e y"
    by (auto simp: ready_events_def fresh_system_simps make_chan_def)
qed (rule ready_events_step)

text \<open>The subscribers' side is a run of the service in which exactly the emitter's signals are emitted.\<close>

definition serviced :: "int \<Rightarrow> 'c system \<Rightarrow> bool" where
  "serviced n s \<longleftrightarrow> (\<exists>acts. sv_run acts (Emitter.start n) = Some (sy_service s) \<and>
     concat (map emitted_signal acts) = map (toProto \<circ> tr_Value) (sy_emitted s))"

lemma serviced_extend:
  assumes "serviced n s" "sv_step b (sy_service s) = Some (sy_service t)"
    "map (toProto \<circ> tr_Value) (sy_emitted t) = map (toProto \<circ> tr_Value) (sy_emitted s) @ emitted_signal b"
  shows "serviced n t"
proof -
  obtain acts where "sv_run acts (Emitter.start n) = Some (sy_service s)"
    "concat (map emitted_signal acts) = map (toProto \<circ> tr_Value) (sy_emitted s)" using assms(1) unfolding serviced_def by blast
  then have "sv_run (acts @ [b]) (Emitter.start n) = Some (sy_service t)"
    "concat (map emitted_signal (acts @ [b])) = map (toProto \<circ> tr_Value) (sy_emitted t)"
    using assms(2,3) by (simp_all add: sv_run_append)
  then show ?thesis unfolding serviced_def by blast
qed

lemma serviced_same: "serviced n s \<Longrightarrow> sy_service t = sy_service s \<Longrightarrow> sy_emitted t = sy_emitted s \<Longrightarrow> serviced n t"
  by (simp add: serviced_def)

lemma service_frame:
  assumes "sstep e a s = Some t" "a \<noteq> Emitter_Takes" "\<forall>b. a \<noteq> On_Service b"
  shows "sy_service t = sy_service s \<and> sy_emitted t = sy_emitted s"
proof (cases "worker_act a")
  case (Some i)
  from assms(1) Some show ?thesis by (cases rule: worker_step_cases) simp_all
next
  case None
  then show ?thesis using assms
    by (cases a) (auto simp: worker_act_def split: if_splits option.splits eng_pc.splits list.splits prod.splits)
qed

lemma serviced_step:
  assumes "serviced n s" "sstep e a s = Some t"
  shows "serviced n t"
proof -
  consider "a = Emitter_Takes" | b where "a = On_Service b" | "a \<noteq> Emitter_Takes" "\<forall>b. a \<noteq> On_Service b" by blast
  then show ?thesis
  proof cases
    case 1
    obtain x c where x: "t = (if cancelled s then s\<lparr>sy_signals := c, sy_emitting := False\<rparr> else s\<lparr>sy_signals := c,
        sy_emitted := sy_emitted s @ [x], sy_service := (sy_service s)\<lparr>sv_em := Emit (tr_Value x) (sv_em (sy_service s))\<rparr>\<rparr>)"
      using assms(2) 1 by (auto split: if_splits option.splits prod.splits)
    show ?thesis
    proof (cases "cancelled s")
      case True
      then show ?thesis using x by (intro serviced_same [OF assms(1)]) simp_all
    next
      case False
      then show ?thesis using x by (intro serviced_extend [OF assms(1), of "EmitSig (tr_Value x)"]) simp_all
    qed
  next
    case (2 b)
    then have "sv_step b (sy_service s) = Some (sy_service t)" "sy_emitted t = sy_emitted s" "\<forall>sig. b \<noteq> EmitSig sig"
      using assms(2) by (auto split: if_splits option.splits)
    moreover from this have "emitted_signal b = []" by (cases b) simp_all
    ultimately show ?thesis by (intro serviced_extend [OF assms(1)]) simp_all
  next
    case 3
    then show ?thesis using service_frame [OF assms(2)] by (intro serviced_same [OF assms(1)]) simp_all
  qed
qed

lemma nth_split:
  "i < length (filter P xs) \<Longrightarrow> \<exists>before x after. xs = before @ x # after \<and> P x \<and> length (filter P before) = i"
proof (induction xs arbitrary: i)
  case (Cons y xs)
  show ?case
  proof (cases "P y \<and> i = 0")
    case True
    then show ?thesis by (intro exI [of _ "[]"]) auto
  next
    case False
    define j where "j = (if P y then i - 1 else i)"
    have "j < length (filter P xs)" using Cons.prems False by (auto simp: j_def split: if_splits)
    from Cons.IH [OF this] obtain before x after where "xs = before @ x # after" "P x" "length (filter P before) = j" by blast
    then show ?thesis using False by (intro exI [of _ "y # before"]) (auto simp: j_def)
  qed
qed simp

lemma serviced_stream:
  assumes "serviced n s"
  shows "subseq (sv_sent (sy_service s) i) (map (toProto \<circ> tr_Value) (sy_emitted s))"
proof -
  obtain acts where a: "sv_run acts (Emitter.start n) = Some (sy_service s)"
    "concat (map emitted_signal acts) = map (toProto \<circ> tr_Value) (sy_emitted s)" using assms unfolding serviced_def by blast
  have "fresh_above (Emitter.start n)" by (simp add: fresh_above_def Emitter.start_def NewEmitter_def)
  from sv_run_static [OF a(1) this] have st: "fresh_above (sy_service s)"
    "em_next (sv_em (sy_service s)) = length (filter is_subscribe acts)" by (simp_all add: Emitter.start_def NewEmitter_def)
  show ?thesis
  proof (cases "i < length (filter is_subscribe acts)")
    case False
    then show ?thesis using st by (simp add: fresh_above_def)
  next
    case True
    from nth_split [OF this] obtain before x after where
      x: "acts = before @ x # after" "is_subscribe x" "length (filter is_subscribe before) = i" by blast
    obtain f where f: "x = Subscribe f" using x(2) by (cases x) (simp_all add: is_subscribe_def)
    have "stream_ok f (nat n) after i (sy_service s)"
      using subscriber_stream_ok [OF a(1) [unfolded x(1) f] x(3) [symmetric]] by blast
    then have "subseq (sv_sent (sy_service s) i) (wanted f after)" by (simp add: stream_ok_def)
    moreover have "subseq (wanted f after) (concat (map emitted_signal after))" by (simp add: wanted_def)
    moreover have "subseq (concat (map emitted_signal after)) (concat (map emitted_signal acts))"
      by (simp add: x(1) subseq_drop_many)
    ultimately show ?thesis unfolding a(2) by (meson subseq_order.trans)
  qed
qed

lemma srun_serviced:
  "srun e acts (fresh_system e eng n1 n2 n3 n4 n5 n lgs) = Some s \<Longrightarrow> serviced n s"
proof (erule srun_invariant)
  show "serviced n (fresh_system e eng n1 n2 n3 n4 n5 n lgs)"
    unfolding serviced_def by (intro exI [of _ "[]"]) (simp add: fresh_system_simps)
qed (erule (1) serviced_step)

section \<open>Safety of the whole pipeline\<close>

text \<open>Safety of the pipeline as a whole, in any interleaving of all its goroutines and with any buffer sizes, cancelled or
  not: the engine works on no event that was not read from the subscription and normalized, on none twice, and with one
  worker on none out of order; each carries what the enricher makes of it for some answer of the provider; the emitter emits
  an initial part of the signals that the rules and the correlator give for those events, so none is invented, repeated or
  overtaken; and every subscriber is sent a subsequence of what was emitted.\<close>

theorem pipeline_is_safe:
  assumes "srun e acts (fresh_system e eng n1 n2 n3 n4 n5 n lgs) = Some s"
  shows "mset (map (out_key \<circ> snd) (sy_rounds s)) \<subseteq># mset (map in_key (normalized (en_tel e) lgs)) \<and>
    (en_workers e = 1 \<longrightarrow> subseq (map (out_key \<circ> snd) (sy_rounds s)) (map in_key (normalized (en_tel e) lgs))) \<and>
    (\<forall>(ro, y)\<in>set (sy_rounds s). \<exists>r :: unit + float64. tr_Value y = enrich_with (en_reg e) (fst (out_key y)) r) \<and>
    prefix (sy_emitted s) (snd (stage_signals eng (sy_rounds s))) \<and>
    (\<forall>i. subseq (sv_sent (sy_service s) i) (map (toProto \<circ> tr_Value) (sy_emitted s)))"
proof (intro conjI)
  let ?ks = "map in_key (normalized (en_tel e) lgs)" and ?rs = "map (out_key \<circ> snd) (sy_rounds s)"
  have c: "mset (in_transit e s) \<subseteq># mset ?ks" "en_workers e = 1 \<longrightarrow> subseq (in_transit e s) ?ks"
    using srun_conserved [OF assms] unfolding conserved_def by blast+
  have sub: "subseq ?rs (in_transit e s)" by (simp add: in_transit_def subseq_rev_drop_many)
  then show "mset ?rs \<subseteq># mset ?ks" using c(1) mset_subseq subset_mset.order_trans by blast
  show "en_workers e = 1 \<longrightarrow> subseq ?rs ?ks" using sub c(2) subseq_order.trans by blast
  have "\<forall>y\<in>ready_events s. enriched_event e y" by (rule srun_ready [OF assms])
  then show "\<forall>(ro, y)\<in>set (sy_rounds s). \<exists>r :: unit + float64. tr_Value y = enrich_with (en_reg e) (fst (out_key y)) r"
    by (force simp: ready_events_def enriched_event_def)
  show "prefix (sy_emitted s) (snd (stage_signals eng (sy_rounds s)))"
    using srun_accounted [OF assms] by (simp add: accounted_def)
  show "\<forall>i. subseq (sv_sent (sy_service s) i) (map (toProto \<circ> tr_Value) (sy_emitted s))"
    using serviced_stream [OF srun_serviced [OF assms]] by blast
qed

section \<open>Examples\<close>

text \<open>One approval, an event of unknown type, one worker, and a rule that signals every approval.\<close>

definition demo_raw_event :: "string \<Rightarrow> (RawEvent, unit) Traced" where
  "demo_raw_event ty = \<lparr>tr_Value = \<lparr>re_Chain = ChainEthereum, re_Block = 1, re_TxHash = ''0x'', re_Timestamp = 0,
     re_EventType = ty, re_Data = [''token'' \<mapsto> AnyString ''t'']\<rparr>, tr_Ctx = (), tr_StartedAt = 0\<rparr>"

definition demo_raws :: "(RawEvent, unit) Traced list" where
  "demo_raws = [demo_raw_event EventTokenApproval, demo_raw_event ''other'']"

definition demo_enricher :: "unit Enricher" where
  "demo_enricher = Enricher.New demo_feeds 1 demo_tel"

definition demo_engine :: "unit Engine" where
  "demo_engine = Engine_Run.New
     \<lparr>rc_Rules = [\<lparr>r_Name = ''any_approval'', r_Trigger = EventTokenApproval, r_Conditions = [], r_Signal = ''s'',
        r_Confidence = f64_of_int 1, r_MetadataFields = []\<rparr>], rc_Correlations = []\<rparr> demo_cfg demo_tel"

definition demo_round :: round_env where
  "demo_round = \<lparr>ro_rule_gen = demo_gen, ro_corr_gen = demo_gen, ro_clock = (\<lambda>_. 0), ro_wrapped = (\<lambda>_. 0)\<rparr>"

definition demo_system :: "unit system" where
  "demo_system = fresh_system demo_enricher demo_engine 2 1 1 1 1 1 demo_raws"

definition demo_system_run :: "unit sact list" where
  "demo_system_run =
     [On_Service (Subscribe demo_filter), On_Flow Log_Arrives, On_Flow Event_Sent, On_Flow Log_Arrives, On_Flow Event_Sent,
      On_Flow Start_Returns, On_Flow Event_Taken, On_Flow Event_Forwarded, On_Flow Normalizer_Takes, On_Flow Event_Taken,
      On_Flow Event_Forwarded, On_Flow Normalizer_Sends, On_Flow Normalizer_Takes, Worker_Takes 0,
      Worker_Enriches 0 (Inl ()), Worker_Sends 0, Engine_Takes demo_round, Engine_Sends, Engine_Correlates, Emitter_Takes,
      On_Service (Deliver 0)]"

lemmas demo_system_defs = demo_system_def fresh_system_def system_start_def flow_start_def make_chan_def demo_enricher_def
  Enricher.New_def Emitter.start_def NewEmitter_def

lemma demo_normalizes:
  "\<exists>x. processNormalize demo_tel (demo_raw_event EventTokenApproval) = Inr x \<and> EventTy (tr_Value x) = EventTokenApproval"
  "\<exists>err. processNormalize demo_tel (demo_raw_event ''other'') = Inl err"
  by (simp_all add: demo_raw_event_def processNormalize_def demo_tel_def Normalize_eq event_keys_def event_types data_get_def)

lemma demo_engine_signals:
  assumes "EventTy (tr_Value y) = EventTokenApproval"
  shows "\<exists>x. evaluateWithSpan demo_engine demo_round y = [x] \<and> sg_SignalType (tr_Value x) = ''s''"
    "snd (correlateWithSpan demo_engine demo_round c (tr_Value y)) = []"
  using assms
  by (simp_all add: evaluateWithSpan_def demo_engine_def Engine_Run.New_def Evaluate_def matchConditions_iff newSignal_def
      correlateWithSpan_def Process_def NewCorrelator_def Let_def split: prod.split)

lemma demo_filter_passes: "sg_SignalType sig = ''s'' \<Longrightarrow> matchesFilter demo_filter (toProto sig)"
proof -
  have "\<not> f64_of_int 0 < f64_of_int 0" by code_simp
  then show "sg_SignalType sig = ''s'' \<Longrightarrow> matchesFilter demo_filter (toProto sig)"
    by (simp add: matchesFilter_def demo_filter_def toProto_def Let_def split: option.split)
qed

lemma demo_system_reaches:
  "\<exists>s. srun demo_enricher demo_system_run demo_system = Some s \<and> length (sy_rounds s) = 1 \<and> length (sy_emitted s) = 1 \<and>
     length (sv_sent (sy_service s) 0) = 1 \<and> \<not> cancelled s \<and> sy_emitting s \<and> fw_feeder (sy_flow s) = Draining"
proof -
  obtain x where x: "processNormalize demo_tel (demo_raw_event EventTokenApproval) = Inr x" "EventTy (tr_Value x) = EventTokenApproval"
    using demo_normalizes(1) by blast
  obtain err where err: "processNormalize demo_tel (demo_raw_event ''other'') = Inl err" using demo_normalizes(2) by blast
  let ?y = "processEvent demo_tel demo_feeds x (Inl () :: unit + float64)"
  have y: "EventTy (tr_Value ?y) = EventTokenApproval" using x(2) by (simp add: processEvent_def Let_def)
  obtain z where z: "evaluateWithSpan demo_engine demo_round ?y = [z]" "sg_SignalType (tr_Value z) = ''s''"
    using demo_engine_signals(1) [OF y] by blast
  obtain g where g: "correlateWithSpan demo_engine demo_round () (tr_Value ?y) = (g, [])"
    using demo_engine_signals(2) [OF y] by (metis prod.collapse)
  note demo_filter_passes [OF z(2)]
  then show ?thesis
    by (simp add: demo_system_run_def demo_system_defs the_worker_def with_worker_def demo_raws_def x(1) err z(1) g try_recv_def
        try_send_def subscribe_def subscribing_panics_def Emit_def Let_def)
qed

lemma pipeline_is_safe_witness:
  "\<exists>s. srun demo_enricher demo_system_run demo_system = Some s \<and> length (sv_sent (sy_service s) 0) = 1 \<and>
     subseq (sv_sent (sy_service s) 0) (map (toProto \<circ> tr_Value) (sy_emitted s))"
proof -
  obtain s where s: "srun demo_enricher demo_system_run demo_system = Some s" "length (sv_sent (sy_service s) 0) = 1"
    using demo_system_reaches by blast
  from pipeline_is_safe [OF s(1) [unfolded demo_system_def]] show ?thesis using s by blast
qed

end
