(* ===== verification/System_Drains.thy ===== *)
theory System_Drains
  imports System_Run
begin

text \<open>
  The pipeline of \<open>System_Run\<close> when nothing cancels it: it cannot deadlock, every run of its own steps is finite, and
  when the emitter has returned every event that was read from the subscription has been through all the stages and every
  signal has been emitted.
\<close>

section \<open>How the stages close one after the other\<close>

text \<open>A stage that has returned without a cancellation has left nothing behind it.\<close>

definition flow_closed :: "'c flow \<Rightarrow> bool" where
  "flow_closed f \<longleftrightarrow>
     (\<not> is_starting (fw_feeder f) \<longrightarrow> fw_closed f) \<and>
     (fw_feeder f = Exited \<longrightarrow> ch_buf (fw_events f) = []) \<and>
     (fw_raw_closed f \<longrightarrow> fw_feeder f = Exited) \<and>
     (fw_norm f = norm.Returned \<longrightarrow> fw_raw_closed f \<and> ch_buf (fw_raw f) = [])"

lemma flow_closed_step:
  assumes "flow_closed f" "fstep tel a f = Some g" "\<not> fw_cancelled g" "a \<noteq> Enricher_Takes"
  shows "flow_closed g"
proof (cases a)
  case Normalizer_Takes
  then show ?thesis using assms by (auto simp: flow_closed_def split: if_splits option.splits sum.splits)
qed (use assms in \<open>auto simp: flow_closed_def split: feeder.splits option.splits list.splits norm.splits if_splits prod.splits\<close>)

lemma returned_step:
  assumes "fstep tel a f = Some g" "fw_norm f = norm.Returned" "a \<noteq> Enricher_Takes"
  shows "fw_norm g = norm.Returned \<and> fw_chain g = fw_chain f"
  using assms
  by (cases a) (auto split: feeder.splits option.splits list.splits norm.splits if_splits prod.splits)

definition closed_in_order :: "'c system \<Rightarrow> bool" where
  "closed_in_order s \<longleftrightarrow> flow_closed (sy_flow s) \<and>
     (wstate.Returned \<in> set (sy_workers s) \<longrightarrow> fw_norm (sy_flow s) = norm.Returned \<and> ch_buf (fw_chain (sy_flow s)) = []) \<and>
     (sy_pc s = EReturned \<longrightarrow> set (sy_workers s) \<subseteq> {wstate.Returned} \<and> ch_buf (sy_enriched s) = []) \<and>
     (\<not> sy_emitting s \<longrightarrow> sy_pc s = EReturned \<and> ch_buf (sy_signals s) = [])"

text \<open>Until then, what was emitted, is in the last channel and in the engine's hands are all the signals.\<close>

definition all_signals :: "'c Engine \<Rightarrow> 'c system \<Rightarrow> bool" where
  "all_signals eng s \<longleftrightarrow> snd (stage_signals eng (sy_rounds s)) =
     sy_emitted s @ ch_buf (sy_signals s) @ snd (round_end (sy_engine s) (sy_pc s))"

definition lossless :: "'c Engine \<Rightarrow> 'c system \<Rightarrow> bool" where
  "lossless eng s \<longleftrightarrow> accounted eng s \<and> (\<not> cancelled s \<longrightarrow> closed_in_order s \<and> all_signals eng s)"

lemma closed_flow:
  assumes "fstep (en_tel e) b (sy_flow s) = Some f" "b \<noteq> Enricher_Takes" "\<not> fw_cancelled f" "closed_in_order s"
  shows "closed_in_order (s\<lparr>sy_flow := f\<rparr>)"
  using assms flow_closed_step [OF _ assms(1,3,2)] returned_step [OF assms(1) _ assms(2)]
  by (auto simp: closed_in_order_def)

lemma closed_worker:
  assumes "sstep e a s = Some t" "worker_act a = Some i" "\<not> cancelled t" "closed_in_order s"
  shows "closed_in_order t"
proof -
  have upd: "x \<in> set ((sy_workers s)[i := w]) \<Longrightarrow> x = w \<or> x \<in> set (sy_workers s)" for x w
    using set_update_subset_insert [of "sy_workers s" i w] by blast
  have pc: "sy_pc s = EReturned \<Longrightarrow> sy_workers s ! i = wstate.Returned" if "i < length (sy_workers s)"
    using assms(4) nth_mem [OF that] by (auto simp: closed_in_order_def)
  from assms(1,2) show ?thesis
  proof (cases rule: worker_step_cases)
    case (takes x c)
    then have "sy_pc s \<noteq> EReturned" "wstate.Returned \<notin> set (sy_workers s)" using pc assms(4) by (auto simp: closed_in_order_def)
    moreover have "\<not> cancelled s" using takes(5) assms(3) by simp
    ultimately show ?thesis using assms(4) takes(5) by (auto simp: closed_in_order_def flow_closed_def dest!: upd)
  next
    case (enriches x r)
    then have "sy_pc s \<noteq> EReturned" using pc by auto
    then show ?thesis using assms(4) enriches(4) by (auto simp: closed_in_order_def dest!: upd)
  next
    case (sends y)
    then have "sy_pc s \<noteq> EReturned" using pc by auto
    then show ?thesis using assms(4) sends(3) by (auto simp: closed_in_order_def dest!: upd)
  next
    case (gives_up y)
    then show ?thesis using assms(3) by simp
  next
    case done_
    then have "sy_pc s \<noteq> EReturned" using pc by auto
    then show ?thesis using assms(4) done_ by (auto simp: closed_in_order_def dest!: upd)
  qed
qed

lemma closed_behind:
  assumes "sstep e a s = Some t" "worker_act a = None" "\<forall>b. a \<noteq> On_Flow b" "\<not> cancelled t" "closed_in_order s"
  shows "closed_in_order t"
proof -
  have same: "sy_flow t = sy_flow s" "sy_workers t = sy_workers s" using engine_step_enriched [OF assms(1-3)] by auto
  then have c: "\<not> cancelled s" using assms(4) by simp
  from assms(1-3) show ?thesis using assms(5) same c
    by (cases a) (auto simp: worker_act_def closed_in_order_def split: if_splits option.splits eng_pc.splits list.splits prod.splits)
qed

lemma closed_step:
  assumes "sstep e a s = Some t" "\<not> cancelled t" "closed_in_order s"
  shows "closed_in_order t"
  using assms(1)
proof (cases rule: sstep_kinds)
  case (flow b f)
  then show ?thesis using closed_flow [OF flow(3,2) _ assms(3)] assms(2) by simp
next
  case (worker i)
  then show ?thesis using closed_worker assms by blast
next
  case behind
  then show ?thesis using closed_behind assms by blast
qed

lemma all_signals_returned:
  assumes "sstep e a s = Some t" "\<not> cancelled t" "all_signals eng s" "sy_pc t = EReturned"
  shows "all_signals eng t"
proof (cases "worker_act a")
  case (Some i)
  from assms(1) Some show ?thesis using assms(3) by (cases rule: worker_step_cases) (simp_all add: all_signals_def)
next
  case None
  then show ?thesis using assms
    by (cases a) (auto simp: worker_act_def all_signals_def split: if_splits option.splits eng_pc.splits list.splits prod.splits)
qed

lemma lossless_step:
  assumes "lossless eng s" "sstep e a s = Some t"
  shows "lossless eng t"
proof -
  have a: "accounted eng s" "accounted eng t" using assms accounted_step unfolding lossless_def by blast+
  show ?thesis
  proof (cases "cancelled t")
    case False
    then have s: "closed_in_order s" "all_signals eng s"
      using sstep_frame(1) [OF assms(2)] assms(1) unfolding lossless_def by blast+
    have t: "closed_in_order t" by (rule closed_step [OF assms(2) False s(1)])
    have "all_signals eng t"
    proof (cases "sy_pc t = EReturned")
      case True
      then show ?thesis by (rule all_signals_returned [OF assms(2) False s(2)])
    next
      case pc: False
      then have "sy_emitting t" using t by (auto simp: closed_in_order_def)
      then show ?thesis using a(2) pc unfolding all_signals_def accounted_def by blast
    qed
    then show ?thesis using a t by (simp add: lossless_def)
  qed (use a in \<open>simp add: lossless_def\<close>)
qed

lemma srun_lossless:
  assumes "srun e acts (fresh_system e eng n1 n2 n3 n4 n5 n lgs) = Some s"
  shows "lossless eng s"
  using assms
proof (rule srun_invariant)
  show "lossless eng (fresh_system e eng n1 n2 n3 n4 n5 n lgs)"
    by (auto simp: lossless_def accounted_def closed_in_order_def flow_closed_def all_signals_def fresh_system_simps
        make_chan_def flow_start_def)
qed (rule lossless_step)

section \<open>Nothing is lost\<close>

lemma subseq_same_mset: "subseq xs ys \<Longrightarrow> mset xs = mset ys \<Longrightarrow> xs = ys"
  by (metis mset_eq_length subseq_same_length)

text \<open>C3. Without a cancellation nothing is lost: when the emitter has returned, the events the engine has worked on are, up
  to their order and with one worker also in their order, exactly the events that were read from the subscription and could
  be normalized, and the signals emitted are exactly the ones that the rules and the correlator give for them.\<close>

theorem pipeline_loses_nothing:
  assumes "srun e acts (fresh_system e eng n1 n2 n3 n4 n5 n lgs) = Some s"
    and "\<not> cancelled s" "\<not> sy_emitting s" "0 < en_workers e"
  shows "\<exists>taken. lgs = taken @ fw_logs (sy_flow s) \<and>
    mset (map (out_key \<circ> snd) (sy_rounds s)) = mset (map in_key (normalized (en_tel e) taken)) \<and>
    (en_workers e = 1 \<longrightarrow> map (out_key \<circ> snd) (sy_rounds s) = map in_key (normalized (en_tel e) taken)) \<and>
    sy_emitted s = snd (stage_signals eng (sy_rounds s))"
proof -
  have l: "closed_in_order s" "all_signals eng s" using srun_lossless [OF assms(1)] assms(2) by (simp_all add: lossless_def)
  have c: "mset (in_transit e s) = mset (map in_key (normalized (en_tel e) lgs))"
    "en_workers e = 1 \<longrightarrow> subseq (in_transit e s) (map in_key (normalized (en_tel e) lgs))"
    "length (sy_workers s) = nat (en_workers e)" "\<exists>d. lgs = d @ fw_logs (sy_flow s)"
    using srun_conserved [OF assms(1)] assms(2) unfolding conserved_def by blast+
  obtain taken where taken: "lgs = taken @ fw_logs (sy_flow s)" using c(4) by blast
  have eng: "sy_pc s = EReturned" "ch_buf (sy_signals s) = []" "set (sy_workers s) \<subseteq> {wstate.Returned}" "ch_buf (sy_enriched s) = []"
    using l(1) assms(3) by (auto simp: closed_in_order_def)
  have "sy_workers s \<noteq> []" using c(3) assms(4) by auto
  then have "wstate.Returned \<in> set (sy_workers s)" using eng(3) by (cases "sy_workers s") auto
  then have flow: "fw_norm (sy_flow s) = norm.Returned" "ch_buf (fw_chain (sy_flow s)) = []" "flow_closed (sy_flow s)"
    using l(1) by (auto simp: closed_in_order_def)
  then have "raw_in_flow (sy_flow s) = fw_logs (sy_flow s)" by (simp add: raw_in_flow_def flow_closed_def)
  moreover have "concat (map held (sy_workers s)) = []" using eng(3) by auto
  ultimately have t: "in_transit e s = map (out_key \<circ> snd) (sy_rounds s) @ map in_key (normalized (en_tel e) (fw_logs (sy_flow s)))"
    using flow eng by (simp add: in_transit_def flow_keys_def)
  have k: "map in_key (normalized (en_tel e) lgs) =
    map in_key (normalized (en_tel e) taken) @ map in_key (normalized (en_tel e) (fw_logs (sy_flow s)))"
    by (subst taken) simp
  have m: "mset (map (out_key \<circ> snd) (sy_rounds s)) = mset (map in_key (normalized (en_tel e) taken))"
    using c(1) unfolding t k mset_append by simp
  have "en_workers e = 1 \<longrightarrow> map (out_key \<circ> snd) (sy_rounds s) = map in_key (normalized (en_tel e) taken)"
    using c(2) m subseq_same_mset unfolding t k subseq_append by blast
  moreover have "sy_emitted s = snd (stage_signals eng (sy_rounds s))" using l(2) eng by (simp add: all_signals_def)
  ultimately show ?thesis using taken m by blast
qed

section \<open>No deadlock\<close>

text \<open>The steps of the pipeline's own goroutines, with any answer of the provider and any clock.\<close>

definition own_step :: "'e sact \<Rightarrow> bool" where
  "own_step a \<longleftrightarrow> (\<forall>b. a \<noteq> On_Service b) \<and> a \<noteq> On_Flow Signal_Received"

definition has_room :: "'c system \<Rightarrow> bool" where
  "has_room s \<longleftrightarrow> 0 < ch_cap (fw_raw (sy_flow s)) \<and> 0 < ch_cap (fw_chain (sy_flow s)) \<and> 0 < ch_cap (sy_enriched s) \<and>
     0 < ch_cap (sy_signals s)"

lemma fstep_caps: "fstep tel a f = Some g \<Longrightarrow> ch_cap (fw_raw g) = ch_cap (fw_raw f) \<and> ch_cap (fw_chain g) = ch_cap (fw_chain f)"
  by (cases a) (auto split: feeder.splits option.splits list.splits norm.splits if_splits prod.splits)

lemma has_room_step:
  assumes "sstep e a s = Some t" "has_room s"
  shows "has_room t"
proof (cases "worker_act a")
  case (Some i)
  from assms(1) Some show ?thesis using assms(2) by (cases rule: worker_step_cases) (simp_all add: has_room_def)
next
  case None
  then show ?thesis using assms fstep_caps [of "en_tel e"]
    by (cases a) (auto simp: worker_act_def has_room_def split: if_splits option.splits eng_pc.splits list.splits prod.splits)
qed

text \<open>The stage that can step, from the last to the first: if none behind it can, a stage is not blocked by a full channel.\<close>

lemma emitter_or_engine_steps:
  assumes "sy_emitting s" "has_room s" "sy_pc s \<noteq> EReceiving \<or> ch_buf (sy_signals s) \<noteq> []"
  shows "\<exists>(a :: 'e sact) t. own_step a \<and> sstep e a s = Some t"
proof (cases "ch_buf (sy_signals s)")
  case (Cons x xs)
  then have "\<exists>t. sstep e (Emitter_Takes :: 'e sact) s = Some t" using assms(1) by (simp add: try_recv_def)
  then show ?thesis by (auto simp: own_step_def intro: exI [of _ Emitter_Takes])
next
  case Nil
  then have room: "try_send x (sy_signals s) \<noteq> None" for x using assms(2) by (simp add: has_room_def)
  have "\<exists>t. sstep e (if sy_pc s = EReturned then Emitter_Ends else if sy_pc s = ECorr [] then Engine_Next
      else if \<exists>ro y. sy_pc s = ERules ro y [] then Engine_Correlates else Engine_Sends :: 'e sact) s = Some t"
    using assms(1,3) Nil room by (cases "sy_pc s") (auto simp: neq_Nil_conv split: list.splits prod.splits option.splits)
  then show ?thesis by (auto simp: own_step_def split: if_splits)
qed

lemma worker_steps:
  assumes "i < length (sy_workers s)" "sy_workers s ! i \<noteq> wstate.Returned" "ch_buf (sy_enriched s) = []" "has_room s"
    and "sy_workers s ! i = Idle \<Longrightarrow> ch_buf (fw_chain (sy_flow s)) \<noteq> [] \<or> fw_norm (sy_flow s) = norm.Returned"
  shows "\<exists>(a :: 'e sact) t. own_step a \<and> sstep e a s = Some t"
proof (cases "sy_workers s ! i")
  case Idle
  show ?thesis
  proof (cases "ch_buf (fw_chain (sy_flow s))")
    case Nil
    then have "\<exists>t. sstep e (Worker_Quits i :: 'e sact) s = Some t" using Idle assms(1,5) by (simp add: the_worker_def)
    then show ?thesis by (auto simp: own_step_def intro: exI [of _ "Worker_Quits i"])
  next
    case (Cons x xs)
    then have "\<exists>t. sstep e (Worker_Takes i :: 'e sact) s = Some t" using Idle assms(1) by (simp add: the_worker_def try_recv_def)
    then show ?thesis by (auto simp: own_step_def intro: exI [of _ "Worker_Takes i"])
  qed
next
  case (Got x)
  then have "\<exists>t. sstep e (Worker_Enriches i r :: 'e sact) s = Some t" for r using assms(1) by (simp add: the_worker_def)
  then show ?thesis by (auto simp: own_step_def intro: exI [of _ "Worker_Enriches i (Inr (f64_of_int 0))"])
next
  case (Ready y)
  then have "\<exists>t. sstep e (Worker_Sends i :: 'e sact) s = Some t" using assms(1,3,4)
    by (simp add: the_worker_def has_room_def try_send_def)
  then show ?thesis by (auto simp: own_step_def intro: exI [of _ "Worker_Sends i"])
qed (use assms(2) in simp)

lemma flow_steps:
  assumes "flow_closed f" "\<not> is_starting (fw_feeder f)" "ch_buf (fw_chain f) = []" "fw_norm f \<noteq> norm.Returned"
    "0 < ch_cap (fw_raw f)" "0 < ch_cap (fw_chain f)"
  shows "\<exists>b g. fstep tel b f = Some g \<and> b \<noteq> Enricher_Takes \<and> b \<noteq> Signal_Received"
proof (cases "fw_norm f")
  case (Sending y)
  then have "\<exists>g. fstep tel Normalizer_Sends f = Some g" using assms(3,6) by (simp add: try_send_def)
  then show ?thesis by blast
next
  case Receiving
  show ?thesis
  proof (cases "ch_buf (fw_raw f)")
    case (Cons x xs)
    then have "\<exists>g. fstep tel Normalizer_Takes f = Some g" using Receiving by (simp add: try_recv_def)
    then show ?thesis by blast
  next
    case raw: Nil
    have "\<exists>b g. fstep tel b f = Some g \<and> b \<in> {Event_Taken, Feeder_Exits, Event_Forwarded, Raw_Closed, Normalizer_Ends}"
    proof (cases "fw_feeder f")
      case (Starting p)
      then show ?thesis using assms(2) by simp
    next
      case Draining
      then have "(\<exists>g. fstep tel Feeder_Exits f = Some g) \<or> (\<exists>g. fstep tel Event_Taken f = Some g)"
        using assms(1) by (cases "ch_buf (fw_events f)") (simp_all add: flow_closed_def try_recv_def)
      then show ?thesis by blast
    next
      case (Forwarding x)
      then have "\<exists>g. fstep tel Event_Forwarded f = Some g" using raw assms(5) by (simp add: try_send_def)
      then show ?thesis by blast
    next
      case Exited
      then have "(\<exists>g. fstep tel Normalizer_Ends f = Some g) \<or> (\<exists>g. fstep tel Raw_Closed f = Some g)"
        using raw Receiving by simp
      then show ?thesis by blast
    qed
    then show ?thesis by blast
  qed
qed (use assms(4) in simp)

lemma some_step:
  assumes "closed_in_order s" "has_room s" "sy_emitting s" "\<not> is_starting (fw_feeder (sy_flow s))"
  shows "\<exists>(a :: 'e sact) t. own_step a \<and> sstep e a s = Some t"
proof (cases "sy_pc s \<noteq> EReceiving \<or> ch_buf (sy_signals s) \<noteq> []")
  case True
  then show ?thesis using emitter_or_engine_steps [OF assms(3,2)] by blast
next
  case pc: False
  show ?thesis
  proof (cases "ch_buf (sy_enriched s)")
    case (Cons y ys)
    then have "\<exists>t. sstep e (Engine_Takes ro :: 'e sact) s = Some t" for ro using pc by (simp add: try_recv_def)
    then show ?thesis by (auto simp: own_step_def intro: exI [of _ "Engine_Takes undefined"])
  next
    case enriched: Nil
    show ?thesis
    proof (cases "\<forall>w\<in>set (sy_workers s). w = wstate.Returned")
      case True
      then have "\<exists>t. sstep e (Engine_Ends :: 'e sact) s = Some t" using pc enriched by simp
      then show ?thesis by (auto simp: own_step_def intro: exI [of _ Engine_Ends])
    next
      case False
      then obtain i where i: "i < length (sy_workers s)" "sy_workers s ! i \<noteq> wstate.Returned" by (metis in_set_conv_nth)
      show ?thesis
      proof (cases "ch_buf (fw_chain (sy_flow s)) = [] \<and> fw_norm (sy_flow s) \<noteq> norm.Returned")
        case True
        then obtain b g where b: "fstep (en_tel e) b (sy_flow s) = Some g" "b \<noteq> Enricher_Takes" "b \<noteq> Signal_Received"
          using flow_steps [of "sy_flow s" "en_tel e"] assms(1,2,4) by (auto simp: closed_in_order_def has_room_def)
        then have "\<exists>t. sstep e (On_Flow b :: 'e sact) s = Some t" by simp
        then show ?thesis using b(3) by (auto simp: own_step_def intro: exI [of _ "On_Flow b"])
      next
        case False
        then show ?thesis using worker_steps [OF i enriched assms(2)] by blast
      qed
    qed
  qed
qed

section \<open>Every run ends\<close>

fun worker_work :: "'c wstate \<Rightarrow> nat" where
  "worker_work Idle = 1"
| "worker_work (Got x) = 8"
| "worker_work (Ready y) = 7"
| "worker_work wstate.Returned = 0"

fun pc_work :: "'c eng_pc \<Rightarrow> nat" where
  "pc_work (ERules ro y xs) = 4"
| "pc_work (ECorr xs) = 3"
| "pc_work EReceiving = 1"
| "pc_work EReturned = 0"

fun in_hand :: "'c eng_pc \<Rightarrow> nat" where
  "in_hand (ERules ro y xs) = length xs"
| "in_hand (ECorr xs) = length xs"
| "in_hand _ = 0"

text \<open>First the work on events, then the sends of signals.\<close>

definition event_work :: "'c system \<Rightarrow> nat" where
  "event_work s = 10 * flow_work (sy_flow s) + sum_list (map worker_work (sy_workers s)) +
     4 * length (ch_buf (sy_enriched s)) + pc_work (sy_pc s)"

definition signal_work :: "'c system \<Rightarrow> nat" where
  "signal_work s = 2 * in_hand (sy_pc s) + length (ch_buf (sy_signals s)) + (if sy_emitting s then 1 else 0)"

lemma sum_worker_work:
  "i < length ws \<Longrightarrow> sum_list (map worker_work (ws[i := w])) + worker_work (ws ! i) = sum_list (map worker_work ws) + worker_work w"
proof (induction ws arbitrary: i)
  case (Cons v ws)
  then show ?case by (cases i) auto
qed simp

lemma worker_step_work:
  assumes "sstep e a s = Some t" "worker_act a = Some i"
  shows "event_work t < event_work s"
  using assms
proof (cases rule: worker_step_cases)
  case (takes x c)
  have "flow_work ((sy_flow s)\<lparr>fw_chain := c\<rparr>) + 1 = flow_work (sy_flow s)" using takes(3) by (simp add: flow_work_def)
  then show ?thesis
    using sum_worker_work [OF takes(1), of "if cancelled s then wstate.Returned else Got x"] takes(2,5)
    by (cases "cancelled s") (simp_all add: event_work_def)
next
  case (enriches x r)
  then show ?thesis using sum_worker_work [OF enriches(1), of "Ready (processEvent (en_tel e) (en_reg e) x r)"]
    by (simp add: event_work_def)
next
  case (sends y)
  then show ?thesis using sum_worker_work [OF sends(1), of Idle] by (simp add: event_work_def)
next
  case (gives_up y)
  then show ?thesis using sum_worker_work [OF gives_up(1), of wstate.Returned] by (simp add: event_work_def)
next
  case done_
  then show ?thesis using sum_worker_work [OF done_(1), of wstate.Returned] by (simp add: event_work_def)
qed

definition progress :: "('c system \<times> 'c system) set" where
  "progress = inv_image (less_than <*lex*> less_than) (\<lambda>s. (event_work s, signal_work s))"

lemma wf_progress: "wf progress"
  by (simp add: progress_def wf_lex_prod)

lemma progressI:
  "event_work t < event_work s \<or> event_work t = event_work s \<and> signal_work t < signal_work s \<Longrightarrow> (t, s) \<in> progress"
  by (auto simp: progress_def)

lemma own_step_progress:
  assumes "sstep e a s = Some t" "own_step a"
  shows "(t, s) \<in> progress"
  using assms(1)
proof (cases rule: sstep_kinds)
  case (flow b f)
  have "flow_work f < flow_work (sy_flow s)" using flow_work_step [OF flow(3)] assms(2) flow(1) by (auto simp: own_step_def)
  then show ?thesis by (intro progressI) (simp add: event_work_def flow(4))
next
  case (worker i)
  then show ?thesis using worker_step_work [OF assms(1)] by (intro progressI) simp
next
  case behind
  show ?thesis
  proof (rule progressI)
    show "event_work t < event_work s \<or> event_work t = event_work s \<and> signal_work t < signal_work s"
      using assms behind
      by (cases a) (auto simp: worker_act_def own_step_def event_work_def signal_work_def
          split: if_splits option.splits eng_pc.splits list.splits prod.splits)
  qed
qed

lemma no_infinite_own_run:
  "\<not> (\<exists>run. \<forall>i. \<exists>a :: 'e sact. own_step a \<and> sstep e a (run i) = Some (run (Suc i)))"
proof
  assume "\<exists>run. \<forall>i. \<exists>a :: 'e sact. own_step a \<and> sstep e a (run i) = Some (run (Suc i))"
  then obtain run where r: "\<forall>i. \<exists>a :: 'e sact. own_step a \<and> sstep e a (run i) = Some (run (Suc i))" by blast
  have "\<forall>i. (run (Suc i), run i) \<in> progress"
  proof
    fix i
    from r obtain a :: "'e sact" where "own_step a" "sstep e a (run i) = Some (run (Suc i))" by blast
    then show "(run (Suc i), run i) \<in> progress" by (rule own_step_progress [rotated])
  qed
  then show False using wf_progress unfolding wf_iff_no_infinite_down_chain by blast
qed

text \<open>What stays true as long as no signal cancels the context.\<close>

definition draining :: "'c system \<Rightarrow> bool" where
  "draining s \<longleftrightarrow> closed_in_order s \<and> has_room s \<and> \<not> cancelled s \<and> \<not> is_starting (fw_feeder (sy_flow s))"

lemma fstep_started:
  "fstep tel a f = Some g \<Longrightarrow> \<not> is_starting (fw_feeder f) \<Longrightarrow> a \<noteq> Signal_Received \<Longrightarrow>
   \<not> is_starting (fw_feeder g) \<and> fw_cancelled g = fw_cancelled f"
  by (cases a) (auto split: feeder.splits option.splits list.splits norm.splits if_splits prod.splits)

lemma draining_step:
  assumes "sstep e a s = Some t" "draining s" "a \<noteq> On_Flow Signal_Received"
  shows "draining t"
proof -
  have "cancelled t = cancelled s \<and> \<not> is_starting (fw_feeder (sy_flow t))"
    using assms(1)
  proof (cases rule: sstep_kinds)
    case (flow b f)
    then show ?thesis using fstep_started [OF flow(3)] assms(2,3) by (auto simp: draining_def)
  next
    case (worker i)
    from assms(1) worker show ?thesis using assms(2) by (cases rule: worker_step_cases) (auto simp: draining_def)
  next
    case behind
    then show ?thesis using engine_step_enriched [OF assms(1) behind] assms(2) by (simp add: draining_def)
  qed
  then show ?thesis using assms(2) closed_step [OF assms(1)] has_room_step [OF assms(1)] by (simp add: draining_def)
qed

lemma draining_run:
  "srun e acts s = Some t \<Longrightarrow> draining s \<Longrightarrow> On_Flow Signal_Received \<notin> set acts \<Longrightarrow> draining t"
proof (induction acts arbitrary: s)
  case (Cons a acts)
  then obtain u where u: "sstep e a s = Some u" "srun e acts u = Some t" by (auto split: option.splits)
  have "draining u" using draining_step [OF u(1) Cons.prems(2)] Cons.prems(3) by auto
  then show ?case using Cons.IH [OF u(2)] Cons.prems(3) by simp
qed simp

lemma draining_finishes:
  "draining s \<Longrightarrow> \<exists>(acts :: 'e sact list) t. srun e acts s = Some t \<and> (\<forall>a\<in>set acts. own_step a) \<and> \<not> sy_emitting t"
proof (induction s rule: wf_induct_rule [OF wf_progress])
  case (1 s)
  show ?case
  proof (cases "sy_emitting s")
    case False
    then show ?thesis by (intro exI [of _ "[]"]) simp
  next
    case True
    then obtain a :: "'e sact" and u where u: "own_step a" "sstep e a s = Some u"
      using some_step [of s e] 1(2) unfolding draining_def by blast
    have "draining u" using draining_step [OF u(2) 1(2)] u(1) by (simp add: own_step_def)
    from 1(1) [OF own_step_progress [OF u(2,1)] this] obtain acts :: "'e sact list" and t where
      "srun e acts u = Some t" "\<forall>a\<in>set acts. own_step a" "\<not> sy_emitting t" by blast
    then show ?thesis using u by (intro exI [of _ "a # acts"] exI [of _ t]) simp
  qed
qed

lemma has_room_run:
  assumes "srun e acts (fresh_system e eng n1 n2 n3 n4 n5 n lgs) = Some s" "0 < n2" "0 < n3" "0 < n4" "0 < n5"
  shows "has_room s"
  using assms(1)
proof (rule srun_invariant)
  show "has_room (fresh_system e eng n1 n2 n3 n4 n5 n lgs)"
    using assms(2-) by (simp add: has_room_def fresh_system_simps flow_start_def make_chan_def)
qed (rule has_room_step)

text \<open>C4. The pipeline drains. From every state that the pipeline reaches once \<open>Start\<close> has returned, as long as no signal comes:
  its goroutines cannot go on stepping for ever; whatever they and the clients do next, some goroutine can step until the
  emitter has returned, so there is no deadlock whatever the sizes of the buffers; and the emitter can return.\<close>

theorem pipeline_always_drains:
  fixes acts :: "'e sact list"
  assumes "srun e acts (fresh_system e eng n1 n2 n3 n4 n5 n lgs) = Some s"
    and "\<not> cancelled s" "\<not> is_starting (fw_feeder (sy_flow s))" "0 < n2" "0 < n3" "0 < n4" "0 < n5"
  shows "\<not> (\<exists>run. run 0 = s \<and> (\<forall>i. \<exists>a :: 'e sact. own_step a \<and> sstep e a (run i) = Some (run (Suc i)))) \<and>
    (\<forall>(more :: 'e sact list) t. srun e more s = Some t \<longrightarrow> On_Flow Signal_Received \<notin> set more \<longrightarrow> sy_emitting t \<longrightarrow>
       (\<exists>(a :: 'e sact) u. own_step a \<and> sstep e a t = Some u)) \<and>
    (\<exists>(more :: 'e sact list) t. srun e more s = Some t \<and> (\<forall>a\<in>set more. own_step a) \<and> \<not> sy_emitting t)"
proof (intro conjI allI impI)
  have d: "draining s"
    using srun_lossless [OF assms(1)] has_room_run [OF assms(1,4-7)] assms(2,3) by (simp add: draining_def lossless_def)
  show "\<not> (\<exists>run. run 0 = s \<and> (\<forall>i. \<exists>a :: 'e sact. own_step a \<and> sstep e a (run i) = Some (run (Suc i))))"
    using no_infinite_own_run [of e] by blast
  show "\<exists>(more :: 'e sact list) t. srun e more s = Some t \<and> (\<forall>a\<in>set more. own_step a) \<and> \<not> sy_emitting t"
    by (rule draining_finishes [OF d])
  fix more :: "'e sact list" and t
  assume "srun e more s = Some t" "On_Flow Signal_Received \<notin> set more" "sy_emitting t"
  then show "\<exists>(a :: 'e sact) u. own_step a \<and> sstep e a t = Some u"
    using draining_run [OF _ d] some_step [of t e] unfolding draining_def by blast
qed

section \<open>Stopping\<close>

text \<open>All the pipeline's goroutines have returned.\<close>

definition stopped :: "'c system \<Rightarrow> bool" where
  "stopped s \<longleftrightarrow> fw_feeder (sy_flow s) = Exited \<and> fw_norm (sy_flow s) = norm.Returned \<and>
     set (sy_workers s) \<subseteq> {wstate.Returned} \<and> sy_pc s = EReturned \<and> \<not> sy_emitting s"

lemma cancelled_stage_steps:
  assumes "cancelled s" "fw_norm (sy_flow s) = norm.Returned"
    and "\<not> set (sy_workers s) \<subseteq> {wstate.Returned} \<or> sy_pc s \<noteq> EReturned \<or> sy_emitting s"
  shows "\<exists>(a :: 'e sact) t. own_step a \<and> sstep e a s = Some t"
proof -
  consider (worker) i where "i < length (sy_workers s)" "sy_workers s ! i \<noteq> wstate.Returned"
    | (engine) "set (sy_workers s) \<subseteq> {wstate.Returned}" "sy_pc s \<noteq> EReturned"
    | (emitter) "sy_pc s = EReturned" "sy_emitting s"
    using assms(3) by (metis in_set_conv_nth singletonI subsetI)
  then show ?thesis
  proof cases
    case worker
    show ?thesis
    proof (cases "sy_workers s ! i")
      case (Ready y)
      then have "\<exists>t. sstep e (Worker_Quits i :: 'e sact) s = Some t" using worker assms(1) by (simp add: the_worker_def)
      then show ?thesis by (auto simp: own_step_def intro: exI [of _ "Worker_Quits i"])
    next
      case (Got x)
      then have "\<exists>t. sstep e (Worker_Enriches i r :: 'e sact) s = Some t" for r using worker by (simp add: the_worker_def)
      then show ?thesis by (auto simp: own_step_def intro: exI [of _ "Worker_Enriches i (Inr (f64_of_int 0))"])
    next
      case Idle
      have "(\<exists>t. sstep e (Worker_Takes i :: 'e sact) s = Some t) \<or> (\<exists>t. sstep e (Worker_Quits i :: 'e sact) s = Some t)"
        using worker Idle assms(2) by (cases "ch_buf (fw_chain (sy_flow s))") (simp_all add: the_worker_def try_recv_def)
      then show ?thesis by (auto simp: own_step_def intro: exI [of _ "Worker_Takes i"] exI [of _ "Worker_Quits i"])
    qed (use worker in simp)
  next
    case engine
    show ?thesis
    proof (cases "sy_pc s")
      case EReceiving
      have "(\<exists>t. sstep e (Engine_Takes undefined :: 'e sact) s = Some t) \<or> (\<exists>t. sstep e (Engine_Ends :: 'e sact) s = Some t)"
        using EReceiving engine(1) by (cases "ch_buf (sy_enriched s)") (auto simp: try_recv_def)
      then show ?thesis by (auto simp: own_step_def intro: exI [of _ "Engine_Takes undefined"] exI [of _ Engine_Ends])
    next
      case (ERules ro y xs)
      have "\<exists>t. sstep e (if xs = [] then Engine_Correlates else Engine_Aborts :: 'e sact) s = Some t"
        using ERules assms(1) by (cases xs) (simp_all split: prod.split)
      then show ?thesis by (auto simp: own_step_def split: if_splits)
    next
      case (ECorr xs)
      have "\<exists>t. sstep e (if xs = [] then Engine_Next else Engine_Aborts :: 'e sact) s = Some t"
        using ECorr assms(1) by (cases xs) simp_all
      then show ?thesis by (auto simp: own_step_def split: if_splits)
    qed (use engine in simp)
  next
    case emitter
    have "(\<exists>t. sstep e (Emitter_Takes :: 'e sact) s = Some t) \<or> (\<exists>t. sstep e (Emitter_Ends :: 'e sact) s = Some t)"
      using emitter by (cases "ch_buf (sy_signals s)") (simp_all add: try_recv_def)
    then show ?thesis by (auto simp: own_step_def intro: exI [of _ Emitter_Takes] exI [of _ Emitter_Ends])
  qed
qed

text \<open>The flow of the system satisfies the invariant of \<open>Adapter_Flow\<close>.\<close>

lemma sstep_flow:
  assumes "sstep e a s = Some t"
  shows "sy_flow t = sy_flow s \<or> (\<exists>b. fstep (en_tel e) b (sy_flow s) = Some (sy_flow t))"
  using assms
proof (cases rule: sstep_kinds)
  case (worker i)
  from assms worker show ?thesis
  proof (cases rule: worker_step_cases)
    case (takes x c)
    then have "fstep (en_tel e) Enricher_Takes (sy_flow s) = Some (sy_flow t)" by (cases c) (simp add: try_recv_def)
    then show ?thesis by blast
  qed simp_all
next
  case behind
  then show ?thesis using engine_step_enriched [OF assms behind] by blast
qed auto

lemma flow_inv_run:
  assumes "srun e acts s = Some t" "flow_inv n m (sy_flow s)"
  shows "flow_inv n m (sy_flow t)"
  using assms
proof (rule srun_invariant)
  fix a u v assume "flow_inv n m (sy_flow u)" "sstep e a u = Some v"
  then show "flow_inv n m (sy_flow v)" using sstep_flow [of e a u v] flow_inv_step by fastforce
qed

lemma stopping_step:
  assumes "flow_inv n m (sy_flow s)" "n \<le> m + 1" "0 < m" "cancelled s" "\<not> stopped s"
  shows "\<exists>(a :: 'e sact) t. own_step a \<and> sstep e a s = Some t"
proof (cases "\<forall>b\<in>own_acts. fstep (en_tel e) b (sy_flow s) = None")
  case True
  then have "fw_feeder (sy_flow s) = Exited" "fw_norm (sy_flow s) = norm.Returned"
    using cancelled_progress [OF assms(1-4)] by simp_all
  then show ?thesis using cancelled_stage_steps [OF assms(4)] assms(5) unfolding stopped_def by blast
next
  case False
  then obtain b f where b: "b \<in> own_acts" "fstep (en_tel e) b (sy_flow s) = Some f" by auto
  then have "sstep e (On_Flow b :: 'e sact) s = Some (s\<lparr>sy_flow := f\<rparr>)" "own_step (On_Flow b :: 'e sact)"
    by (auto simp: own_acts_def own_step_def)
  then show ?thesis by blast
qed

lemma stopping_finishes:
  "flow_inv n m (sy_flow s) \<Longrightarrow> n \<le> m + 1 \<Longrightarrow> 0 < m \<Longrightarrow> cancelled s \<Longrightarrow>
   \<exists>(acts :: 'e sact list) t. srun e acts s = Some t \<and> (\<forall>a\<in>set acts. own_step a) \<and> stopped t"
proof (induction s rule: wf_induct_rule [OF wf_progress])
  case (1 s)
  show ?case
  proof (cases "stopped s")
    case True
    then show ?thesis by (intro exI [of _ "[]"]) simp
  next
    case False
    from stopping_step [OF 1(2-5) this] obtain a :: "'e sact" and u where u: "own_step a" "sstep e a s = Some u" by blast
    have "flow_inv n m (sy_flow u)" "cancelled u"
      using flow_inv_run [of e "[a]" s u] u(2) 1(2) sstep_frame(1) [OF u(2) 1(5)] by simp_all
    from 1(1) [OF own_step_progress [OF u(2,1)] this(1) 1(3,4) this(2)] obtain acts :: "'e sact list" and t where
      "srun e acts u = Some t" "\<forall>a\<in>set acts. own_step a" "stopped t" by blast
    then show ?thesis using u by (intro exI [of _ "a # acts"] exI [of _ t]) simp
  qed
qed

lemma fresh_flow_inv:
  assumes "srun e acts (fresh_system e eng n1 n2 n3 n4 n5 n lgs) = Some s"
  shows "flow_inv (nat n1) (nat n2) (sy_flow s)"
  by (rule flow_inv_run [OF assms]) (simp add: fresh_system_simps flow_inv_def flow_start_def make_chan_def)

text \<open>C25. After a signal the pipeline stops, when \<open>event_buffer\<close> is at most one above \<open>raw_event_buffer\<close> and whatever the
  other sizes: its goroutines cannot go on stepping for ever, some of them can step until all have returned, and they can
  all return. Events and signals under way are dropped, and no stage waits for another to make room.\<close>

theorem pipeline_stops_after_signal:
  fixes acts :: "'e sact list"
  assumes "srun e acts (fresh_system e eng n1 n2 n3 n4 n5 n lgs) = Some s" "cancelled s"
    and "nat n1 \<le> nat n2 + 1" "0 < n2"
  shows "\<not> (\<exists>run. run 0 = s \<and> (\<forall>i. \<exists>a :: 'e sact. own_step a \<and> sstep e a (run i) = Some (run (Suc i)))) \<and>
    (\<forall>(more :: 'e sact list) t. srun e more s = Some t \<longrightarrow> \<not> stopped t \<longrightarrow>
       (\<exists>(a :: 'e sact) u. own_step a \<and> sstep e a t = Some u)) \<and>
    (\<exists>(more :: 'e sact list) t. srun e more s = Some t \<and> (\<forall>a\<in>set more. own_step a) \<and> stopped t)"
proof (intro conjI allI impI)
  have m: "0 < nat n2" using assms(4) by simp
  note inv = fresh_flow_inv [OF assms(1)]
  show "\<not> (\<exists>run. run 0 = s \<and> (\<forall>i. \<exists>a :: 'e sact. own_step a \<and> sstep e a (run i) = Some (run (Suc i))))"
    using no_infinite_own_run [of e] by blast
  show "\<exists>(more :: 'e sact list) t. srun e more s = Some t \<and> (\<forall>a\<in>set more. own_step a) \<and> stopped t"
    by (rule stopping_finishes [OF inv assms(3) m assms(2)])
  fix more :: "'e sact list" and t
  assume t: "srun e more s = Some t" "\<not> stopped t"
  have "cancelled t" using t(1) assms(2) by (rule srun_invariant) (rule sstep_frame(1))
  then show "\<exists>(a :: 'e sact) u. own_step a \<and> sstep e a t = Some u"
    using stopping_step [OF flow_inv_run [OF t(1) inv] assms(3) m] t(2) by blast
qed

section \<open>Examples\<close>

lemma pipeline_always_drains_witness:
  "\<exists>s (more :: unit sact list) t. srun demo_enricher demo_system_run demo_system = Some s \<and> srun demo_enricher more s = Some t \<and>
     \<not> sy_emitting t \<and> \<not> cancelled s"
proof -
  obtain s where s: "srun demo_enricher demo_system_run demo_system = Some s" "\<not> cancelled s" "fw_feeder (sy_flow s) = Draining"
    using demo_system_reaches by blast
  have "\<not> is_starting (fw_feeder (sy_flow s))" "(0::int) < 1" using s(3) by simp_all
  from pipeline_always_drains [OF s(1) [unfolded demo_system_def] s(2) this(1) this(2,2,2,2)] show ?thesis using s by blast
qed

definition demo_drained_run :: "unit sact list" where
  "demo_drained_run =
     [On_Flow Log_Arrives, On_Flow Event_Sent, On_Flow Start_Returns, On_Flow Event_Taken, On_Flow Event_Forwarded,
      On_Flow Normalizer_Takes, On_Flow Normalizer_Sends, Worker_Takes 0, Worker_Enriches 0 (Inl ()), Worker_Sends 0,
      Engine_Takes demo_round, Engine_Sends, Engine_Correlates, Engine_Next, Emitter_Takes, On_Flow Feeder_Exits,
      On_Flow Raw_Closed, On_Flow Normalizer_Ends, Worker_Quits 0, Engine_Ends, Emitter_Ends]"

lemma demo_drains:
  "\<exists>s. srun demo_enricher demo_drained_run demo_system = Some s \<and> \<not> cancelled s \<and> \<not> sy_emitting s \<and>
     fw_logs (sy_flow s) = [demo_raw_event ''other''] \<and> length (sy_emitted s) = 1"
proof -
  obtain x where x: "processNormalize demo_tel (demo_raw_event EventTokenApproval) = Inr x" "EventTy (tr_Value x) = EventTokenApproval"
    using demo_normalizes(1) by blast
  let ?y = "processEvent demo_tel demo_feeds x (Inl () :: unit + float64)"
  have y: "EventTy (tr_Value ?y) = EventTokenApproval" using x(2) by (simp add: processEvent_def Let_def)
  obtain z where z: "evaluateWithSpan demo_engine demo_round ?y = [z]" using demo_engine_signals(1) [OF y] by blast
  obtain g where g: "correlateWithSpan demo_engine demo_round () (tr_Value ?y) = (g, [])"
    using demo_engine_signals(2) [OF y] by (metis prod.collapse)
  show ?thesis
    by (simp add: demo_drained_run_def demo_system_defs the_worker_def with_worker_def demo_raws_def x(1) z g try_recv_def
        try_send_def Let_def)
qed

lemma pipeline_loses_nothing_witness:
  "\<exists>s. srun demo_enricher demo_drained_run demo_system = Some s \<and> length (sy_emitted s) = 1 \<and>
     sy_emitted s = snd (stage_signals demo_engine (sy_rounds s)) \<and>
     map (out_key \<circ> snd) (sy_rounds s) = map in_key (normalized demo_tel [demo_raw_event EventTokenApproval])"
proof -
  obtain s where s: "srun demo_enricher demo_drained_run demo_system = Some s" "\<not> cancelled s" "\<not> sy_emitting s"
    "fw_logs (sy_flow s) = [demo_raw_event ''other'']" "length (sy_emitted s) = 1" using demo_drains by blast
  have e: "en_workers demo_enricher = 1" "en_tel demo_enricher = demo_tel" "0 < en_workers demo_enricher"
    by (simp_all add: demo_enricher_def Enricher.New_def)
  from pipeline_loses_nothing [OF s(1) [unfolded demo_system_def] s(2,3) e(3)] obtain taken where
    "demo_raws = taken @ [demo_raw_event ''other'']" "map (out_key \<circ> snd) (sy_rounds s) = map in_key (normalized demo_tel taken)"
    "sy_emitted s = snd (stage_signals demo_engine (sy_rounds s))" unfolding e s(4) by auto
  then show ?thesis using s by (auto simp: demo_raws_def)
qed

text \<open>The signal arrives while the subscription still brings events.\<close>

lemma pipeline_stops_after_signal_witness:
  "\<exists>s (more :: unit sact list) t. srun demo_enricher [On_Flow Log_Arrives, On_Flow Signal_Received :: unit sact] demo_system = Some s \<and>
     srun demo_enricher more s = Some t \<and> stopped t \<and> sy_emitted t = []"
proof -
  obtain s where s: "srun demo_enricher [On_Flow Log_Arrives, On_Flow Signal_Received :: unit sact] demo_system = Some s" "cancelled s"
    by (simp add: demo_system_defs demo_raws_def)
  have "nat 2 \<le> nat 1 + 1" "(0::int) < 1" by simp_all
  from pipeline_stops_after_signal [OF s(1) [unfolded demo_system_def] s(2) this] obtain more :: "unit sact list" and t where
    t: "srun demo_enricher more s = Some t" "stopped t" by blast
  have "\<forall>u. cancelled u \<longrightarrow> sstep demo_enricher a u = Some v \<longrightarrow> sy_emitted v = sy_emitted u" for a :: "unit sact" and v
    using service_frame [of demo_enricher a] by (cases a) (auto split: if_splits option.splits prod.splits)
  then have "cancelled t \<and> sy_emitted t = sy_emitted s"
    using t(1) s(2) by (intro srun_invariant [OF t(1), of "\<lambda>u. cancelled u \<and> sy_emitted u = sy_emitted s"])
      (auto dest: sstep_frame(1))
  moreover have "sy_emitted s = []" using s(1) by (auto simp: demo_system_defs demo_raws_def)
  ultimately show ?thesis using s t by auto
qed

end
