(* ===== verification/Grpc_Server.thy ===== *)
theory Grpc_Server
  imports Emitter Telemetry
begin

text \<open>
  The life of the gRPC server (\<open>Start\<close> and \<open>Stop\<close> of \<open>internal/signal/grpc/grpc.go\<close>) around the service
  of \<open>Emitter\<close>: it listens, serves, and is stopped gracefully when the context is done. Listening,
  accepting and stopping are grpc-go's; a run is a sequence of actions of the server, of the goroutine that
  waits for the context, of the emitter and of the subscribers, in any interleaving.
\<close>

section \<open>The server\<close>

text \<open>Where \<open>Start\<close> is; \<open>Finished\<close> carries the error that it returns.\<close>

datatype serve_state = NotStarted | Serving | Stopping | Finished "string option"

text \<open>What the code uses of grpc-go: the error of \<open>net.Listen\<close> on a port, whether a new RPC is let in, and
  whether \<open>GracefulStop\<close>, and with it \<open>Serve\<close>, returns while the given number of RPCs are pending. The documentation
  says that \<open>GracefulStop\<close> stops the server from accepting new RPCs and blocks until all the pending ones are finished.\<close>

record grpclib =
  gl_listen :: "int \<Rightarrow> string option"
  gl_admits :: "serve_state \<Rightarrow> bool"
  gl_stopped :: "nat \<Rightarrow> bool"

definition admits_while_serving :: "grpclib \<Rightarrow> bool" where
  "admits_while_serving gl \<longleftrightarrow> (\<forall>st. gl_admits gl st \<longrightarrow> st = Serving)"

definition blocks_for_pending :: "grpclib \<Rightarrow> bool" where
  "blocks_for_pending gl \<longleftrightarrow> (\<forall>n. gl_stopped gl n \<longleftrightarrow> n = 0)"

text \<open>\<open>gs_server\<close> says that \<open>e.server\<close> is set, \<open>gs_handler\<close> is the stats handler it was made with.\<close>

record server =
  gs_port :: int
  gs_service :: service
  gs_server :: bool
  gs_handler :: "(bool \<times> bool) option"
  gs_ctx_done :: bool
  gs_state :: serve_state

definition new_server :: "int \<Rightarrow> Emitter \<Rightarrow> server" where
  "new_server port em =
     \<lparr>gs_port = port, gs_service = \<lparr>sv_em = em, sv_sent = (\<lambda>_. [])\<rparr>, gs_server = False, gs_handler = None,
      gs_ctx_done = False, gs_state = NotStarted\<rparr>"

text \<open>\<open>Start\<close> up to the call of \<open>Serve\<close>.\<close>

definition Start :: "grpclib \<Rightarrow> Telemetry \<Rightarrow> server \<Rightarrow> server" where
  "Start gl tel s =
     (case gl_listen gl (gs_port s) of
        Some err \<Rightarrow> s\<lparr>gs_state := Finished (Some err)\<rparr>
      | None \<Rightarrow>
          (let opts = (case GRPCStatsHandler tel of Some handler \<Rightarrow> Some handler | None \<Rightarrow> None)
           in s\<lparr>gs_server := True, gs_handler := opts, gs_state := Serving\<rparr>))"

definition GracefulStop :: "server \<Rightarrow> server" where
  "GracefulStop s = (if gs_state s = Serving then s\<lparr>gs_state := Stopping\<rparr> else s)"

definition Stop :: "server \<Rightarrow> server" where
  "Stop s = (if gs_server s then GracefulStop s else s)"

text \<open>An RPC is pending from the subscription to the end of \<open>SubscribeSignals\<close>.\<close>

abbreviation pending :: "server \<Rightarrow> nat" where
  "pending s \<equiv> length (em_listeners (sv_em (gs_service s)))"

datatype gact =
    Call_Start
  | Rpc act
  | Context_Done
  | Stop_On_Done
  | Call_Stop
  | Accept_Fails string
  | Serve_Returns

fun gstep :: "grpclib \<Rightarrow> Telemetry \<Rightarrow> gact \<Rightarrow> server \<Rightarrow> server option" where
  "gstep gl tel Call_Start s = (if gs_state s = NotStarted then Some (Start gl tel s) else None)"
| "gstep gl tel (Rpc a) s =
     (if (\<exists>f. a = Subscribe f) \<and> \<not> gl_admits gl (gs_state s) then None
      else (case sv_step a (gs_service s) of None \<Rightarrow> None | Some sv \<Rightarrow> Some (s\<lparr>gs_service := sv\<rparr>)))"
| "gstep gl tel Context_Done s = Some (s\<lparr>gs_ctx_done := True\<rparr>)"
| "gstep gl tel Stop_On_Done s =
     (if gs_server s \<and> gs_ctx_done s then Some (GracefulStop s) else None)"
| "gstep gl tel Call_Stop s = Some (Stop s)"
| "gstep gl tel (Accept_Fails err) s =
     (if gs_state s = Serving then Some (s\<lparr>gs_state := Finished (Some err)\<rparr>) else None)"
| "gstep gl tel Serve_Returns s =
     (if gs_state s = Stopping \<and> gl_stopped gl (pending s) then Some (s\<lparr>gs_state := Finished None\<rparr>) else None)"

fun grun :: "grpclib \<Rightarrow> Telemetry \<Rightarrow> gact list \<Rightarrow> server \<Rightarrow> server option" where
  "grun gl tel [] s = Some s"
| "grun gl tel (a # as) s = (case gstep gl tel a s of None \<Rightarrow> None | Some t \<Rightarrow> grun gl tel as t)"

lemma grun_append: "grun gl tel (as @ bs) s = (case grun gl tel as s of None \<Rightarrow> None | Some t \<Rightarrow> grun gl tel bs t)"
  by (induction "as" arbitrary: s) (auto split: option.split)

lemma grun_invariant:
  assumes "grun gl tel as s = Some t" "P s"
    and "\<And>a u v. a \<in> set as \<Longrightarrow> P u \<Longrightarrow> gstep gl tel a u = Some v \<Longrightarrow> P v"
  shows "P t"
  using assms
proof (induction "as" arbitrary: s)
  case (Cons a "as")
  then obtain u where u: "gstep gl tel a s = Some u" "grun gl tel as u = Some t" by (auto split: option.splits)
  have "P u" using Cons.prems(3) [of a, OF _ Cons.prems(2) u(1)] by simp
  then show ?case by (rule Cons.IH [OF u(2)]) (auto intro: Cons.prems(3))
qed simp

lemma start_stop_simps [simp]:
  "gs_service (Start gl tel s) = gs_service s" "gs_service (GracefulStop s) = gs_service s"
  "gs_service (Stop s) = gs_service s" "gs_ctx_done (GracefulStop s) = gs_ctx_done s"
  "gs_ctx_done (Start gl tel s) = gs_ctx_done s" "gs_ctx_done (Stop s) = gs_ctx_done s"
  by (simp_all add: Start_def GracefulStop_def Stop_def Let_def split: option.split)

lemma gstep_service:
  assumes "gstep gl tel a s = Some t"
  shows "gs_service t = gs_service s \<or> (\<exists>b. a = Rpc b \<and> sv_step b (gs_service s) = Some (gs_service t))"
  using assms by (cases a) (auto split: if_splits option.splits)

section \<open>Identities\<close>

lemma gstep_fresh: "gstep gl tel a s = Some t \<Longrightarrow> fresh_above (gs_service s) \<Longrightarrow> fresh_above (gs_service t)"
  using gstep_service [of gl tel a s t] sv_step_static [of _ "gs_service s" "gs_service t"] by auto

lemma grun_fresh: "grun gl tel as s = Some t \<Longrightarrow> fresh_above (gs_service s) \<Longrightarrow> fresh_above (gs_service t)"
  by (erule grun_invariant) (auto intro: gstep_fresh)

lemma new_server_fresh: "fresh_above (gs_service (new_server port (NewEmitter n)))"
  by (simp add: fresh_above_def new_server_def NewEmitter_def)

lemma subscribed_known: "subscribed i sv = Some l \<Longrightarrow> fresh_above sv \<Longrightarrow> i < em_next (sv_em sv)"
  using find_in_set by (fastforce simp: subscribed_def fresh_above_def)

lemma subscribed_pending: "subscribed i (gs_service s) \<noteq> None \<Longrightarrow> pending s \<noteq> 0"
  by (auto simp: subscribed_def)

section \<open>An open stream\<close>

text \<open>Subscriber \<open>i\<close> stays: its client neither hangs up nor lets a send fail.\<close>

definition stays :: "nat \<Rightarrow> gact \<Rightarrow> bool" where
  "stays i a \<longleftrightarrow> a \<noteq> Rpc (Hangup i) \<and> a \<noteq> Rpc (SendFails i) \<and> (\<forall>err. a \<noteq> Accept_Fails err)"

definition held :: "nat \<Rightarrow> server \<Rightarrow> bool" where
  "held i s \<longleftrightarrow> fresh_above (gs_service s) \<and> subscribed i (gs_service s) \<noteq> None \<and> gs_state s \<in> {Serving, Stopping}"

lemma gstep_subscribed:
  assumes "gstep gl tel a s = Some t" "stays i a" "fresh_above (gs_service s)" "subscribed i (gs_service s) \<noteq> None"
  shows "subscribed i (gs_service t) \<noteq> None"
proof -
  consider "gs_service t = gs_service s" | b where "a = Rpc b" "sv_step b (gs_service s) = Some (gs_service t)"
    using gstep_service [OF assms(1)] by blast
  then show ?thesis
  proof cases
    case (2 b)
    obtain l where l: "subscribed i (gs_service s) = Some l" using assms(4) by blast
    have m: "mine_step i b (mine i (gs_service s)) = Some (mine i (gs_service t))"
      using sv_step_mine [OF 2(2) subscribed_known [OF l assms(3)]] by simp
    show ?thesis
    proof
      assume "subscribed i (gs_service t) = None"
      then show False using m l assms(2) 2(1)
        by (cases b) (auto simp: mine_def stays_def split: if_splits option.splits)
    qed
  qed (use assms(4) in simp)
qed

lemma gstep_held:
  assumes "gstep gl tel a s = Some t" "stays i a" "held i s" "\<forall>n. gl_stopped gl n \<longrightarrow> n = 0"
  shows "held i t"
proof -
  have "subscribed i (gs_service t) \<noteq> None" "fresh_above (gs_service t)"
    using gstep_subscribed [OF assms(1,2)] gstep_fresh [OF assms(1)] assms(3) by (auto simp: held_def)
  moreover have "pending s \<noteq> 0" using subscribed_pending assms(3) by (auto simp: held_def)
  then have "gs_state t \<in> {Serving, Stopping}" using assms
    by (cases a) (auto simp: held_def stays_def GracefulStop_def Stop_def split: if_splits option.splits)
  ultimately show ?thesis by (simp add: held_def)
qed

text \<open>An open stream keeps the server from stopping: once a client has subscribed, then in every continuation in
  which it does not hang up itself, whatever happens to the context, to the other clients and to the signals, and
  however often the server is told to stop, the client stays subscribed and \<open>Serve\<close> does not return.
  Nothing in the program ends the stream of a client.\<close>

theorem open_stream_keeps_server:
  assumes "\<forall>n. gl_stopped gl n \<longrightarrow> n = 0"
    and "grun gl tel before (new_server port (NewEmitter n)) = Some s" "grun gl tel acts s = Some t"
    and "subscribed i (gs_service s) \<noteq> None" "gs_state s \<in> {Serving, Stopping}" "\<forall>a\<in>set acts. stays i a"
  shows "subscribed i (gs_service t) \<noteq> None \<and> gs_state t \<in> {Serving, Stopping}"
proof -
  have "held i s" using grun_fresh [OF assms(2) new_server_fresh] assms(4,5) by (simp add: held_def)
  then have "held i t" by (rule grun_invariant [OF assms(3)]) (use gstep_held assms(1,6) in blast)
  then show ?thesis by (simp add: held_def)
qed

section \<open>Draining\<close>

lemma sv_step_pending:
  "sv_step a sv = Some sv' \<Longrightarrow> length (em_listeners (sv_em sv')) \<le>
     length (em_listeners (sv_em sv)) + (if is_subscribe a then 1 else 0)"
proof (cases a)
  case (SendFails i)
  assume "sv_step a sv = Some sv'"
  then obtain sig ls where "recv_at i (em_listeners (sv_em sv)) = Some (sig, ls)"
    and t: "sv' = sv\<lparr>sv_em := unsubscribe i ((sv_em sv)\<lparr>em_listeners := ls\<rparr>)\<rparr>"
    using SendFails by (auto split: option.splits)
  from recv_at_ids [OF this(1)] have "length ls = length (em_listeners (sv_em sv))" by (metis length_map)
  then show ?thesis using length_filter_le [of "\<lambda>l. li_id l \<noteq> i" ls] by (simp add: t unsubscribe_def)
next
  case (Deliver i)
  assume "sv_step a sv = Some sv'"
  then obtain sig ls where "recv_at i (em_listeners (sv_em sv)) = Some (sig, ls)" "em_listeners (sv_em sv') = ls"
    using Deliver by (auto split: option.splits)
  with recv_at_ids [OF this(1)] show ?thesis by (metis le_add1 length_map)
qed (auto simp: subscribe_def unsubscribe_def is_subscribe_def Let_def split: if_splits intro: le_trans [OF length_filter_le])

lemma gstep_pending:
  assumes "gstep gl tel a s = Some t" "gs_state s \<noteq> Serving" "admits_while_serving gl"
  shows "pending t \<le> pending s"
proof -
  consider "gs_service t = gs_service s" | b where "a = Rpc b" "sv_step b (gs_service s) = Some (gs_service t)"
    using gstep_service [OF assms(1)] by blast
  then show ?thesis
  proof cases
    case (2 b)
    have "\<not> is_subscribe b" using assms 2(1) by (auto simp: is_subscribe_def admits_while_serving_def split: act.splits if_splits)
    then show ?thesis using sv_step_pending [OF 2(2)] by simp
  qed simp
qed

lemma gstep_stopping:
  assumes "gstep gl tel a s = Some t" "gs_state s \<in> {Stopping, Finished None}"
  shows "gs_state t \<in> {Stopping, Finished None}"
  using assms by (cases a) (auto simp: GracefulStop_def Stop_def split: if_splits option.splits)

text \<open>All clients leave, one after the other.\<close>

definition hang_up_all :: "listener list \<Rightarrow> gact list" where
  "hang_up_all ls = map (\<lambda>i. Rpc (Hangup i)) (remdups (map li_id ls))"

lemma hang_up_run:
  "\<exists>t. grun gl tel (map (\<lambda>i. Rpc (Hangup i)) is) s = Some t \<and> gs_state t = gs_state s \<and>
     em_listeners (sv_em (gs_service t)) = filter (\<lambda>l. li_id l \<notin> set is) (em_listeners (sv_em (gs_service s)))"
  if "distinct is" "set is \<subseteq> li_id ` set (em_listeners (sv_em (gs_service s)))"
  using that
proof (induction "is" arbitrary: s)
  case (Cons i "is")
  let ?s = "s\<lparr>gs_service := (gs_service s)\<lparr>sv_em := unsubscribe i (sv_em (gs_service s))\<rparr>\<rparr>"
  have "subscribed i (gs_service s) \<noteq> None" using Cons.prems(2) by (auto simp: subscribed_def find_None_iff)
  then have step: "gstep gl tel (Rpc (Hangup i)) s = Some ?s" by simp
  have "set is \<subseteq> li_id ` set (em_listeners (sv_em (gs_service ?s)))"
    using Cons.prems by (force simp: unsubscribe_def)
  from Cons.IH [OF _ this] Cons.prems(1) obtain t where "grun gl tel (map (\<lambda>i. Rpc (Hangup i)) is) ?s = Some t"
    "gs_state t = gs_state ?s"
    "em_listeners (sv_em (gs_service t)) = filter (\<lambda>l. li_id l \<notin> set is) (em_listeners (sv_em (gs_service ?s)))"
    by auto
  then show ?case using step
    by (intro exI [of _ t]) (auto simp: unsubscribe_def intro!: filter_cong)
qed simp

text \<open>Once a stop was asked for, no client is let in any more and the number of streams never grows; and as soon as the
  clients that are left have gone, \<open>Serve\<close> returns without an error.\<close>

theorem server_stops_when_clients_leave:
  assumes "blocks_for_pending gl" "admits_while_serving gl" "gs_state s = Stopping"
  shows "(\<forall>acts t. grun gl tel acts s = Some t \<longrightarrow> pending t \<le> pending s \<and> gs_state t \<in> {Stopping, Finished None}) \<and>
    (\<exists>t. grun gl tel (hang_up_all (em_listeners (sv_em (gs_service s))) @ [Serve_Returns]) s = Some t \<and>
       gs_state t = Finished None)"
proof
  show "\<forall>acts t. grun gl tel acts s = Some t \<longrightarrow> pending t \<le> pending s \<and> gs_state t \<in> {Stopping, Finished None}"
  proof (intro allI impI)
    fix acts t
    assume run: "grun gl tel acts s = Some t"
    let ?P = "\<lambda>u. pending u \<le> pending s \<and> gs_state u \<in> {Stopping, Finished None}"
    have step: "?P v" if "?P u" "gstep gl tel a u = Some v" for a u v
      using gstep_pending [OF that(2) _ assms(2)] gstep_stopping [OF that(2)] that(1) by fastforce
    show "?P t" by (rule grun_invariant [OF run, of ?P]) (use assms(3) in simp, rule step)
  qed
next
  let ?is = "remdups (map li_id (em_listeners (sv_em (gs_service s))))"
  obtain t where t: "grun gl tel (map (\<lambda>i. Rpc (Hangup i)) ?is) s = Some t" "gs_state t = gs_state s"
    "em_listeners (sv_em (gs_service t)) = filter (\<lambda>l. li_id l \<notin> set ?is) (em_listeners (sv_em (gs_service s)))"
    using hang_up_run [of ?is s gl tel] by auto
  then have "gstep gl tel Serve_Returns t = Some (t\<lparr>gs_state := Finished None\<rparr>)"
    using assms by (simp add: blocks_for_pending_def filter_empty_conv)
  then show "\<exists>t. grun gl tel (hang_up_all (em_listeners (sv_em (gs_service s))) @ [Serve_Returns]) s = Some t \<and>
      gs_state t = Finished None"
    using t(1) by (simp add: hang_up_all_def grun_append)
qed

section \<open>The server inside the program\<close>

lemma gstep_done:
  assumes "gstep gl tm a s = Some t"
  shows "gs_state s = Finished r \<Longrightarrow> gs_state t = Finished r"
    and "a \<noteq> Context_Done \<Longrightarrow> gs_ctx_done t = gs_ctx_done s"
  using assms by (cases a; auto simp: GracefulStop_def Stop_def split: if_splits option.splits)+

text \<open>The server stops once it is told to and its clients leave.\<close>

definition server_ok :: "server \<Rightarrow> bool" where
  "server_ok sv \<longleftrightarrow> (gs_state sv = Serving \<longrightarrow> gs_server sv)"

lemma gstep_server_ok: "gstep gl tm a sv = Some sv' \<Longrightarrow> server_ok sv \<Longrightarrow> server_ok sv'"
  by (cases a) (auto simp: server_ok_def Start_def GracefulStop_def Stop_def Let_def split: if_splits option.splits)

definition stopping_act :: "gact \<Rightarrow> bool" where
  "stopping_act a \<longleftrightarrow> a \<noteq> Context_Done \<and> a \<noteq> Call_Stop \<and> (\<forall>sig. a \<noteq> Rpc (EmitSig sig))"

lemma stopping_server_finishes:
  assumes "blocks_for_pending gl" "admits_while_serving gl" "gs_state sv = Stopping"
  shows "\<exists>acts sv'. grun gl tm acts sv = Some sv' \<and> (\<forall>a\<in>set acts. stopping_act a) \<and> gs_state sv' = Finished None"
proof -
  obtain sv' where "grun gl tm (hang_up_all (em_listeners (sv_em (gs_service sv))) @ [Serve_Returns]) sv = Some sv'"
    "gs_state sv' = Finished None" using server_stops_when_clients_leave [OF assms, of tm] by blast
  moreover have "\<forall>a\<in>set (hang_up_all ls @ [Serve_Returns]). stopping_act a" for ls
    by (auto simp: hang_up_all_def stopping_act_def)
  ultimately show ?thesis by blast
qed

lemma serving_server_finishes:
  assumes "blocks_for_pending gl" "admits_while_serving gl" "gs_state sv = Serving" "server_ok sv" "gs_ctx_done sv"
  shows "\<exists>acts sv' r. grun gl tm acts sv = Some sv' \<and> (\<forall>a\<in>set acts. stopping_act a) \<and> gs_state sv' = Finished r"
proof -
  have s: "gstep gl tm Stop_On_Done sv = Some (GracefulStop sv)" "gs_state (GracefulStop sv) = Stopping"
    using assms(3-5) by (simp_all add: server_ok_def GracefulStop_def)
  from stopping_server_finishes [OF assms(1,2) s(2)] obtain acts sv' where
    "grun gl tm acts (GracefulStop sv) = Some sv'" "\<forall>a\<in>set acts. stopping_act a" "gs_state sv' = Finished None" by blast
  then show ?thesis using s(1)
    by (intro exI [of _ "Stop_On_Done # acts"] exI [of _ sv'] exI [of _ None]) (simp add: stopping_act_def)
qed

lemma server_can_finish:
  assumes "blocks_for_pending gl" "admits_while_serving gl" "server_ok sv" "gs_ctx_done sv"
  shows "\<exists>acts sv' r. grun gl tm acts sv = Some sv' \<and> (\<forall>a\<in>set acts. stopping_act a) \<and> gs_state sv' = Finished r"
proof (cases "gs_state sv")
  case NotStarted
  then have s: "gstep gl tm Call_Start sv = Some (Start gl tm sv)" by simp
  show ?thesis
  proof (cases "gl_listen gl (gs_port sv)")
    case (Some err)
    then show ?thesis using s
      by (intro exI [of _ "[Call_Start]"] exI [of _ "Start gl tm sv"] exI [of _ "Some err"]) (simp add: Start_def stopping_act_def)
  next
    case None
    then have "gs_state (Start gl tm sv) = Serving" by (simp add: Start_def)
    moreover have "server_ok (Start gl tm sv)" using gstep_server_ok [OF s assms(3)] .
    ultimately obtain acts sv' r where "grun gl tm acts (Start gl tm sv) = Some sv'" "\<forall>a\<in>set acts. stopping_act a"
      "gs_state sv' = Finished r" using serving_server_finishes [OF assms(1,2), of "Start gl tm sv" tm] assms(4) by auto
    then show ?thesis using s by (intro exI [of _ "Call_Start # acts"] exI [of _ sv'] exI [of _ r]) (simp add: stopping_act_def)
  qed
next
  case (Finished r)
  then show ?thesis by (intro exI [of _ "[]"]) simp
qed (use assms serving_server_finishes stopping_server_finishes in blast)+

section \<open>Examples\<close>

definition demo_grpc :: grpclib where
  "demo_grpc = \<lparr>gl_listen = (\<lambda>port. None), gl_admits = (\<lambda>st. st = Serving), gl_stopped = (\<lambda>n. n = 0)\<rparr>"

lemma demo_grpc_documented: "blocks_for_pending demo_grpc" "admits_while_serving demo_grpc"
  by (simp_all add: blocks_for_pending_def admits_while_serving_def demo_grpc_def)

text \<open>A client subscribes and the context is done.\<close>

definition demo_prefix :: "gact list" where
  "demo_prefix = [Call_Start, Rpc (Subscribe demo_filter), Context_Done, Stop_On_Done]"

lemma demo_server_run:
  "\<exists>s. grun demo_grpc InitNoop demo_prefix (new_server 50051 (NewEmitter 1)) = Some s \<and>
     subscribed 0 (gs_service s) \<noteq> None \<and> gs_state s = Stopping"
  by (simp add: demo_prefix_def demo_grpc_def Start_def GracefulStop_def new_server_def NewEmitter_def subscribe_def subscribing_panics_def
      subscribed_def Let_def)

lemma open_stream_keeps_server_witness:
  "\<exists>s t. grun demo_grpc InitNoop demo_prefix (new_server 50051 (NewEmitter 1)) = Some s \<and>
     grun demo_grpc InitNoop [Rpc (EmitSig (demo_sig ''1'' ''s'')), Rpc (Deliver 0), Call_Stop] s = Some t \<and>
     gs_state t \<in> {Serving, Stopping}"
proof -
  let ?acts = "[Rpc (EmitSig (demo_sig ''1'' ''s'')), Rpc (Deliver 0), Call_Stop]"
  have "\<exists>t. grun demo_grpc InitNoop (demo_prefix @ ?acts) (new_server 50051 (NewEmitter 1)) = Some t"
    by (simp add: demo_prefix_def demo_grpc_def Start_def GracefulStop_def Stop_def new_server_def NewEmitter_def subscribe_def subscribing_panics_def
        Emit_def make_chan_def try_send_def try_recv_def demo_matches Let_def)
  then obtain s t where r: "grun demo_grpc InitNoop demo_prefix (new_server 50051 (NewEmitter 1)) = Some s"
    "grun demo_grpc InitNoop ?acts s = Some t" by (auto simp only: grun_append split: option.splits)
  have s: "subscribed 0 (gs_service s) \<noteq> None" "gs_state s \<in> {Serving, Stopping}" using demo_server_run r(1) by auto
  have "\<forall>n. gl_stopped demo_grpc n \<longrightarrow> n = 0" "\<forall>a\<in>set ?acts. stays 0 a" by (simp_all add: demo_grpc_def stays_def)
  from open_stream_keeps_server [OF this(1) r s this(2)] show ?thesis using r by blast
qed

lemma server_stops_when_clients_leave_witness:
  "\<exists>s t. grun demo_grpc InitNoop demo_prefix (new_server 50051 (NewEmitter 1)) = Some s \<and>
     grun demo_grpc InitNoop (hang_up_all (em_listeners (sv_em (gs_service s))) @ [Serve_Returns]) s = Some t \<and>
     gs_state t = Finished None"
proof -
  obtain s where s: "grun demo_grpc InitNoop demo_prefix (new_server 50051 (NewEmitter 1)) = Some s" "gs_state s = Stopping"
    using demo_server_run by blast
  show ?thesis using server_stops_when_clients_leave [OF demo_grpc_documented s(2), of InitNoop] s(1) by blast
qed

end
