(* ===== verification/Ops_Http.thy ===== *)
theory Ops_Http
  imports Telemetry
begin

text \<open>
  The life of the operations server (\<open>internal/telemetry/http.go\<close>): after \<open>ServeHTTP\<close> has listened, one goroutine serves
  and one waits for the context and closes the server. A run is a sequence of actions of these goroutines, of the
  listener and of clients, in any interleaving. The router and \<open>Serve\<close> are Go's \<open>net/http\<close>.
\<close>

section \<open>State and steps\<close>

text \<open>\<open>op_closed\<close> says that \<open>Close\<close> was called and \<open>op_serving\<close> that \<open>Serve\<close> has not returned; \<open>op_log\<close> are the errors of
  \<open>Serve\<close> that were logged.\<close>

record ops =
  op_routes :: "route list"
  op_ctx_done :: bool
  op_closed :: bool
  op_serving :: bool
  op_log :: "string list"

definition serve_ops :: "route list \<Rightarrow> ops" where
  "serve_ops routes = \<lparr>op_routes = routes, op_ctx_done = False, op_closed = False, op_serving = True, op_log = []\<rparr>"

text \<open>The answers of the router for the two patterns, each of which names the method \<open>GET\<close> and so also serves \<open>HEAD\<close>: the
  page of a route, 405 for a known path with another method and 404 for other paths.\<close>

datatype response = Metrics_Page | Health "string \<times> int" | Method_Not_Allowed | Not_Found

definition route_of :: "string \<Rightarrow> route option" where
  "route_of path = (if path = ''/metrics'' then Some MetricsRoute else if path = ''/healthz'' then Some HealthzRoute else None)"

definition respond :: "time \<Rightarrow> time \<Rightarrow> route list \<Rightarrow> string \<Rightarrow> string \<Rightarrow> response" where
  "respond startedAt now routes meth path =
     (case route_of path of
        None \<Rightarrow> Not_Found
      | Some r \<Rightarrow>
          if r \<notin> set routes then Not_Found
          else if meth \<notin> {''GET'', ''HEAD''} then Method_Not_Allowed
          else (case r of MetricsRoute \<Rightarrow> Metrics_Page | HealthzRoute \<Rightarrow> Health (healthz startedAt now)))"

datatype hact = Ops_Done | Close_On_Done | Http_Fails string | Serve_Closed

fun hstep :: "hact \<Rightarrow> ops \<Rightarrow> ops option" where
  "hstep Ops_Done s = Some (s\<lparr>op_ctx_done := True\<rparr>)"
| "hstep Close_On_Done s = (if op_ctx_done s \<and> \<not> op_closed s then Some (s\<lparr>op_closed := True\<rparr>) else None)"
| "hstep (Http_Fails err) s =
     (if op_serving s \<and> \<not> op_closed s then Some (s\<lparr>op_serving := False, op_log := op_log s @ [err]\<rparr>) else None)"
| "hstep Serve_Closed s = (if op_serving s \<and> op_closed s then Some (s\<lparr>op_serving := False\<rparr>) else None)"

text \<open>A request is answered while the server serves.\<close>

definition ops_response :: "time \<Rightarrow> time \<Rightarrow> ops \<Rightarrow> string \<Rightarrow> string \<Rightarrow> response option" where
  "ops_response startedAt now s meth path =
     (if op_serving s \<and> \<not> op_closed s then Some (respond startedAt now (op_routes s) meth path) else None)"

section \<open>What it answers, and for how long\<close>

lemma hstep_routes: "hstep a s = Some t \<Longrightarrow> op_routes t = op_routes s"
  by (cases a) (auto split: if_splits)

text \<open>Until its context is done or its listener fails the server answers, and what \<open>ServeHTTP\<close> has registered does not
  change: a health check gets \<open>ok\<close>, and there are metrics exactly when telemetry has set up the exporter.\<close>

lemma ServeHTTP_routes:
  "ServeHTTP listen t = Inr (addr, routes) \<Longrightarrow> HealthzRoute \<in> set routes \<and> (MetricsRoute \<in> set routes \<longleftrightarrow> tm_promExporter t)"
  by (auto simp: ServeHTTP_def Let_def split: sum.splits)

lemma ops_answers:
  assumes "op_serving s" "\<not> op_closed s" "HealthzRoute \<in> set (op_routes s)"
  shows "ops_response startedAt now s ''GET'' ''/healthz'' = Some (Health (''ok'', snd (healthz startedAt now)))"
    and "ops_response startedAt now s ''GET'' ''/metrics'' = Some (if MetricsRoute \<in> set (op_routes s) then Metrics_Page else Not_Found)"
  using assms by (simp_all add: ops_response_def respond_def route_of_def healthz_def)

lemma hstep_keeps_serving:
  assumes "hstep a s = Some t" "op_serving s" "\<not> op_closed s" "\<not> op_ctx_done s" "a \<noteq> Ops_Done" "\<forall>err. a \<noteq> Http_Fails err"
  shows "op_serving t \<and> \<not> op_closed t \<and> \<not> op_ctx_done t"
  using assms by (cases a) (auto split: if_splits)

end
