(* ===== verification/Oracle_Process.thy ===== *)
theory Oracle_Process
  imports Simulation System_Drains Grpc_Server Ops_Http
begin

text \<open>
  The program as it runs (\<open>cmd/oracle/main.go\<close>), in full: the whole pipeline of \<open>System_Run\<close>, the gRPC server of
  \<open>Grpc_Server\<close> around the same subscribers, the operations server of \<open>Ops_Http\<close>, the wait group, \<open>main\<close> and its log,
  with the ways in which the process can end before \<open>main\<close> does. It simulates the pipeline alone and the server alone; what
  is proved of these carries over.
\<close>

section \<open>State and steps\<close>

text \<open>The goroutines the wait group counts, and where \<open>main\<close> is or what has ended the process: the result of \<open>main\<close> (the error of
  the telemetry's shutdown, which is logged), \<open>logger.Fatal\<close>, a signal of the operating system, or a panic.\<close>

datatype goroutine = AdapterG | NormalizerG | EnricherG | EngineG | EmitterG | ServerG

datatype main_pc = Waiting_For_Signal | Joining | Completed "string option" | Died string | Killed | Panicked

text \<open>The subscribers are in the pipeline's state; \<open>server_of\<close> is the server with them.\<close>

record 'c live =
  or_system :: "'c system"
  or_server :: server
  or_ops :: "ops option"
  or_running :: "goroutine list"
  or_main :: main_pc
  or_log :: "log_entry list"

definition server_of :: "'c live \<Rightarrow> server" where
  "server_of s = (or_server s)\<lparr>gs_service := sy_service (or_system s)\<rparr>"

text \<open>Without an adapter \<open>adapterWg.Wait\<close> returns at once.\<close>

definition adapter_flow :: "(RawEvent, 'c) Traced list \<Rightarrow> ('c, 'k) program \<Rightarrow> 'c flow" where
  "adapter_flow lgs pg =
     (case pg_adapters pg of
        [] \<Rightarrow> (flow_start (make_chan 0) (pg_raw pg) (pg_chain pg) [])\<lparr>fw_feeder := Exited, fw_closed := True\<rparr>
      | (a, events) # _ \<Rightarrow> flow_start events (pg_raw pg) (pg_chain pg) lgs)"

definition oracle_start :: "log_entry list \<Rightarrow> (RawEvent, 'c) Traced list \<Rightarrow> ('c, 'k) program \<Rightarrow> 'c live" where
  "oracle_start logged lgs pg =
     (let server = new_server (pg_port pg) (pg_emitter pg)
      in \<lparr>or_system = (system_start (adapter_flow lgs pg) (pg_enricher pg) (pg_enriched pg) (pg_engine pg) (pg_signals pg) 0)
            \<lparr>sy_service := gs_service server\<rparr>,
          or_server = server, or_ops = map_option (\<lambda>(addr, routes). serve_ops routes) (pg_ops pg),
          or_running = (if pg_adapters pg = [] then [] else [AdapterG]) @ [NormalizerG, EnricherG, EngineG, EmitterG, ServerG],
          or_main = Waiting_For_Signal,
          or_log = logged @ written (pg_level pg) InfoLevel
            (Oracle_Started (int (length (pg_adapters pg))) (pg_port pg))\<rparr>)"

text \<open>The panics that a goroutine can meet: the decoder's on a log that \<open>Start\<close> has received, and that of \<open>make\<close> when a client
  subscribes and the buffer size is negative.\<close>

datatype panic = In_Decoder Log | In_Subscribe SignalFilter

datatype 'e pact =
    P_Signal
  | P_System "'e sact"
  | P_Server gact
  | P_Ops hact
  | P_Returns goroutine
  | P_Wakes
  | P_Joins
  | P_Panics panic

text \<open>The channels that \<open>main\<close> gives to the monitor, which reads them every five seconds until the signal; it changes nothing.\<close>

definition monitored_channels :: "'c system \<Rightarrow> MonitoredChannel list" where
  "monitored_channels sy =
     [monitored ''raw_events'' (fw_raw (sy_flow sy)), monitored ''chain_events'' (fw_chain (sy_flow sy)),
      monitored ''enriched_events'' (sy_enriched sy), monitored ''signals'' (sy_signals sy)]"

text \<open>A goroutine of the wait group returns when its stage has.\<close>

fun has_returned :: "'c live \<Rightarrow> goroutine \<Rightarrow> bool" where
  "has_returned s AdapterG = (fw_feeder (sy_flow (or_system s)) = Exited)"
| "has_returned s NormalizerG = (fw_norm (sy_flow (or_system s)) = norm.Returned)"
| "has_returned s EnricherG = (set (sy_workers (or_system s)) \<subseteq> {wstate.Returned})"
| "has_returned s EngineG = (sy_pc (or_system s) = EReturned)"
| "has_returned s EmitterG = (\<not> sy_emitting (or_system s))"
| "has_returned s ServerG = (case gs_state (or_server s) of Finished r \<Rightarrow> True | _ \<Rightarrow> False)"

text \<open>The error of a goroutine that ends the program: that of the server, unless the context is done.\<close>

definition fatal_of :: "'c live \<Rightarrow> goroutine \<Rightarrow> string option" where
  "fatal_of s g =
     (if g = ServerG \<and> \<not> cancelled (or_system s)
      then (case gs_state (or_server s) of Finished r \<Rightarrow> r | _ \<Rightarrow> None) else None)"

text \<open>Which panics can happen: \<open>Start\<close> takes a log while it runs and is not sending an event.\<close>

fun panics :: "ethlib \<Rightarrow> grpclib \<Rightarrow> ('c, 'k) program \<Rightarrow> panic \<Rightarrow> 'c live \<Rightarrow> bool" where
  "panics E gl pg (In_Decoder lg) s =
     (fw_feeder (sy_flow (or_system s)) = Starting None \<and>
      list_ex (\<lambda>(a, events). \<not> no_panic (Decode E (ad_decoder a) (ad_chain a) lg)) (pg_adapters pg))"
| "panics E gl pg (In_Subscribe f) s =
     (gl_admits gl (gs_state (or_server s)) \<and> subscribing_panics (sv_em (sy_service (or_system s))))"

definition alive :: "'c live \<Rightarrow> bool" where
  "alive s \<longleftrightarrow> or_main s = Waiting_For_Signal \<or> or_main s = Joining"

text \<open>The context is done by the first signal only, the emitter emits through its loop and nothing calls the server's \<open>Stop\<close>
  (\<open>own_step\<close> and \<open>stopping_act\<close>); the context of the operations server is cancelled by \<open>main\<close> at its end. \<open>NotifyContext\<close>
  takes the signals that come until \<open>main\<close> has woken up; \<open>main\<close> then calls its stop function, and the next signal kills the process.\<close>

fun pstep ::
  "ethlib \<Rightarrow> grpclib \<Rightarrow> (provider \<Rightarrow> string option) \<Rightarrow> ('c, 'k) program \<Rightarrow> 'e pact \<Rightarrow> 'c live \<Rightarrow> 'c live option" where
  "pstep E gl answer pg P_Signal s =
     (if or_main s = Waiting_For_Signal
      then Some (s\<lparr>or_system := (or_system s)\<lparr>sy_flow := (sy_flow (or_system s))\<lparr>fw_cancelled := True\<rparr>\<rparr>,
                   or_server := (or_server s)\<lparr>gs_ctx_done := True\<rparr>\<rparr>)
      else if or_main s = Joining then Some (s\<lparr>or_main := Killed\<rparr>)
      else None)"
| "pstep E gl answer pg (P_System a) s =
     (if \<not> alive s \<or> \<not> own_step a then None
      else (case sstep (pg_enricher pg) a (or_system s) of None \<Rightarrow> None | Some sy \<Rightarrow> Some (s\<lparr>or_system := sy\<rparr>)))"
| "pstep E gl answer pg (P_Server b) s =
     (if \<not> alive s \<or> \<not> stopping_act b then None
      else (case gstep gl (pg_telemetry pg) b (server_of s) of
              None \<Rightarrow> None
            | Some sv \<Rightarrow> Some (s\<lparr>or_server := sv, or_system := (or_system s)\<lparr>sy_service := gs_service sv\<rparr>\<rparr>)))"
| "pstep E gl answer pg (P_Ops h) s =
     (if \<not> alive s \<or> h = Ops_Done then None
      else (case or_ops s of
              None \<Rightarrow> None
            | Some p \<Rightarrow> (case hstep h p of None \<Rightarrow> None | Some p' \<Rightarrow> Some (s\<lparr>or_ops := Some p'\<rparr>))))"
| "pstep E gl answer pg (P_Returns g) s =
     (if \<not> alive s \<or> g \<notin> set (or_running s) \<or> \<not> has_returned s g then None
      else (case fatal_of s g of
              Some err \<Rightarrow> Some (s\<lparr>or_main := Died err\<rparr>)
            | None \<Rightarrow> Some (s\<lparr>or_running := remove1 g (or_running s)\<rparr>)))"
| "pstep E gl answer pg P_Wakes s =
     (if or_main s = Waiting_For_Signal \<and> cancelled (or_system s)
      then Some (s\<lparr>or_main := Joining, or_log := or_log s @ written (pg_level pg) InfoLevel Shutting_Down\<rparr>) else None)"
| "pstep E gl answer pg P_Joins s =
     (if or_main s = Joining \<and> or_running s = []
      then (let err = fst (Shutdown answer (pg_telemetry pg))
            in Some (s\<lparr>or_main := Completed err, or_ops := map_option (op_ctx_done_update (\<lambda>_. True)) (or_ops s),
                       or_log := or_log s @ (case err of None \<Rightarrow> [] | Some e \<Rightarrow> written (pg_level pg) ErrorLevel (Shutdown_Failed e)) @
                         written (pg_level pg) InfoLevel Shutdown_Complete\<rparr>))
      else None)"
| "pstep E gl answer pg (P_Panics p) s =
     (if alive s \<and> panics E gl pg p s then Some (s\<lparr>or_main := Panicked\<rparr>) else None)"

abbreviation prun ::
  "ethlib \<Rightarrow> grpclib \<Rightarrow> (provider \<Rightarrow> string option) \<Rightarrow> ('c, 'k) program \<Rightarrow> 'e pact list \<Rightarrow> 'c live \<Rightarrow> 'c live option" where
  "prun E gl answer pg \<equiv> exec (pstep E gl answer pg)"

lemma srun_exec: "srun e acts s = exec (sstep e) acts s"
  by (induction acts arbitrary: s) (auto split: option.split)

lemma grun_exec: "grun gl tel acts s = exec (gstep gl tel) acts s"
  by (induction acts arbitrary: s) (auto split: option.split)

text \<open>The inversion of a step, by what it changes.\<close>

lemma pstep_cases:
  assumes "pstep E gl answer pg a s = Some t"
  obtains (signal) "a = P_Signal" "or_main s = Waiting_For_Signal" "alive s"
      "t = s\<lparr>or_system := (or_system s)\<lparr>sy_flow := (sy_flow (or_system s))\<lparr>fw_cancelled := True\<rparr>\<rparr>,
             or_server := (or_server s)\<lparr>gs_ctx_done := True\<rparr>\<rparr>"
  | (killed) "a = P_Signal" "or_main s = Joining" "t = s\<lparr>or_main := Killed\<rparr>"
  | (system) b sy where "a = P_System b" "alive s" "own_step b" "sstep (pg_enricher pg) b (or_system s) = Some sy"
      "t = s\<lparr>or_system := sy\<rparr>"
  | (server) b sv where "a = P_Server b" "alive s" "stopping_act b" "gstep gl (pg_telemetry pg) b (server_of s) = Some sv"
      "t = s\<lparr>or_server := sv, or_system := (or_system s)\<lparr>sy_service := gs_service sv\<rparr>\<rparr>"
  | (ops) h p where "a = P_Ops h" "alive s" "h \<noteq> Ops_Done" "t = s\<lparr>or_ops := Some p\<rparr>"
  | (fatal) err where "a = P_Returns ServerG" "alive s" "ServerG \<in> set (or_running s)" "has_returned s ServerG"
      "fatal_of s ServerG = Some err" "t = s\<lparr>or_main := Died err\<rparr>"
  | (returned) g where "a = P_Returns g" "alive s" "g \<in> set (or_running s)" "has_returned s g" "fatal_of s g = None"
      "t = s\<lparr>or_running := remove1 g (or_running s)\<rparr>"
  | (wakes) l where "a = P_Wakes" "or_main s = Waiting_For_Signal" "cancelled (or_system s)" "t = s\<lparr>or_main := Joining, or_log := l\<rparr>"
  | (joins) p l where "a = P_Joins" "or_main s = Joining" "or_running s = []"
      "t = s\<lparr>or_main := Completed (fst (Shutdown answer (pg_telemetry pg))), or_ops := p, or_log := l\<rparr>"
  | (panics) p where "a = P_Panics p" "alive s" "panics E gl pg p s" "t = s\<lparr>or_main := Panicked\<rparr>"
proof (cases a)
  case P_Signal
  then show ?thesis using assms signal killed by (auto simp: alive_def split: if_splits)
next
  case (P_Panics p)
  then show ?thesis using assms panics by (auto split: if_splits)
next
  case (P_System b)
  then show ?thesis using assms system by (auto split: if_splits option.splits)
next
  case (P_Server b)
  then show ?thesis using assms server by (auto split: if_splits option.splits)
next
  case (P_Ops h)
  then show ?thesis using assms ops by (auto split: if_splits option.splits)
next
  case (P_Returns g)
  show ?thesis
  proof (cases "fatal_of s g")
    case None
    then show ?thesis using assms P_Returns returned by (auto split: if_splits)
  next
    case (Some err)
    then have "g = ServerG" by (auto simp: fatal_of_def split: if_splits)
    then show ?thesis using assms P_Returns Some fatal by (auto split: if_splits)
  qed
next
  case P_Wakes
  then show ?thesis using assms wakes by (auto split: if_splits)
next
  case P_Joins
  then show ?thesis using assms joins by (auto simp: Let_def split: if_splits)
qed

section \<open>The pipeline inside the program\<close>

text \<open>A signal in the pipeline is one of the program.\<close>

definition system_matched :: "'e pact \<Rightarrow> 'e sact list \<Rightarrow> bool" where
  "system_matched a bs \<longleftrightarrow> (On_Flow Signal_Received \<in> set bs \<longrightarrow> a = P_Signal)"

lemma server_of_service [simp]: "gs_service (server_of s) = sy_service (or_system s)"
  by (simp add: server_of_def)

lemma pstep_system:
  assumes "pstep E gl answer pg (a :: 'e pact) s = Some t"
  shows "\<exists>bs. exec (sstep (pg_enricher pg)) bs (or_system s) = Some (or_system t) \<and> system_matched a bs"
  using assms
proof (cases rule: pstep_cases)
  case signal
  then show ?thesis by (intro exI [of _ "[On_Flow Signal_Received]"]) (simp add: system_matched_def)
next
  case (system b sy)
  then show ?thesis by (intro exI [of _ "[b]"]) (auto simp: system_matched_def own_step_def)
next
  case (server b sv)
  from gstep_service [OF server(4)] show ?thesis
  proof
    assume "gs_service sv = gs_service (server_of s)"
    then show ?thesis using server by (intro exI [of _ "[]"]) (simp add: system_matched_def)
  next
    assume "\<exists>c. b = Rpc c \<and> sv_step c (gs_service (server_of s)) = Some (gs_service sv)"
    then obtain c where "b = Rpc c" "sv_step c (sy_service (or_system s)) = Some (gs_service sv)" by auto
    then show ?thesis using server
      by (intro exI [of _ "[On_Service c]"]) (auto simp: system_matched_def stopping_act_def)
  qed
qed (rule exI [of _ "[]"], simp add: system_matched_def)+

interpretation pipeline: simulation "pstep E gl answer pg" "sstep (pg_enricher pg)" "\<lambda>s t. t = or_system s" system_matched
  for E gl answer pg
  by unfold_locales (auto dest!: pstep_system)

lemma prun_system:
  assumes "prun E gl answer pg (acts :: 'e pact list) s = Some t"
  shows "\<exists>bs :: 'e sact list. srun (pg_enricher pg) bs (or_system s) = Some (or_system t) \<and>
    (On_Flow Signal_Received \<in> set bs \<longrightarrow> P_Signal \<in> set acts)"
proof -
  obtain bss :: "'e sact list list" where b: "exec (sstep (pg_enricher pg)) (concat bss) (or_system s) = Some (or_system t)"
    "list_all2 system_matched acts bss" using pipeline.run [OF assms refl] by blast
  have "On_Flow Signal_Received \<in> set (concat bss) \<longrightarrow> P_Signal \<in> set acts"
    using b(2) by (induction rule: list_all2_induct) (auto simp: system_matched_def)
  then show ?thesis using b(1) unfolding srun_exec by blast
qed

section \<open>The server inside the program\<close>

text \<open>Each step of the server in the program is one of its own, the signal, or an emission of the pipeline.\<close>

definition server_matched :: "'e pact \<Rightarrow> gact list \<Rightarrow> bool" where
  "server_matched a bs \<longleftrightarrow>
     (\<forall>b\<in>set bs. b = Context_Done \<and> a = P_Signal \<or> a = P_Server b \<or> (\<exists>sig. b = Rpc (EmitSig sig)))"

lemma own_step_service:
  assumes "sstep e a s = Some t" "own_step a"
  shows "sy_service t = sy_service s \<or> (\<exists>sig. sv_step (EmitSig sig) (sy_service s) = Some (sy_service t))"
proof (cases "a = Emitter_Takes")
  case True
  then show ?thesis using assms(1) by (auto split: if_splits option.splits prod.splits)
next
  case False
  then show ?thesis using service_frame [OF assms(1)] assms(2) by (simp add: own_step_def)
qed

lemma own_step_cancelled:
  assumes "sstep e a s = Some t" "own_step a"
  shows "cancelled t = cancelled s"
  using assms(1)
proof (cases rule: sstep_kinds)
  case (flow b f)
  then show ?thesis using fstep_done(3) [OF flow(3)] assms(2) by (auto simp: own_step_def)
next
  case (worker i)
  from assms(1) worker show ?thesis by (cases rule: worker_step_cases) simp_all
next
  case behind
  then show ?thesis using engine_step_enriched [OF assms(1) behind] by simp
qed

lemma pstep_server:
  assumes "pstep E gl answer pg (a :: 'e pact) s = Some t"
  shows "\<exists>bs. exec (gstep gl (pg_telemetry pg)) bs (server_of s) = Some (server_of t) \<and> server_matched a bs"
  using assms
proof (cases rule: pstep_cases)
  case signal
  then show ?thesis by (intro exI [of _ "[Context_Done]"]) (simp add: server_matched_def server_of_def)
next
  case (system b sy)
  from own_step_service [OF system(4,3)] show ?thesis
  proof
    assume "sy_service sy = sy_service (or_system s)"
    then show ?thesis using system by (intro exI [of _ "[]"]) (simp add: server_matched_def server_of_def)
  next
    assume "\<exists>sig. sv_step (EmitSig sig) (sy_service (or_system s)) = Some (sy_service sy)"
    then obtain sig where "sv_step (EmitSig sig) (sy_service (or_system s)) = Some (sy_service sy)" by blast
    then show ?thesis using system
      by (intro exI [of _ "[Rpc (EmitSig sig)]"]) (simp add: server_matched_def server_of_def del: sv_step.simps)
  qed
next
  case (server b sv)
  then show ?thesis by (intro exI [of _ "[b]"]) (simp add: server_matched_def server_of_def)
qed (rule exI [of _ "[]"], simp add: server_matched_def server_of_def)+

interpretation rpc: simulation "pstep E gl answer pg" "gstep gl (pg_telemetry pg)" "\<lambda>s t. t = server_of s" server_matched
  for E gl answer pg
  by unfold_locales (auto dest!: pstep_server)

lemma prun_server:
  assumes "prun E gl answer pg (acts :: 'e pact list) s = Some t"
  shows "\<exists>bs. grun gl (pg_telemetry pg) bs (server_of s) = Some (server_of t) \<and>
    (\<forall>b\<in>set bs. b = Context_Done \<or> P_Server b \<in> set acts \<or> (\<exists>sig. b = Rpc (EmitSig sig)))"
proof -
  obtain bss where b: "exec (gstep gl (pg_telemetry pg)) (concat bss) (server_of s) = Some (server_of t)"
    "list_all2 server_matched acts bss" using rpc.run [OF assms refl] by blast
  have "\<forall>b\<in>set (concat bss). b = Context_Done \<or> P_Server b \<in> set acts \<or> (\<exists>sig. b = Rpc (EmitSig sig))"
    using b(2) by (induction rule: list_all2_induct) (auto simp: server_matched_def)
  then show ?thesis using b(1) unfolding grun_exec by blast
qed

section \<open>Invariants\<close>

lemma sstep_returned:
  assumes "sstep e a s = Some t"
  shows "fw_feeder (sy_flow s) = Exited \<Longrightarrow> fw_feeder (sy_flow t) = Exited"
    "fw_norm (sy_flow s) = norm.Returned \<Longrightarrow> fw_norm (sy_flow t) = norm.Returned"
    "set (sy_workers s) \<subseteq> {wstate.Returned} \<Longrightarrow> set (sy_workers t) \<subseteq> {wstate.Returned}"
    "sy_pc s = EReturned \<Longrightarrow> sy_pc t = EReturned" "\<not> sy_emitting s \<Longrightarrow> \<not> sy_emitting t"
proof -
  have f: "(fw_feeder (sy_flow s) = Exited \<longrightarrow> fw_feeder (sy_flow t) = Exited) \<and>
    (fw_norm (sy_flow s) = norm.Returned \<longrightarrow> fw_norm (sy_flow t) = norm.Returned)"
    using sstep_flow [OF assms] fstep_done by auto
  have "(set (sy_workers s) \<subseteq> {wstate.Returned} \<longrightarrow> set (sy_workers t) \<subseteq> {wstate.Returned}) \<and>
    (sy_pc s = EReturned \<longrightarrow> sy_pc t = EReturned) \<and> (\<not> sy_emitting s \<longrightarrow> \<not> sy_emitting t)"
    using assms
  proof (cases rule: sstep_kinds)
    case (worker i)
    have ret: "i < length (sy_workers s) \<Longrightarrow> set (sy_workers s) \<subseteq> {wstate.Returned} \<Longrightarrow> sy_workers s ! i = wstate.Returned"
      using nth_mem by blast
    from assms worker show ?thesis by (cases rule: worker_step_cases) (use ret in auto)
  next
    case behind
    then have "sy_workers t = sy_workers s" using engine_step_enriched [OF assms behind] by simp
    then show ?thesis using assms behind
      by (cases a) (auto simp: worker_act_def split: if_splits option.splits eng_pc.splits list.splits prod.splits)
  qed simp
  then show "fw_feeder (sy_flow s) = Exited \<Longrightarrow> fw_feeder (sy_flow t) = Exited"
    "fw_norm (sy_flow s) = norm.Returned \<Longrightarrow> fw_norm (sy_flow t) = norm.Returned"
    "set (sy_workers s) \<subseteq> {wstate.Returned} \<Longrightarrow> set (sy_workers t) \<subseteq> {wstate.Returned}"
    "sy_pc s = EReturned \<Longrightarrow> sy_pc t = EReturned" "\<not> sy_emitting s \<Longrightarrow> \<not> sy_emitting t"
    using f by blast+
qed

text \<open>Goroutines that have left the wait group have returned; the stages close in order until a signal.\<close>

definition live_ok :: "'c live \<Rightarrow> bool" where
  "live_ok s \<longleftrightarrow> distinct (or_running s) \<and> (\<forall>g. g \<notin> set (or_running s) \<longrightarrow> has_returned s g) \<and>
     sy_workers (or_system s) \<noteq> [] \<and> (\<not> cancelled (or_system s) \<longrightarrow> closed_in_order (or_system s))"

lemma pstep_has_returned:
  assumes "pstep E gl answer pg a s = Some t" "has_returned s g"
  shows "has_returned t g"
  using assms(1)
proof (cases rule: pstep_cases)
  case (system b sy)
  then show ?thesis using assms(2) sstep_returned [OF system(4)] by (cases g) auto
next
  case (server b sv)
  then show ?thesis using assms(2) gstep_done(1) [OF server(4)]
    by (cases g) (auto simp: server_of_def split: serve_state.splits)
qed (use assms(2) in \<open>cases g; simp\<close>)+

lemma pstep_live_ok:
  assumes "pstep E gl answer pg a s = Some t" "live_ok s"
  shows "live_ok t"
proof -
  have r: "\<forall>g. g \<notin> set (or_running s) \<longrightarrow> has_returned t g"
    using assms(2) pstep_has_returned [OF assms(1)] by (auto simp: live_ok_def)
  from assms(1) show ?thesis
  proof (cases rule: pstep_cases)
    case signal
    then show ?thesis using assms(2) r by (simp add: live_ok_def)
  next
    case (system b sy)
    have "length (sy_workers sy) = length (sy_workers (or_system s))" "cancelled (or_system s) \<Longrightarrow> cancelled sy"
      using sstep_frame [OF system(4)] by simp_all
    then have "sy_workers sy \<noteq> [] \<and> (\<not> cancelled sy \<longrightarrow> closed_in_order sy)"
      using closed_step [OF system(4)] assms(2) by (auto simp: live_ok_def)
    then show ?thesis using assms(2) r system by (simp add: live_ok_def)
  next
    case (server b sv)
    then show ?thesis using assms(2) r by (simp add: live_ok_def closed_in_order_def)
  next
    case (returned g)
    then have "has_returned t g" using pstep_has_returned [OF assms(1)] by blast
    then show ?thesis using assms(2) r returned by (auto simp: live_ok_def)
  qed (use assms(2) r in \<open>simp_all add: live_ok_def\<close>)
qed

text \<open>Where \<open>main\<close> is and what has happened: it is past its first wait only after a signal, done only when all its goroutines
  are, dead only of the server's error before a signal or of a panic that can happen.\<close>

definition main_ok ::
  "ethlib \<Rightarrow> grpclib \<Rightarrow> (provider \<Rightarrow> string option) \<Rightarrow> ('c, 'k) program \<Rightarrow> 'c live \<Rightarrow> bool" where
  "main_ok E gl answer pg s \<longleftrightarrow> (cancelled (or_system s) \<longleftrightarrow> gs_ctx_done (or_server s)) \<and>
     (case or_main s of
        Waiting_For_Signal \<Rightarrow> True
      | Joining \<Rightarrow> cancelled (or_system s)
      | Completed r \<Rightarrow> cancelled (or_system s) \<and> or_running s = [] \<and> r = fst (Shutdown answer (pg_telemetry pg))
      | Died err \<Rightarrow> \<not> cancelled (or_system s) \<and> gs_state (or_server s) = Finished (Some err)
      | Killed \<Rightarrow> cancelled (or_system s)
      | Panicked \<Rightarrow> (\<exists>p. panics E gl pg p s))"

lemma pstep_main_ok:
  assumes "pstep E gl answer pg a s = Some t" "main_ok E gl answer pg s"
  shows "main_ok E gl answer pg t"
  using assms(1)
proof (cases rule: pstep_cases)
  case (system b sy)
  then show ?thesis using assms(2) own_step_cancelled [OF system(4,3)] by (auto simp: main_ok_def alive_def)
next
  case (server b sv)
  have "gs_ctx_done sv = gs_ctx_done (or_server s)"
    using gstep_done(2) [OF server(4)] server(3) by (auto simp: stopping_act_def server_of_def)
  then show ?thesis using assms(2) server by (auto simp: main_ok_def alive_def)
next
  case (fatal err)
  then show ?thesis using assms(2) by (auto simp: main_ok_def fatal_of_def split: if_splits serve_state.splits)
next
  case (panics p)
  then have "Oracle_Process.panics E gl pg p t" by (cases p) simp_all
  then show ?thesis using assms(2) panics by (auto simp: main_ok_def)
qed (use assms(2) in \<open>auto simp: main_ok_def alive_def\<close>)

text \<open>A program with a worker, just launched.\<close>

lemma oracle_start_simps [simp]:
  "sy_flow (or_system (oracle_start logged lgs pg)) = adapter_flow lgs pg"
  "sy_workers (or_system (oracle_start logged lgs pg)) = replicate (nat (en_workers (pg_enricher pg))) Idle"
  "sy_enriched (or_system (oracle_start logged lgs pg)) = pg_enriched pg"
  "sy_engine (or_system (oracle_start logged lgs pg)) = pg_engine pg" "sy_pc (or_system (oracle_start logged lgs pg)) = EReceiving"
  "sy_rounds (or_system (oracle_start logged lgs pg)) = []" "sy_signals (or_system (oracle_start logged lgs pg)) = pg_signals pg"
  "sy_emitting (or_system (oracle_start logged lgs pg))" "sy_emitted (or_system (oracle_start logged lgs pg)) = []"
  "sy_service (or_system (oracle_start logged lgs pg)) = gs_service (new_server (pg_port pg) (pg_emitter pg))"
  "or_server (oracle_start logged lgs pg) = new_server (pg_port pg) (pg_emitter pg)"
  "or_running (oracle_start logged lgs pg) =
     (if pg_adapters pg = [] then [] else [AdapterG]) @ [NormalizerG, EnricherG, EngineG, EmitterG, ServerG]"
  "or_main (oracle_start logged lgs pg) = Waiting_For_Signal"
  "or_ops (oracle_start logged lgs pg) = map_option (\<lambda>(addr, routes). serve_ops routes) (pg_ops pg)"
  by (simp_all add: oracle_start_def system_start_def Let_def)

lemma server_of_start [simp]: "server_of (oracle_start logged lgs pg) = new_server (pg_port pg) (pg_emitter pg)"
  by (simp add: server_of_def)

lemma adapter_flow_cancelled [simp]: "\<not> fw_cancelled (adapter_flow lgs pg)"
  by (auto simp: adapter_flow_def flow_start_def split: list.split)

lemma live_ok_start: "0 < en_workers (pg_enricher pg) \<Longrightarrow> live_ok (oracle_start logged lgs pg)"
proof -
  assume w: "0 < en_workers (pg_enricher pg)"
  have "has_returned (oracle_start logged lgs pg) g" if "g \<notin> set (or_running (oracle_start logged lgs pg))" for g
    using that by (cases g) (auto simp: adapter_flow_def flow_start_def split: if_splits list.splits)
  moreover have "flow_closed (adapter_flow lgs pg)" "fw_norm (adapter_flow lgs pg) = norm.Receiving"
    by (auto simp: adapter_flow_def flow_closed_def flow_start_def make_chan_def split: list.split)
  ultimately show ?thesis using w by (simp add: live_ok_def closed_in_order_def)
qed

lemma main_ok_start: "main_ok E gl answer pg (oracle_start logged lgs pg)"
  by (simp add: main_ok_def new_server_def)

lemma prun_ok:
  assumes "prun E gl answer pg acts (oracle_start logged lgs pg) = Some s" "0 < en_workers (pg_enricher pg)"
  shows "live_ok s" "main_ok E gl answer pg s"
proof -
  show "live_ok s"
    by (rule exec_invariant [OF assms(1), of live_ok, OF live_ok_start [OF assms(2)]]) (rule pstep_live_ok)
  show "main_ok E gl answer pg s"
    by (rule exec_invariant [OF assms(1), of "main_ok E gl answer pg", OF main_ok_start]) (rule pstep_main_ok)
qed

text \<open>The context is cancelled by the first signal, and only a second one kills.\<close>

lemma signals_counted:
  assumes "prun E gl answer pg (acts :: 'e pact list) (oracle_start logged lgs pg) = Some s" "0 < en_workers (pg_enricher pg)"
  shows "cancelled (or_system s) \<longleftrightarrow> P_Signal \<in> set acts" "or_main s = Killed \<Longrightarrow> 2 \<le> count_list acts P_Signal"
proof -
  have "(cancelled (or_system s) \<longleftrightarrow> P_Signal \<in> set acts) \<and> (or_main s = Killed \<longrightarrow> 2 \<le> count_list acts P_Signal)"
    using assms(1)
  proof (induction acts arbitrary: s rule: rev_induct)
    case (snoc a acts)
    then obtain u where u: "prun E gl answer pg acts (oracle_start logged lgs pg) = Some u" "pstep E gl answer pg a u = Some s"
      by (auto simp: exec_append split: option.splits)
    note IH = snoc.IH [OF u(1)]
    from u(2) show ?case
    proof (cases rule: pstep_cases)
      case killed
      then have "cancelled (or_system u)" using prun_ok(2) [OF u(1) assms(2)] by (auto simp only: main_ok_def main_pc.case)
      then have "P_Signal \<in> set acts" using IH by simp
      then have "0 < count_list acts P_Signal" using count_list_0_iff [of acts P_Signal] by simp
      then show ?thesis using killed IH \<open>P_Signal \<in> set acts\<close> \<open>cancelled (or_system u)\<close> by simp
    next
      case (system b sy)
      then show ?thesis using IH own_step_cancelled [OF system(4,3)] by auto
    qed (use IH in \<open>auto simp: alive_def\<close>)
  qed simp
  then show "cancelled (or_system s) \<longleftrightarrow> P_Signal \<in> set acts" "or_main s = Killed \<Longrightarrow> 2 \<le> count_list acts P_Signal" by blast+
qed

end
