(* ===== verification/Oracle_Program.thy ===== *)
theory Oracle_Program
  imports Oracle_Process
begin

text \<open>
  The program from its files to its end: what \<open>startup\<close> (\<open>Oracle_Main\<close>) builds is launched and runs (\<open>Oracle_Process\<close>).
  The guarantees of the pipeline, of the server and of shutting down, each proved of its part, are here those of every
  program that starts.
\<close>

section \<open>What is launched\<close>

text \<open>What the adapter's subscription brings; without an adapter, nothing is read.\<close>

definition arriving :: "('c, 'k) program \<Rightarrow> (RawEvent, 'c) Traced list \<Rightarrow> (RawEvent, 'c) Traced list" where
  "arriving pg lgs = (if pg_adapters pg = [] then [] else lgs)"

lemma oracle_start_system:
  assumes "pg_emitter pg = NewEmitter n"
  shows "or_system (oracle_start logged lgs pg) =
    system_start (adapter_flow lgs pg) (pg_enricher pg) (pg_enriched pg) (pg_engine pg) (pg_signals pg) n"
  by (simp add: oracle_start_def system_start_def new_server_def Emitter.start_def assms Let_def)

lemma given_up_at_once:
  "srun e [On_Flow Start_Returns, On_Flow Feeder_Exits :: 'e sact] (fresh_system e eng 0 n2 n3 n4 n5 n []) =
    Some (system_start ((flow_start (make_chan 0) (make_chan n2) (make_chan n3) [])\<lparr>fw_feeder := Exited, fw_closed := True\<rparr>)
      e (make_chan n4) eng (make_chan n5) n)"
proof -
  let ?f = "flow_start (make_chan 0) (make_chan n2) (make_chan n3) []"
  have "fstep (en_tel e) Start_Returns ?f = Some (?f\<lparr>fw_feeder := Draining, fw_closed := True\<rparr>)"
    by (simp add: flow_start_def)
  moreover have "fstep (en_tel e) Feeder_Exits (?f\<lparr>fw_feeder := Draining, fw_closed := True\<rparr>) = Some (?f\<lparr>fw_feeder := Exited, fw_closed := True\<rparr>)"
    by (simp add: flow_start_def make_chan_def)
  ultimately show ?thesis by (simp add: fresh_system_def system_start_def del: fstep.simps)
qed

text \<open>The program as launched is a state of \<open>System_Run\<close>: the start of one with an adapter; without an adapter, the state
  of one whose adapter has given up at once.\<close>

lemma launched_system:
  assumes "startup E W sp ho = Inr pg"
  shows "\<exists>(acts :: 'e sact list) n1 n2 n3 n4 n5 n. srun (pg_enricher pg) acts
      (fresh_system (pg_enricher pg) (pg_engine pg) n1 n2 n3 n4 n5 n (arriving pg lgs)) = Some (or_system (oracle_start logged lgs pg)) \<and>
    0 < n2 \<and> (if pg_adapters pg = [] then n1 = 0 else \<exists>a. pg_adapters pg = [(a, make_chan n1)]) \<and> pg_raw pg = make_chan n2 \<and>
    pg_emitter pg = NewEmitter n"
proof -
  obtain n2 n3 n4 n5 n where p: "pg_raw pg = make_chan n2" "pg_chain pg = make_chan n3"
    "pg_enriched pg = make_chan n4" "pg_signals pg = make_chan n5" "0 < n2" "pg_emitter pg = NewEmitter n"
    "pg_adapters pg = [] \<or> (\<exists>a n1. pg_adapters pg = [(a, make_chan n1)] \<and> 0 < n1)" by (rule startup_shape [OF assms]) (rule that)
  note start = oracle_start_system [OF p(6), of logged lgs]
  show ?thesis
  proof (cases "pg_adapters pg = []")
    case True
    have "srun (pg_enricher pg) [On_Flow Start_Returns, On_Flow Feeder_Exits :: 'e sact]
        (fresh_system (pg_enricher pg) (pg_engine pg) 0 n2 n3 n4 n5 n []) = Some (or_system (oracle_start logged lgs pg))"
      unfolding given_up_at_once start using p True by (simp add: adapter_flow_def)
    then show ?thesis using p(1,5,6) True unfolding arriving_def
      by (intro exI [of _ "[On_Flow Start_Returns, On_Flow Feeder_Exits :: 'e sact]"] exI [of _ 0] exI [of _ n2] exI [of _ n3]
          exI [of _ n4] exI [of _ n5] exI [of _ n]) (simp del: srun.simps)
  next
    case False
    then obtain a n1 where a: "pg_adapters pg = [(a, make_chan n1)]" using p(7) by blast
    have "srun (pg_enricher pg) ([] :: 'e sact list)
        (fresh_system (pg_enricher pg) (pg_engine pg) n1 n2 n3 n4 n5 n lgs) = Some (or_system (oracle_start logged lgs pg))"
      unfolding start using p a by (simp add: fresh_system_def adapter_flow_def)
    then show ?thesis using p(1,5,6) a unfolding arriving_def
      by (intro exI [of _ "[] :: 'e sact list"] exI [of _ n1] exI [of _ n2] exI [of _ n3] exI [of _ n4] exI [of _ n5] exI [of _ n]) (simp del: srun.simps)
  qed
qed

lemma started_system:
  assumes "startup E W sp ho = Inr pg" "prun E gl answer pg (acts :: 'e pact list) (oracle_start logged lgs pg) = Some s"
  shows "\<exists>(bs :: 'e sact list) n1 n2 n3 n4 n5 n.
    srun (pg_enricher pg) bs (fresh_system (pg_enricher pg) (pg_engine pg) n1 n2 n3 n4 n5 n (arriving pg lgs)) = Some (or_system s) \<and>
    0 < n2 \<and> (if pg_adapters pg = [] then n1 = 0 else \<exists>a. pg_adapters pg = [(a, make_chan n1)]) \<and> pg_raw pg = make_chan n2 \<and>
    pg_emitter pg = NewEmitter n"
proof -
  obtain bs :: "'e sact list" where bs: "srun (pg_enricher pg) bs (or_system (oracle_start logged lgs pg)) = Some (or_system s)"
    using prun_system [OF assms(2)] by blast
  from launched_system [OF assms(1), of lgs logged, where 'e = 'e] obtain as :: "'e sact list" and n1 n2 n3 n4 n5 n where
    f: "srun (pg_enricher pg) as (fresh_system (pg_enricher pg) (pg_engine pg) n1 n2 n3 n4 n5 n (arriving pg lgs)) =
      Some (or_system (oracle_start logged lgs pg))"
    "0 < n2 \<and> (if pg_adapters pg = [] then n1 = 0 else \<exists>a. pg_adapters pg = [(a, make_chan n1)]) \<and> pg_raw pg = make_chan n2 \<and>
      pg_emitter pg = NewEmitter n" by blast
  have "srun (pg_enricher pg) (as @ bs) (fresh_system (pg_enricher pg) (pg_engine pg) n1 n2 n3 n4 n5 n (arriving pg lgs)) = Some (or_system s)"
    using f(1) bs by (simp add: srun_append)
  then show ?thesis using f(2) by blast
qed

section \<open>Safety from the files on\<close>

text \<open>C2. Safety of the program: whatever happens to a program that has started, signals, failing servers and clients included,
  the engine works only on events that the adapter's subscription has brought and that normalize, on none twice and with one
  worker on none out of order, each enriched for some answer of the price provider; the emitter emits an initial part of the signals that the rules file and the correlator give
  for them; and every client is sent a subsequence of what was emitted.\<close>

theorem program_is_safe:
  assumes "startup E W sp ho = Inr pg" "prun E gl answer pg (acts :: 'e pact list) (oracle_start (start_log ho) lgs pg) = Some s"
  shows "let sy = or_system s; keys = map in_key (normalized (en_tel (pg_enricher pg)) (arriving pg lgs));
      worked_on = map (out_key \<circ> snd) (sy_rounds sy)
    in mset worked_on \<subseteq># mset keys \<and> (en_workers (pg_enricher pg) = 1 \<longrightarrow> subseq worked_on keys) \<and>
      (\<forall>(ro, y)\<in>set (sy_rounds sy). \<exists>r :: unit + float64. tr_Value y = enrich_with (en_reg (pg_enricher pg)) (fst (out_key y)) r) \<and>
      prefix (sy_emitted sy) (snd (stage_signals (pg_engine pg) (sy_rounds sy))) \<and>
      (\<forall>i. subseq (sv_sent (gs_service (server_of s)) i) (map (toProto \<circ> tr_Value) (sy_emitted sy)))"
proof -
  obtain bs :: "'e sact list" and n1 n2 n3 n4 n5 n where
    "srun (pg_enricher pg) bs (fresh_system (pg_enricher pg) (pg_engine pg) n1 n2 n3 n4 n5 n (arriving pg lgs)) = Some (or_system s)"
    using started_system [OF assms] by blast
  from pipeline_is_safe [OF this] show ?thesis by (simp add: Let_def)
qed

section \<open>How it ends\<close>

lemma reachable_program:
  assumes "startup E W sp ho = Inr pg" "prun E gl answer pg (acts :: 'e pact list) (oracle_start logged lgs pg) = Some s"
  shows "live_ok s" "main_ok E gl answer pg s" "server_ok (server_of s)" "has_room (or_system s)"
    "em_subscriberBufSize (sv_em (sy_service (or_system s))) = em_subscriberBufSize (pg_emitter pg)"
proof -
  obtain n2 n3 n4 n5 n where p: "pg_raw pg = make_chan n2" "pg_chain pg = make_chan n3" "pg_enriched pg = make_chan n4"
    "pg_signals pg = make_chan n5" "0 < n2" "0 < n3" "0 < n4" "0 < n5" "0 < en_workers (pg_enricher pg)"
    by (rule startup_shape [OF assms(1)]) (rule that)
  show "live_ok s" "main_ok E gl answer pg s" using prun_ok [OF assms(2) p(9)] by simp_all
  obtain bs where "grun gl (pg_telemetry pg) bs (new_server (pg_port pg) (pg_emitter pg)) = Some (server_of s)"
    using prun_server [OF assms(2)] unfolding server_of_start by blast
  then show "server_ok (server_of s)"
    by (rule grun_invariant) (simp add: server_ok_def new_server_def, rule gstep_server_ok)
  obtain cs :: "'e sact list" where cs: "srun (pg_enricher pg) cs (or_system (oracle_start logged lgs pg)) = Some (or_system s)"
    using prun_system [OF assms(2)] by blast
  have "has_room (or_system (oracle_start logged lgs pg))"
    using p by (auto simp: has_room_def adapter_flow_def flow_start_def make_chan_def split: list.split)
  with cs show "has_room (or_system s)" by (rule srun_invariant) (rule has_room_step)
  from started_system [OF assms] obtain ds :: "'e sact list" and n1 n2 n3 n4 n5 n where
    ds: "srun (pg_enricher pg) ds (fresh_system (pg_enricher pg) (pg_engine pg) n1 n2 n3 n4 n5 n (arriving pg lgs)) = Some (or_system s)"
    and n: "pg_emitter pg = NewEmitter n" by blast
  obtain es where "sv_run es (Emitter.start n) = Some (sy_service (or_system s))"
    using srun_serviced [OF ds] by (auto simp: serviced_def)
  moreover have "fresh_above (Emitter.start n)" by (simp add: fresh_above_def Emitter.start_def NewEmitter_def)
  ultimately have "em_subscriberBufSize (sv_em (sy_service (or_system s))) = em_subscriberBufSize (sv_em (Emitter.start n))"
    using sv_run_static by blast
  then show "em_subscriberBufSize (sv_em (sy_service (or_system s))) = em_subscriberBufSize (pg_emitter pg)"
    by (simp add: Emitter.start_def n)
qed

lemma signalled_program:
  assumes "startup E W sp ho = Inr pg" "prun E gl answer pg (acts :: 'e pact list) (oracle_start logged lgs pg) = Some s"
  shows "cancelled (or_system s) \<longleftrightarrow> P_Signal \<in> set acts" "gs_ctx_done (or_server s) \<longleftrightarrow> P_Signal \<in> set acts"
    "or_main s = Killed \<Longrightarrow> 2 \<le> count_list acts P_Signal"
proof -
  have w: "0 < en_workers (pg_enricher pg)" using startup_shape [OF assms(1)] by metis
  show "cancelled (or_system s) \<longleftrightarrow> P_Signal \<in> set acts" "or_main s = Killed \<Longrightarrow> 2 \<le> count_list acts P_Signal"
    using signals_counted [OF assms(2) w] by blast+
  then show "gs_ctx_done (or_server s) \<longleftrightarrow> P_Signal \<in> set acts"
    using reachable_program(2) [OF assms] unfolding main_ok_def by blast
qed

lemma alive_waiting:
  assumes "main_ok E gl answer pg s" "alive s" "\<not> cancelled (or_system s)"
  shows "or_main s = Waiting_For_Signal"
  using assms by (auto simp: main_ok_def alive_def)

text \<open>C21. The program ends in order. \<open>main\<close> completes only after a signal and after every goroutine of the pipeline and the
  server have returned, with the telemetry shut down last and its error as the result. It ends otherwise in three ways only:
  with the error of a listener that failed before any signal; killed by a second signal; by a panic, either of the decoder on a log that the
  adapter has received while its \<open>Start\<close> runs, or of \<open>make\<close> when a client subscribes and \<open>subscriber_buffer_size\<close> is negative.\<close>

theorem program_ends_in_order:
  assumes "startup E W sp ho = Inr pg"
    and "prun E gl answer pg (acts :: 'e pact list) (oracle_start (start_log ho) lgs pg) = Some s"
  shows "(\<forall>r. or_main s = Completed r \<longrightarrow> P_Signal \<in> set acts \<and> or_running s = [] \<and> stopped (or_system s) \<and>
        (\<exists>x. gs_state (or_server s) = Finished x) \<and> r = fst (Shutdown answer (pg_telemetry pg))) \<and>
    (\<forall>err. or_main s = Died err \<longrightarrow> P_Signal \<notin> set acts \<and> gs_state (or_server s) = Finished (Some err)) \<and>
    (or_main s = Killed \<longrightarrow> 2 \<le> count_list acts P_Signal) \<and>
    (or_main s = Panicked \<longrightarrow>
       (\<exists>a events lg. pg_adapters pg = [(a, events)] \<and> fw_feeder (sy_flow (or_system s)) = Starting None \<and>
          \<not> no_panic (Decode E (ad_decoder a) (ad_chain a) lg)) \<or>
       em_subscriberBufSize (pg_emitter pg) < 0)"
proof (intro conjI allI impI)
  note ok = reachable_program [OF assms] and sig = signalled_program [OF assms]
  {
    fix r assume r: "or_main s = Completed r"
    then have c: "cancelled (or_system s)" "or_running s = []" "r = fst (Shutdown answer (pg_telemetry pg))"
      using ok(2) by (auto simp only: main_ok_def main_pc.case)
    then have "has_returned s g" for g using ok(1) by (simp add: live_ok_def)
    from this [of AdapterG] this [of NormalizerG] this [of EnricherG] this [of EngineG] this [of EmitterG] this [of ServerG]
    have "stopped (or_system s)" "\<exists>x. gs_state (or_server s) = Finished x" by (auto simp: stopped_def split: serve_state.splits)
    then show "P_Signal \<in> set acts" "or_running s = []" "stopped (or_system s)" "\<exists>x. gs_state (or_server s) = Finished x"
      "r = fst (Shutdown answer (pg_telemetry pg))" using c sig(1) by blast+
  next
    fix err assume "or_main s = Died err"
    then have "\<not> cancelled (or_system s)" "gs_state (or_server s) = Finished (Some err)"
      using ok(2) by (auto simp only: main_ok_def main_pc.case)
    then show "P_Signal \<notin> set acts" "gs_state (or_server s) = Finished (Some err)" using sig(1) by blast+
  next
    assume "or_main s = Killed"
    then show "2 \<le> count_list acts P_Signal" by (rule sig(3))
  next
    assume "or_main s = Panicked"
    then obtain p where p: "panics E gl pg p s" using ok(2) by (auto simp only: main_ok_def main_pc.case)
    obtain n2 where ads: "pg_adapters pg = [] \<or> (\<exists>a n1. pg_adapters pg = [(a, make_chan n1)] \<and> 0 < n1)"
      by (rule startup_shape [OF assms(1)]) (rule that)
    show "(\<exists>a events lg. pg_adapters pg = [(a, events)] \<and> fw_feeder (sy_flow (or_system s)) = Starting None \<and>
          \<not> no_panic (Decode E (ad_decoder a) (ad_chain a) lg)) \<or> em_subscriberBufSize (pg_emitter pg) < 0"
    proof (cases p)
      case (In_Decoder lg)
      then show ?thesis using p ads by auto
    next
      case (In_Subscribe f)
      then show ?thesis using p ok(5) by (simp add: subscribing_panics_def)
    qed
  }
qed

section \<open>Clients that stay\<close>

text \<open>C20. A client keeps the program from ending in order: once it has subscribed, then whatever else happens, as long as it does not
  hang up, no send to it fails and the server's listener does not fail, it stays subscribed and \<open>main\<close> does not get past \<open>wg.Wait\<close>,
  so no first signal ends the program. Only a second one, which kills it, or a panic does.\<close>

theorem client_holds_program:
  assumes "\<forall>k. gl_stopped gl k \<longrightarrow> k = 0" "startup E W sp ho = Inr pg"
    and "prun E gl answer pg (before :: 'e pact list) (oracle_start (start_log ho) lgs pg) = Some s"
    and "subscribed i (gs_service (server_of s)) \<noteq> None" "gs_state (or_server s) \<in> {Serving, Stopping}"
    and "prun E gl answer pg (acts :: 'e pact list) s = Some t" "\<forall>b. P_Server b \<in> set acts \<longrightarrow> stays i b"
  shows "subscribed i (gs_service (server_of t)) \<noteq> None \<and> or_main t \<in> {Waiting_For_Signal, Joining, Killed, Panicked} \<and>
    (or_main t = Killed \<longrightarrow> 2 \<le> count_list (before @ acts) P_Signal)"
proof -
  obtain n where n: "pg_emitter pg = NewEmitter n" by (rule startup_shape [OF assms(2)]) (rule that)
  obtain bs where bs: "grun gl (pg_telemetry pg) bs (new_server (pg_port pg) (NewEmitter n)) = Some (server_of s)"
    using prun_server [OF assms(3)] unfolding server_of_start n by blast
  obtain cs where cs: "grun gl (pg_telemetry pg) cs (server_of s) = Some (server_of t)"
    "\<forall>b\<in>set cs. b = Context_Done \<or> P_Server b \<in> set acts \<or> (\<exists>sig. b = Rpc (EmitSig sig))"
    using prun_server [OF assms(6)] by blast
  have "\<forall>b\<in>set cs. stays i b"
  proof
    fix b assume "b \<in> set cs"
    then have "b = Context_Done \<or> P_Server b \<in> set acts \<or> (\<exists>sig. b = Rpc (EmitSig sig))" using cs(2) by simp
    then show "stays i b"
    proof (elim disjE)
      assume "P_Server b \<in> set acts"
      then show ?thesis using assms(7) by simp
    qed (auto simp: stays_def)
  qed
  moreover have "gs_state (server_of s) \<in> {Serving, Stopping}" using assms(5) by (simp add: server_of_def)
  ultimately have t: "subscribed i (gs_service (server_of t)) \<noteq> None" "gs_state (server_of t) \<in> {Serving, Stopping}"
    using open_stream_keeps_server [OF assms(1) bs cs(1) assms(4)] by blast+
  note run = exec_trans [OF assms(3,6)]
  note ok = reachable_program [OF assms(2) run]
  have "ServerG \<in> set (or_running t)" using ok(1) t(2) by (auto simp: live_ok_def server_of_def)
  then have "or_main t \<noteq> Completed r" for r using ok(2) by (auto simp: main_ok_def)
  moreover have "or_main t \<noteq> Died err" for err using ok(2) t(2) by (auto simp: main_ok_def server_of_def)
  ultimately have "or_main t \<in> {Waiting_For_Signal, Joining, Killed, Panicked}" by (cases "or_main t") auto
  with t(1) show ?thesis using signalled_program(3) [OF assms(2) run] by (intro conjI impI)
qed

section \<open>Ending after a signal\<close>

text \<open>Runs of the parts are runs of the program.\<close>

lemma prun_own_steps:
  "exec (sstep (pg_enricher pg)) acts (or_system s) = Some sy \<Longrightarrow> \<forall>a\<in>set acts. own_step a \<Longrightarrow> alive s \<Longrightarrow>
   prun E gl answer pg (map P_System acts) s = Some (s\<lparr>or_system := sy\<rparr>)"
proof (induction acts arbitrary: s)
  case (Cons a acts)
  then obtain u where u: "sstep (pg_enricher pg) a (or_system s) = Some u" "exec (sstep (pg_enricher pg)) acts u = Some sy"
    by (auto split: option.splits)
  then show ?case using Cons.IH [of "s\<lparr>or_system := u\<rparr>"] Cons.prems(2,3) by (simp add: alive_def)
qed simp

lemma prun_server_steps:
  "grun gl (pg_telemetry pg) acts (server_of s) = Some sv \<Longrightarrow> \<forall>b\<in>set acts. stopping_act b \<Longrightarrow> alive s \<Longrightarrow>
   \<exists>t. prun E gl answer pg (map P_Server acts) s = Some t \<and> server_of t = sv \<and>
     or_system t = (or_system s)\<lparr>sy_service := gs_service sv\<rparr> \<and> or_running t = or_running s \<and> or_main t = or_main s \<and>
     or_ops t = or_ops s"
proof (induction acts arbitrary: s)
  case Nil
  then have "(or_system s)\<lparr>sy_service := gs_service sv\<rparr> = or_system s" using server_of_service [of s] by (cases "or_system s") simp
  then show ?case using Nil by simp
next
  case (Cons b acts)
  then obtain u where u: "gstep gl (pg_telemetry pg) b (server_of s) = Some u" "grun gl (pg_telemetry pg) acts u = Some sv"
    by (auto split: option.splits)
  let ?s = "s\<lparr>or_server := u, or_system := (or_system s)\<lparr>sy_service := gs_service u\<rparr>\<rparr>"
  have "server_of ?s = u" by (simp add: server_of_def)
  then show ?case using Cons.IH [of ?s] Cons.prems(2,3) u by (simp add: alive_def)
qed

text \<open>Goroutines whose stages have returned leave the wait group.\<close>

lemma goroutines_return:
  "alive s \<Longrightarrow> distinct gs \<Longrightarrow> distinct (or_running s) \<Longrightarrow>
   \<forall>g\<in>set gs. g \<in> set (or_running s) \<and> has_returned s g \<and> fatal_of s g = None \<Longrightarrow>
   prun E gl answer pg (map P_Returns gs :: 'e pact list) s = Some (s\<lparr>or_running := filter (\<lambda>g. g \<notin> set gs) (or_running s)\<rparr>)"
proof (induction gs arbitrary: s)
  case (Cons g gs)
  let ?u = "s\<lparr>or_running := remove1 g (or_running s)\<rparr>"
  have same: "has_returned ?u h = has_returned s h" "fatal_of ?u h = fatal_of s h" for h by (cases h; simp add: fatal_of_def)+
  have rem: "remove1 g (or_running s) = filter (\<lambda>h. h \<noteq> g) (or_running s)"
    using Cons.prems(3) by (auto simp: distinct_remove1_removeAll removeAll_filter_not_eq intro: filter_cong)
  have 1: "pstep E gl answer pg (P_Returns g :: 'e pact) s = Some ?u" using Cons.prems(1,4) by simp
  have "prun E gl answer pg (map P_Returns gs :: 'e pact list) ?u = Some (?u\<lparr>or_running := filter (\<lambda>g. g \<notin> set gs) (or_running ?u)\<rparr>)"
    by (rule Cons.IH) (use Cons.prems same in \<open>auto simp: alive_def rem\<close>)
  then show ?case using 1 by (simp add: rem)
qed simp

lemma all_return:
  assumes "alive s" "cancelled (or_system s)" "stopped (or_system s)" "gs_state (or_server s) = Finished r" "distinct (or_running s)"
  shows "prun E gl answer pg (map P_Returns (or_running s) :: 'e pact list) s = Some (s\<lparr>or_running := []\<rparr>)"
proof -
  have "has_returned s g \<and> fatal_of s g = None" for g using assms(2-4) by (cases g) (simp_all add: stopped_def fatal_of_def)
  moreover have "filter (\<lambda>g. g \<notin> set (or_running s)) (or_running s) = []" by (simp add: filter_empty_conv)
  ultimately show ?thesis using goroutines_return [OF assms(1,5,5), of E gl answer pg] by simp
qed

lemma distinct_filter_eq: "distinct xs \<Longrightarrow> x \<in> set xs \<Longrightarrow> filter (\<lambda>y. y = x) xs = [x]"
  by (induction xs) (auto simp: filter_empty_conv)

lemma main_ends:
  assumes "alive s" "cancelled (or_system s)" "or_running s = []"
  shows "\<exists>(acts :: 'e pact list) t. prun E gl answer pg acts s = Some t \<and>
    or_main t = Completed (fst (Shutdown answer (pg_telemetry pg))) \<and> or_system t = or_system s"
proof (cases "or_main s = Joining")
  case True
  then show ?thesis using assms(3) by (intro exI [of _ "[P_Joins]"]) (simp add: Let_def)
next
  case False
  then have "or_main s = Waiting_For_Signal" using assms(1) by (simp add: alive_def)
  then show ?thesis using assms(2,3) by (intro exI [of _ "[P_Wakes, P_Joins]"]) (simp add: Let_def)
qed

text \<open>C19. The program can end: if no adapter has a buffer that exceeds that of \<open>rawEvents\<close> by more than one, then from every state
  after a signal, with whatever is under way in the channels and whichever clients are connected, there is a way to the end
  of \<open>main\<close>, on which every goroutine returns, the clients leave and the telemetry is shut down.\<close>

theorem program_can_complete:
  assumes "startup E W sp ho = Inr pg" "\<forall>(a, events)\<in>set (pg_adapters pg). ch_cap events \<le> ch_cap (pg_raw pg) + 1"
    and "blocks_for_pending gl" "admits_while_serving gl"
    and "prun E gl answer pg (acts :: 'e pact list) (oracle_start (start_log ho) lgs pg) = Some s" "P_Signal \<in> set acts" "alive s"
  shows "\<exists>(more :: 'e pact list) t. prun E gl answer pg more s = Some t \<and> stopped (or_system t) \<and>
    or_main t = Completed (fst (Shutdown answer (pg_telemetry pg)))"
proof -
  note sig = signalled_program [OF assms(1,5)] and ok' = reachable_program(3) [OF assms(1,5)]
  from started_system [OF assms(1,5)] obtain bs :: "'e sact list" and n1 n2 n3 n4 n5 n where
    bs: "srun (pg_enricher pg) bs (fresh_system (pg_enricher pg) (pg_engine pg) n1 n2 n3 n4 n5 n (arriving pg lgs)) = Some (or_system s)"
    and n: "0 < n2" "if pg_adapters pg = [] then n1 = 0 else \<exists>a. pg_adapters pg = [(a, make_chan n1)]" "pg_raw pg = make_chan n2"
    by blast
  have fit: "nat n1 \<le> nat n2 + 1" "0 < nat n2" using n assms(2) by (auto simp: make_chan_def split: if_splits)
  obtain sacts :: "'e sact list" and sy where sy: "srun (pg_enricher pg) sacts (or_system s) = Some sy"
    "\<forall>a\<in>set sacts. own_step a" "stopped sy"
    using stopping_finishes [OF fresh_flow_inv [OF bs] fit] sig(1) assms(6) by blast
  let ?s1 = "s\<lparr>or_system := sy\<rparr>"
  have c: "cancelled sy" using sy(1) sig(1) assms(6) by (auto intro: srun_invariant sstep_frame(1))
  have 1: "prun E gl answer pg (map P_System sacts) s = Some ?s1" using prun_own_steps sy assms(7) unfolding srun_exec by blast
  have ok: "server_ok (server_of ?s1)" "gs_ctx_done (server_of ?s1)" using sig(2) ok' assms(6) by (simp_all add: server_ok_def server_of_def)
  obtain gacts sv r where sv: "grun gl (pg_telemetry pg) gacts (server_of ?s1) = Some sv" "\<forall>a\<in>set gacts. stopping_act a"
    "gs_state sv = Finished r" using server_can_finish [OF assms(3,4) ok] by blast
  have alive1: "alive ?s1" using assms(7) by (simp add: alive_def)
  obtain u where u: "prun E gl answer pg (map P_Server gacts :: 'e pact list) ?s1 = Some u" "server_of u = sv"
    "or_system u = sy\<lparr>sy_service := gs_service sv\<rparr>" "or_main u = or_main s"
    using prun_server_steps [OF sv(1,2) alive1] by auto
  have fin: "gs_state (or_server u) = Finished r" using u(2) sv(3) by (auto simp: server_of_def)
  have dist: "distinct (or_running u)" using reachable_program(1) [OF assms(1) exec_trans [OF assms(5) exec_trans [OF 1 u(1)]]]
    by (simp add: live_ok_def)
  have st: "alive u" "cancelled (or_system u)" "stopped (or_system u)" using u assms(7) c sy(3) by (simp_all add: alive_def stopped_def)
  have 3: "prun E gl answer pg (map P_Returns (or_running u) :: 'e pact list) u = Some (u\<lparr>or_running := []\<rparr>)"
    by (rule all_return [OF st fin dist])
  obtain last :: "'e pact list" and t where t: "prun E gl answer pg last (u\<lparr>or_running := []\<rparr>) = Some t"
    "or_main t = Completed (fst (Shutdown answer (pg_telemetry pg)))" "or_system t = or_system u"
    using main_ends [of "u\<lparr>or_running := []\<rparr>" E gl answer pg] st by (auto simp: alive_def)
  have "prun E gl answer pg (map P_System sacts @ map P_Server gacts @ map P_Returns (or_running u) @ last :: 'e pact list) s = Some t"
    by (intro exec_trans [OF 1] exec_trans [OF u(1)] exec_trans [OF 3] t(1))
  then show ?thesis using t(2,3) st(3) by (intro exI conjI) (assumption | simp)+
qed

section \<open>Hanging after a signal\<close>

lemma flow_own_steps:
  "frun (en_tel e) fs (sy_flow s) = Some f \<Longrightarrow> Enricher_Takes \<notin> set fs \<Longrightarrow> exec (sstep e) (map On_Flow fs) s = Some (s\<lparr>sy_flow := f\<rparr>)"
proof (induction fs arbitrary: s)
  case (Cons b fs)
  then obtain g where g: "fstep (en_tel e) b (sy_flow s) = Some g" "frun (en_tel e) fs g = Some f" by (auto split: option.splits)
  then show ?case using Cons.IH [of "s\<lparr>sy_flow := g\<rparr>"] Cons.prems(2) by auto
qed simp

text \<open>A run of the adapter's goroutine and the normalizer is one of the program; the signal is the program's.\<close>

fun lift_fact :: "fact \<Rightarrow> 'e pact" where
  "lift_fact Signal_Received = P_Signal"
| "lift_fact b = P_System (On_Flow b)"

lemma pstep_lift:
  assumes "fstep (en_tel (pg_enricher pg)) b (sy_flow (or_system s)) = Some f" "b \<noteq> Enricher_Takes" "or_main s = Waiting_For_Signal"
  shows "\<exists>t. pstep E gl answer pg (lift_fact b :: 'e pact) s = Some t \<and> sy_flow (or_system t) = f \<and> or_main t = Waiting_For_Signal"
  using assms by (cases b) (simp_all add: alive_def own_step_def)

lemma prun_lift:
  "frun (en_tel (pg_enricher pg)) fs (sy_flow (or_system s)) = Some f \<Longrightarrow> Enricher_Takes \<notin> set fs \<Longrightarrow> or_main s = Waiting_For_Signal \<Longrightarrow>
   \<exists>t. prun E gl answer pg (map lift_fact fs :: 'e pact list) s = Some t \<and> sy_flow (or_system t) = f \<and> or_main t = Waiting_For_Signal"
proof (induction fs arbitrary: s)
  case (Cons b fs)
  then obtain g where g: "fstep (en_tel (pg_enricher pg)) b (sy_flow (or_system s)) = Some g" "frun (en_tel (pg_enricher pg)) fs g = Some f"
    by (auto split: option.splits)
  obtain u where u: "pstep E gl answer pg (lift_fact b :: 'e pact) s = Some u" "sy_flow (or_system u) = g" "or_main u = Waiting_For_Signal"
    using pstep_lift [OF g(1), of E gl answer] Cons.prems(2,3) by auto
  from Cons.IH [of u] g(2) u(2,3) Cons.prems(2) obtain t where "prun E gl answer pg (map lift_fact fs :: 'e pact list) u = Some t"
    "sy_flow (or_system t) = f" "or_main t = Waiting_For_Signal" by auto
  then show ?case using u(1) by auto
qed simp

lemma frozen_flow:
  assumes "prun E gl answer pg (acts :: 'e pact list) s = Some t"
    and "\<And>b g. fstep (en_tel (pg_enricher pg)) b (sy_flow (or_system s)) = Some g \<Longrightarrow> g = sy_flow (or_system s)"
  shows "sy_flow (or_system t) = sy_flow (or_system s)"
proof -
  obtain bs :: "'e sact list" where bs: "srun (pg_enricher pg) bs (or_system s) = Some (or_system t)"
    using prun_system [OF assms(1)] by blast
  show ?thesis
  proof (rule srun_invariant [OF bs, of "\<lambda>sy. sy_flow sy = sy_flow (or_system s)"])
    fix a u v assume "sy_flow u = sy_flow (or_system s)" "sstep (pg_enricher pg) a u = Some v"
    then show "sy_flow v = sy_flow (or_system s)" using sstep_flow [of "pg_enricher pg" a u v] assms(2) by auto
  qed simp
qed

lemma killed_by_signal:
  assumes "prun E gl answer pg (acts :: 'e pact list) s = Some t" "or_main s \<noteq> Killed" "P_Signal \<notin> set acts"
  shows "or_main t \<noteq> Killed"
proof (rule exec_invariant [OF assms(1), of "\<lambda>u. or_main u \<noteq> Killed"])
  fix a :: "'e pact" and u v
  assume "a \<in> set acts" "or_main u \<noteq> Killed" and step: "pstep E gl answer pg a u = Some v"
  moreover from this have "a \<noteq> P_Signal" using assms(3) by auto
  ultimately show "or_main v \<noteq> Killed" by (cases rule: pstep_cases [OF step]) auto
qed (rule assms(2))

text \<open>C30. Shutting down can hang. For every program that starts with an adapter whose \<open>event_buffer\<close> exceeds \<open>raw_event_buffer\<close> by two or
  more and whose subscription brings that many events, a state after the signal is reached from which, whatever its goroutines
  and clients do then, \<open>main\<close> never completes and its goroutines do not all return: it waits for them for ever unless a second
  signal kills it (or a subscription panics for a negative buffer).\<close>

theorem program_can_hang:
  assumes "startup E W sp ho = Inr pg" "pg_adapters pg = [(a, events)]"
    and "ch_cap (pg_raw pg) + 2 \<le> ch_cap events" "ch_cap (pg_raw pg) + 2 \<le> length lgs"
  shows "\<exists>(acts :: 'e pact list) s. prun E gl answer pg acts (oracle_start (start_log ho) lgs pg) = Some s \<and> P_Signal \<in> set acts \<and>
    or_main s = Waiting_For_Signal \<and>
    (\<forall>(more :: 'e pact list) t. prun E gl answer pg more s = Some t \<longrightarrow> AdapterG \<in> set (or_running t) \<and>
       (or_main t \<in> {Waiting_For_Signal, Joining} \<or> or_main t = Killed \<and> P_Signal \<in> set more \<or>
        or_main t = Panicked \<and> em_subscriberBufSize (pg_emitter pg) < 0))"
proof -
  let ?tel = "en_tel (pg_enricher pg)" and ?init = "oracle_start (start_log ho) lgs pg"
  obtain m k n1 where p: "pg_raw pg = make_chan m" "0 < m" "pg_chain pg = make_chan k" "events = make_chan n1"
    by (rule startup_shape [OF assms(1)]) (use assms(2) in auto)
  have flow: "sy_flow (or_system ?init) = flow_start (make_chan n1) (make_chan m) (make_chan k) lgs"
    using assms(2) p by (simp add: adapter_flow_def)
  have big: "nat m + 2 \<le> nat n1" "nat m + 2 \<le> length lgs" using assms(3,4) p by (simp_all add: make_chan_def)
  obtain fs f x where f: "frun ?tel fs (sy_flow (or_system ?init)) = Some f" "Enricher_Takes \<notin> set fs" "fw_cancelled f"
    "fw_feeder f = Forwarding x" "\<And>b g. fstep ?tel b f = Some g \<Longrightarrow> g = f"
    using shutdown_can_hang [OF p(2) big, of ?tel k] unfolding flow by blast
  obtain s where s: "prun E gl answer pg (map lift_fact fs :: 'e pact list) ?init = Some s" "sy_flow (or_system s) = f"
    "or_main s = Waiting_For_Signal" using prun_lift [OF f(1,2)] by fastforce
  have "P_Signal \<in> set (map lift_fact fs :: 'e pact list)" using signalled_program(1) [OF assms(1) s(1)] f(3) s(2) by simp
  moreover have "AdapterG \<in> set (or_running t) \<and> (or_main t \<in> {Waiting_For_Signal, Joining} \<or> or_main t = Killed \<and> P_Signal \<in> set more \<or>
      or_main t = Panicked \<and> em_subscriberBufSize (pg_emitter pg) < 0)"
    if t: "prun E gl answer pg (more :: 'e pact list) s = Some t" for more t
  proof -
    have ft: "sy_flow (or_system t) = f" using frozen_flow [OF t] f(5) unfolding s(2) by blast
    note run = exec_trans [OF s(1) t]
    note ok = reachable_program [OF assms(1) run]
    have adapter: "AdapterG \<in> set (or_running t)" using ok(1) ft f(4) by (auto simp: live_ok_def)
    have "or_main t \<noteq> Completed r" for r using ok(2) adapter by (auto simp: main_ok_def)
    moreover have "or_main t \<noteq> Died err" for err using ok(2) ft f(3) by (auto simp: main_ok_def)
    moreover have "or_main t = Killed \<Longrightarrow> P_Signal \<in> set more" using killed_by_signal [OF t] s(3) by auto
    moreover have "em_subscriberBufSize (pg_emitter pg) < 0" if panicked: "or_main t = Panicked"
    proof -
      obtain q where q: "panics E gl pg q t" using ok(2) unfolding main_ok_def panicked main_pc.case by blast
      then show ?thesis using ok(5) ft f(4) by (cases q) (simp_all add: subscribing_panics_def)
    qed
    ultimately show ?thesis using adapter by (cases "or_main t") auto
  qed
  ultimately show ?thesis using s(1,3) by blast
qed

section \<open>When the adapter gives up\<close>

text \<open>No signal comes, no listener fails, and \<open>make\<close> does not panic on a subscription.\<close>

definition calm_act :: "'e pact \<Rightarrow> bool" where
  "calm_act a \<longleftrightarrow> a \<noteq> P_Signal \<and> (\<forall>err. a \<noteq> P_Server (Accept_Fails err)) \<and> (\<forall>err. a \<noteq> P_Ops (Http_Fails err)) \<and>
     (\<forall>f. a \<noteq> P_Panics (In_Subscribe f))"

definition calm_server :: "server \<Rightarrow> bool" where
  "calm_server sv \<longleftrightarrow> gs_state sv = Serving \<and> \<not> gs_ctx_done sv"

lemma calm_server_step:
  assumes "pstep E gl answer pg a s = Some t" "calm_server (or_server s)" "calm_act a"
  shows "calm_server (or_server t)"
  using assms(1)
proof (cases rule: pstep_cases)
  case (server b sv)
  then show ?thesis
    using assms(2,3) by (cases b; auto simp: calm_server_def calm_act_def server_of_def stopping_act_def split: if_splits option.splits)+
qed (use assms(2,3) in \<open>simp_all add: calm_act_def\<close>)

text \<open>\<open>Start\<close> has returned, and \<open>main\<close> and the server wait.\<close>

definition without_adapter :: "'c live \<Rightarrow> bool" where
  "without_adapter s \<longleftrightarrow> draining (or_system s) \<and> calm_server (or_server s) \<and> or_main s = Waiting_For_Signal"

lemma without_adapter_step:
  assumes "pstep E gl answer pg a s = Some t" "without_adapter s" "calm_act a"
  shows "without_adapter t"
proof -
  have sv: "calm_server (or_server t)" using calm_server_step [OF assms(1)] assms(2,3) by (simp add: without_adapter_def)
  from assms(1) show ?thesis
  proof (cases rule: pstep_cases)
    case (system b sy)
    have "b \<noteq> On_Flow Signal_Received" using system(3) by (auto simp: own_step_def)
    then have "draining sy" using draining_step [OF system(4)] assms(2) by (simp add: without_adapter_def)
    then show ?thesis using system(5) assms(2) sv by (simp add: without_adapter_def)
  next
    case (server b sv)
    then show ?thesis using assms(2) sv
      by (simp add: without_adapter_def draining_def closed_in_order_def has_room_def)
  next
    case (fatal err)
    then show ?thesis using assms(2) by (auto simp: without_adapter_def calm_server_def)
  next
    case (panics p)
    then have "\<exists>lg. p = In_Decoder lg" using assms(3) by (cases p) (auto simp: calm_act_def)
    then show ?thesis using panics assms(2) by (auto simp: without_adapter_def draining_def)
  qed (use assms(2,3) sv in \<open>simp_all add: without_adapter_def calm_act_def draining_def\<close>)
qed

text \<open>After the last of its stages the pipeline emits nothing.\<close>

lemma stopped_emits_nothing:
  assumes "prun E gl answer pg (acts :: 'e pact list) s = Some t" "\<not> sy_emitting (or_system s)"
  shows "sy_emitted (or_system t) = sy_emitted (or_system s)"
proof -
  let ?P = "\<lambda>u. \<not> sy_emitting (or_system u) \<and> sy_emitted (or_system u) = sy_emitted (or_system s)"
  have "?P v" if "?P u" "pstep E gl answer pg a u = Some v" for a :: "'e pact" and u v
    using that(2)
  proof (cases rule: pstep_cases)
    case (system b sy)
    have "b \<noteq> Emitter_Takes" "\<forall>c. b \<noteq> On_Service c" using that(1) system(3,4) by (auto simp: own_step_def)
    then show ?thesis using that(1) service_frame [OF system(4)] sstep_returned(5) [OF system(4)] system(5) by simp
  qed (use that(1) in simp_all)
  moreover have "?P s" using assms(2) by simp
  ultimately show ?thesis using exec_invariant [OF assms(1), of ?P] by blast
qed

lemma drained_is_stopped:
  assumes "draining sy" "\<not> sy_emitting sy" "sy_workers sy \<noteq> []"
  shows "stopped sy"
proof -
  have "sy_pc sy = EReturned" "set (sy_workers sy) \<subseteq> {wstate.Returned}" using assms(1,2) by (simp_all add: draining_def closed_in_order_def)
  moreover from this(2) have "wstate.Returned \<in> set (sy_workers sy)" using assms(3) by (cases "sy_workers sy") auto
  ultimately show ?thesis using assms by (simp add: draining_def closed_in_order_def stopped_def flow_closed_def)
qed

text \<open>C29. When the adapter gives up the program does not. From any state that it reaches without a signal once \<open>Start\<close> has returned,
  whatever events are on their way and whichever clients are connected, as long as no signal comes, no listener fails and no
  subscription panics: \<open>main\<close> waits and the server serves; all the stages can drain, return and leave the wait group, which
  holds the gRPC server alone then; and once the emitter has returned nothing is ever emitted again.\<close>

theorem program_idles_when_adapter_gives_up:
  assumes "startup E W sp ho = Inr pg"
    and "prun E gl answer pg (before :: 'e pact list) (oracle_start (start_log ho) lgs pg) = Some s" "P_Signal \<notin> set before"
    and "alive s" "\<not> is_starting (fw_feeder (sy_flow (or_system s)))" "gs_state (or_server s) = Serving"
    and "prun E gl answer pg (acts :: 'e pact list) s = Some t" "\<forall>a\<in>set acts. calm_act a"
  shows "or_main t = Waiting_For_Signal \<and> gs_state (or_server t) = Serving \<and>
    (\<exists>(more :: 'e pact list) u. prun E gl answer pg more t = Some u \<and> (\<forall>a\<in>set more. calm_act a) \<and> stopped (or_system u) \<and>
       or_running u = [ServerG]) \<and>
    (\<not> sy_emitting (or_system t) \<longrightarrow>
       (\<forall>(more :: 'e pact list) u. prun E gl answer pg more t = Some u \<longrightarrow> sy_emitted (or_system u) = sy_emitted (or_system t)))"
proof -
  note ok = reachable_program [OF assms(1,2)] and sig = signalled_program [OF assms(1,2)]
  have c: "\<not> cancelled (or_system s)" "\<not> gs_ctx_done (or_server s)" using sig(1,2) assms(3) by blast+
  have "without_adapter s"
    using ok(1,4) c assms(5,6) alive_waiting [OF ok(2) assms(4)]
    by (simp add: without_adapter_def draining_def live_ok_def calm_server_def)
  then have wt: "without_adapter t"
    by (rule exec_invariant [OF assms(7)]) (use without_adapter_step assms(8) in blast)
  note run = exec_trans [OF assms(2,7)]
  have lt: "live_ok t" by (rule reachable_program(1) [OF assms(1) run])
  have al: "alive t" using wt by (simp add: alive_def without_adapter_def)
  obtain sacts :: "'e sact list" and sy where sy: "srun (pg_enricher pg) sacts (or_system t) = Some sy" "\<forall>a\<in>set sacts. own_step a" "\<not> sy_emitting sy"
    using draining_finishes [of "or_system t" "pg_enricher pg"] wt unfolding without_adapter_def by blast
  let ?v = "t\<lparr>or_system := sy\<rparr>"
  have 1: "prun E gl answer pg (map P_System sacts) t = Some ?v" using prun_own_steps [OF _ sy(2) al] sy(1) unfolding srun_exec by blast
  have calm1: "\<forall>a\<in>set (map P_System sacts). calm_act a" by (auto simp: calm_act_def)
  have wv: "without_adapter ?v" by (rule exec_invariant [OF 1, of without_adapter, OF wt]) (use without_adapter_step calm1 in blast)
  have lv: "live_ok ?v" by (rule reachable_program(1) [OF assms(1) exec_trans [OF run 1]])
  have st: "stopped sy" using drained_is_stopped [of sy] wv lv sy(3) by (simp add: without_adapter_def live_ok_def)
  let ?gs = "filter (\<lambda>g. g \<noteq> ServerG) (or_running ?v)"
  have "has_returned ?v g \<and> fatal_of ?v g = None" if "g \<noteq> ServerG" for g
    using that st by (cases g) (simp_all add: stopped_def fatal_of_def)
  then have 2: "prun E gl answer pg (map P_Returns ?gs :: 'e pact list) ?v =
      Some (?v\<lparr>or_running := filter (\<lambda>g. g \<notin> set ?gs) (or_running ?v)\<rparr>)"
    using al lv by (intro goroutines_return) (auto simp: alive_def live_ok_def)
  have calm2: "\<forall>a\<in>set (map P_Returns ?gs :: 'e pact list). calm_act a" by (auto simp: calm_act_def)
  have "ServerG \<in> set (or_running ?v)" using lv wv by (auto simp: live_ok_def without_adapter_def calm_server_def)
  then have left: "filter (\<lambda>g. g \<notin> set ?gs) (or_running ?v) = [ServerG]"
  proof -
    have "filter (\<lambda>g. g \<notin> set ?gs) (or_running ?v) = filter (\<lambda>g. g = ServerG) (or_running ?v)" by (rule filter_cong) auto
    also have "\<dots> = [ServerG]" using lv \<open>ServerG \<in> set (or_running ?v)\<close> by (intro distinct_filter_eq) (simp_all add: live_ok_def)
    finally show ?thesis .
  qed
  have "prun E gl answer pg (map P_System sacts @ map P_Returns ?gs) t = Some (?v\<lparr>or_running := [ServerG]\<rparr>)"
    using exec_trans [OF 1 2] unfolding left .
  moreover have "\<forall>a\<in>set (map P_System sacts @ map P_Returns ?gs). calm_act a" using calm1 calm2 by auto
  ultimately have "\<exists>(more :: 'e pact list) u. prun E gl answer pg more t = Some u \<and> (\<forall>a\<in>set more. calm_act a) \<and> stopped (or_system u) \<and>
       or_running u = [ServerG]" using st by (intro exI conjI) (assumption | simp)+
  then show ?thesis using wt stopped_emits_nothing unfolding without_adapter_def calm_server_def by blast
qed

section \<open>A program that does nothing and says that it is well\<close>

text \<open>The adapter's goroutine is blocked, nothing is on its way behind it, and the servers serve.\<close>

definition idle_behind :: "'c system \<Rightarrow> bool" where
  "idle_behind sy \<longleftrightarrow> (\<forall>w\<in>set (sy_workers sy). w = Idle) \<and> sy_workers sy \<noteq> [] \<and> ch_buf (sy_enriched sy) = [] \<and>
     sy_pc sy = EReceiving \<and> ch_buf (sy_signals sy) = [] \<and> sy_emitting sy \<and> sy_rounds sy = [] \<and> sy_emitted sy = []"

definition blocked :: "'c tel \<Rightarrow> 'c live \<Rightarrow> bool" where
  "blocked tel s \<longleftrightarrow> is_starting (fw_feeder (sy_flow (or_system s))) \<and> fw_norm (sy_flow (or_system s)) = norm.Receiving \<and>
     ch_buf (fw_chain (sy_flow (or_system s))) = [] \<and> ch_buf (fw_raw (sy_flow (or_system s))) = [] \<and> (\<forall>b. fstep tel b (sy_flow (or_system s)) \<noteq> None \<longrightarrow> b = Signal_Received) \<and>
     idle_behind (or_system s) \<and> \<not> cancelled (or_system s) \<and> calm_server (or_server s) \<and>
     or_main s = Waiting_For_Signal"

definition healthy :: "'c live \<Rightarrow> bool" where
  "healthy s \<longleftrightarrow> (\<exists>p. or_ops s = Some p \<and> op_serving p \<and> \<not> op_closed p \<and> \<not> op_ctx_done p \<and> HealthzRoute \<in> set (op_routes p))"

lemma idle_worker: "idle_behind sy \<Longrightarrow> the_worker sy i = Idle \<or> the_worker sy i = wstate.Returned \<and> length (sy_workers sy) \<le> i"
  by (auto simp: the_worker_def idle_behind_def)

lemma blocked_no_own_step:
  assumes "blocked (en_tel e) s" "own_step a"
  shows "sstep e a (or_system s) = None"
proof (cases "worker_act a")
  case (Some i)
  have "the_worker (or_system s) i = Idle \<or> the_worker (or_system s) i = wstate.Returned"
    using idle_worker assms(1) by (auto simp: blocked_def)
  then show ?thesis using Some assms(1)
    by (cases a) (auto simp: worker_act_def blocked_def split: option.split)
next
  case None
  then show ?thesis using assms
    by (cases a) (auto simp: worker_act_def blocked_def idle_behind_def own_step_def neq_Nil_conv split: option.split)
qed

lemma blocked_not_returned: "blocked tel s \<Longrightarrow> \<not> has_returned s g"
  by (cases g) (auto simp: blocked_def idle_behind_def calm_server_def neq_Nil_conv)

lemma blocked_step:
  assumes "pstep E gl answer pg a s = Some t" "blocked (en_tel (pg_enricher pg)) s" "calm_act a"
  shows "blocked (en_tel (pg_enricher pg)) t"
  using assms(1)
proof (cases rule: pstep_cases)
  case (system b sy)
  then show ?thesis using blocked_no_own_step [OF assms(2) system(3)] by simp
next
  case (server b sv)
  have "calm_server sv" using calm_server_step [OF assms(1) _ assms(3)] assms(2) server(5) by (simp add: blocked_def)
  then show ?thesis using assms(2) server by (simp add: blocked_def idle_behind_def)
next
  case (returned g)
  then show ?thesis using blocked_not_returned [OF assms(2)] by blast
next
  case (fatal err)
  then show ?thesis using blocked_not_returned [OF assms(2)] by blast
next
  case (panics p)
  obtain lg where "p = In_Decoder lg" using panics(1) assms(3) by (cases p) (auto simp: calm_act_def)
  then have "fw_feeder (sy_flow (or_system s)) = Starting None" using panics by simp
  then have "fstep (en_tel (pg_enricher pg)) Start_Returns (sy_flow (or_system s)) \<noteq> None" by simp
  then show ?thesis using assms(2) unfolding blocked_def by blast
qed (use assms(2,3) in \<open>simp_all add: blocked_def calm_act_def\<close>)

lemma healthy_step:
  assumes "pstep E gl answer pg a s = Some t" "healthy s" "calm_act a" "or_main s = Waiting_For_Signal"
  shows "healthy t"
  using assms(1)
proof (cases rule: pstep_cases)
  case (ops h p)
  obtain q where q: "or_ops s = Some q" "op_serving q" "\<not> op_closed q" "\<not> op_ctx_done q" "HealthzRoute \<in> set (op_routes q)"
    using assms(2) by (auto simp: healthy_def)
  obtain p' where p': "hstep h q = Some p'" "or_ops t = Some p'" using assms(1) ops(1-3) q(1) by (auto split: if_splits option.splits)
  moreover have "\<forall>err. h \<noteq> Http_Fails err" using assms(3) ops(1) by (simp add: calm_act_def)
  ultimately have "op_serving p' \<and> \<not> op_closed p' \<and> \<not> op_ctx_done p'" "op_routes p' = op_routes q"
    using hstep_keeps_serving [of h q p'] q ops(3) hstep_routes by auto
  then show ?thesis using p' q by (simp add: healthy_def)
qed (use assms(2-4) in \<open>auto simp: healthy_def\<close>)

lemma blocked_run:
  assumes "prun E gl answer pg acts s = Some t" "blocked (en_tel (pg_enricher pg)) s" "healthy s" "\<forall>a\<in>set acts. calm_act a"
  shows "blocked (en_tel (pg_enricher pg)) t \<and> healthy t"
proof (rule exec_invariant [OF assms(1)])
  show "blocked (en_tel (pg_enricher pg)) s \<and> healthy s" using assms(2,3) by simp
  fix a u v assume "a \<in> set acts" "blocked (en_tel (pg_enricher pg)) u \<and> healthy u" "pstep E gl answer pg a u = Some v"
  then show "blocked (en_tel (pg_enricher pg)) v \<and> healthy v"
    using blocked_step healthy_step assms(4) by (metis blocked_def)
qed

lemma startup_ops:
  assumes "startup E W sp ho = Inr pg" "pg_ops pg = Some (addr, routes)"
  shows "HealthzRoute \<in> set routes"
proof -
  obtain cfg reg rules t where l: "load_files ho = Inr (cfg, reg, rules, t, Some (addr, routes))"
    using assms by (auto simp: startup_def bind_sum_Inr)
  then have "ServeHTTP (ho_listen ho) t = Inr (addr, routes)"
    by (auto simp: load_files_def bind_sum_Inr map_sum_Inr split: if_splits)
  then show ?thesis using ServeHTTP_routes by blast
qed

text \<open>C8. A program can stop working for ever and report that it is well: take any program that has an adapter and the operations
  server and whose subscription brings more events than the adapter's buffer holds. Without a signal or any failure it
  reaches a state after which, whatever its goroutines and clients do, until there is a signal, a listener fails or a subscription panics
  (for a negative \<open>subscriber_buffer_size\<close>), no event reaches the engine, no signal is emitted, every client's stream stays empty and \<open>main\<close> goes on waiting, while
  \<open>GET /healthz\<close> is answered \<open>ok\<close> and the monitor of the channels finds all four of them empty.\<close>

theorem stuck_program_reports_ok:
  assumes "startup E W sp ho = Inr pg" "pg_adapters pg = [(a, events)]" "ch_cap events < length lgs"
    and "pg_ops pg \<noteq> None" "gl_listen gl (pg_port pg) = None"
  shows "\<exists>(acts :: 'e pact list) s. prun E gl answer pg acts (oracle_start (start_log ho) lgs pg) = Some s \<and> (\<forall>b\<in>set acts. calm_act b) \<and>
    (\<forall>(more :: 'e pact list) t. prun E gl answer pg more s = Some t \<longrightarrow> (\<forall>b\<in>set more. calm_act b) \<longrightarrow>
       sy_rounds (or_system t) = [] \<and> sy_emitted (or_system t) = [] \<and> (\<forall>i. sv_sent (gs_service (server_of t)) i = []) \<and>
       or_main t = Waiting_For_Signal \<and> (\<forall>ch\<in>set (monitored_channels (or_system t)). mc_Len ch = 0) \<and>
       (\<forall>startedAt now. \<exists>p up. or_ops t = Some p \<and> ops_response startedAt now p ''GET'' ''/healthz'' = Some (Health (''ok'', up))))"
proof -
  obtain addr routes where ops: "pg_ops pg = Some (addr, routes)" "HealthzRoute \<in> set routes"
    using assms(4) startup_ops [OF assms(1)] by auto
  let ?tel = "en_tel (pg_enricher pg)" and ?init = "oracle_start (start_log ho) lgs pg"
  obtain m k n1 where p: "pg_raw pg = make_chan m" "pg_chain pg = make_chan k" "events = make_chan n1"
    "0 < en_workers (pg_enricher pg)" "ch_buf (pg_enriched pg) = []" "ch_buf (pg_signals pg) = []"
    by (rule startup_shape [OF assms(1)]) (use assms(2) in \<open>auto simp: make_chan_def\<close>)
  have flow: "sy_flow (or_system ?init) = flow_start (make_chan n1) (make_chan m) (make_chan k) lgs"
    using assms(2) p by (simp add: adapter_flow_def)
  have "nat n1 < length lgs" using assms(3) p(3) by (simp add: make_chan_def)
  from adapter_blocks_forever [OF this, of ?tel m k] obtain fs f where
    f: "frun ?tel fs (sy_flow (or_system ?init)) = Some f" "Signal_Received \<notin> set fs" "Enricher_Takes \<notin> set fs"
    "is_starting (fw_feeder f)" "\<forall>b. fstep ?tel b f \<noteq> None \<longrightarrow> b = Signal_Received" unfolding flow by fastforce
  have "flow_inv (nat n1) (nat m) f" using frun_flow_inv f(1) unfolding flow .
  then have norm: "fw_norm f = norm.Receiving" "ch_buf (fw_raw f) = []" using f(4) by (simp_all add: flow_inv_def)
  have "fstep ?tel Enricher_Takes f = None" using f(5) by blast
  then have chain: "ch_buf (fw_chain f) = []" by (auto split: option.splits prod.splits)
  have calm: "\<not> fw_cancelled f" using frun_calm [OF f(1,2)] unfolding flow by (simp add: flow_start_def)
  let ?s1 = "?init\<lparr>or_system := (or_system ?init)\<lparr>sy_flow := f\<rparr>\<rparr>"
  have own: "\<forall>b\<in>set (map On_Flow fs :: 'e sact list). own_step b" using f(2) by (auto simp: own_step_def)
  have 1: "prun E gl answer pg (map P_System (map On_Flow fs)  :: 'e pact list) ?init = Some ?s1"
    by (rule prun_own_steps [OF flow_own_steps [OF f(1,3)] own]) (simp add: alive_def)
  let ?sv = "Start gl (pg_telemetry pg) (server_of ?s1)"
  let ?s = "?s1\<lparr>or_server := ?sv, or_system := (or_system ?s1)\<lparr>sy_service := gs_service ?sv\<rparr>\<rparr>"
  have "gs_state (server_of ?s1) = NotStarted" "gs_port (server_of ?s1) = pg_port pg" "\<not> gs_ctx_done (server_of ?s1)"
    by (simp_all add: server_of_def new_server_def)
  then have sv: "calm_server ?sv" "prun E gl answer pg [P_Server Call_Start :: 'e pact] ?s1 = Some ?s"
    using assms(5) by (simp_all add: Start_def alive_def stopping_act_def calm_server_def)
  let ?acts = "map P_System (map On_Flow fs) @ [P_Server Call_Start] :: 'e pact list"
  have run: "prun E gl answer pg ?acts ?init = Some ?s" using exec_trans [OF 1 sv(2)] .
  have b: "blocked ?tel ?s" using f(4,5) norm chain calm sv(1) p by (simp add: blocked_def idle_behind_def)
  have h: "healthy ?s" using ops by (simp add: healthy_def serve_ops_def)
  have "\<forall>b\<in>set ?acts. calm_act b" by (auto simp: calm_act_def)
  moreover have "sy_rounds (or_system t) = [] \<and> sy_emitted (or_system t) = [] \<and> (\<forall>i. sv_sent (gs_service (server_of t)) i = []) \<and>
      or_main t = Waiting_For_Signal \<and> (\<forall>ch\<in>set (monitored_channels (or_system t)). mc_Len ch = 0) \<and>
      (\<forall>startedAt now. \<exists>p up. or_ops t = Some p \<and> ops_response startedAt now p ''GET'' ''/healthz'' = Some (Health (''ok'', up)))"
    if t: "prun E gl answer pg (more :: 'e pact list) ?s = Some t" "\<forall>b\<in>set more. calm_act b" for more t
  proof -
    have bt: "blocked ?tel t" and ht: "healthy t" using blocked_run [OF t(1) b h t(2)] by simp_all
    then have none: "sy_rounds (or_system t) = []" "sy_emitted (or_system t) = []" "or_main t = Waiting_For_Signal"
      "\<forall>ch\<in>set (monitored_channels (or_system t)). mc_Len ch = 0"
      by (simp_all add: blocked_def idle_behind_def monitored_channels_def monitored_def)
    obtain bs :: "'e sact list" and c1 c2 c3 c4 c5 c where "srun (pg_enricher pg) bs
        (fresh_system (pg_enricher pg) (pg_engine pg) c1 c2 c3 c4 c5 c (arriving pg lgs)) = Some (or_system t)"
      using started_system [OF assms(1) exec_trans [OF run t(1)]] by blast
    from serviced_stream [OF srun_serviced [OF this]] have "sv_sent (gs_service (server_of t)) i = []" for i
      using none(2) list_emb_Nil2 by simp blast
    then show ?thesis using none ht ops_answers(1) by (auto simp: healthy_def)
  qed
  ultimately show ?thesis using run by blast
qed

section \<open>What the log tells\<close>

text \<open>The lines of \<open>main\<close> by the place where it is; a second signal kills it while it joins.\<close>

fun log_of :: "level \<Rightarrow> main_pc \<Rightarrow> log_entry list" where
  "log_of lvl (Completed err) = written lvl InfoLevel Shutting_Down @
     (case err of None \<Rightarrow> [] | Some e \<Rightarrow> written lvl ErrorLevel (Shutdown_Failed e)) @ written lvl InfoLevel Shutdown_Complete"
| "log_of lvl pc = (if pc = Joining \<or> pc = Killed then written lvl InfoLevel Shutting_Down else [])"

text \<open>The log of a program that has not panicked tells, at a level that shows information, where \<open>main\<close> is and what the telemetry's shutdown
  returned: after the line that all is started there is nothing while it waits (or when the gRPC server has ended the
  program), and the end is logged last and once.\<close>

theorem log_follows_main:
  assumes "prun E gl answer pg acts (oracle_start logged lgs pg) = Some s" "or_main s \<noteq> Panicked"
  shows "or_log s = logged @ written (pg_level pg) InfoLevel (Oracle_Started (int (length (pg_adapters pg))) (pg_port pg)) @
    log_of (pg_level pg) (or_main s)"
proof -
  let ?start = "logged @ written (pg_level pg) InfoLevel (Oracle_Started (int (length (pg_adapters pg))) (pg_port pg))"
  let ?P = "\<lambda>u. (or_main u \<noteq> Panicked \<longrightarrow> or_log u = ?start @ log_of (pg_level pg) (or_main u)) \<and>
    (or_main u = Joining \<longrightarrow> cancelled (or_system u))"
  have step: "?P v" if "?P u" "pstep E gl answer pg a u = Some v" for a u v
    using that(2)
  proof (cases rule: pstep_cases)
    case (system b sy)
    then show ?thesis using that(1) sstep_frame(1) [OF system(4)] by simp
  next
    case (fatal err)
    then have "or_main u = Waiting_For_Signal" using that(1) by (auto simp: alive_def fatal_of_def split: if_splits)
    then show ?thesis using that(1) fatal by simp
  next
    case (wakes l)
    have "v = u\<lparr>or_main := Joining, or_log := or_log u @ written (pg_level pg) InfoLevel Shutting_Down\<rparr>"
      using that(2) wakes(1-3) by simp
    then show ?thesis using that(1) wakes(2,3) by simp
  next
    case (joins p l)
    have "or_log v = or_log u @ (case fst (Shutdown answer (pg_telemetry pg)) of None \<Rightarrow> []
        | Some e \<Rightarrow> written (pg_level pg) ErrorLevel (Shutdown_Failed e)) @ written (pg_level pg) InfoLevel Shutdown_Complete"
      using that(2) joins(1-3) by (auto simp: Let_def)
    moreover have "or_main v = Completed (fst (Shutdown answer (pg_telemetry pg)))" using joins(4) by simp
    ultimately show ?thesis using that(1) joins(2) by simp
  qed (use that(1) in simp_all)
  have init: "?P (oracle_start logged lgs pg)" by (simp add: oracle_start_def Let_def)
  have "?P s" by (rule exec_invariant [OF assms(1), of ?P, OF init]) (rule step)
  then show ?thesis using assms(2) by simp
qed

section \<open>Examples\<close>

text \<open>The program of \<open>Oracle_Main\<close>'s example, whose buffers have the default sizes, and one with a small \<open>raw_event_buffer\<close>.\<close>

lemma demo_started:
  obtains a :: "(unit, unit) Adapter" and pg where "startup demo_eth demo_vaa (\<lambda>_ c. c) demo_host = Inr pg"
    "pg_adapters pg = [(a, make_chan 256)]" "pg_raw pg = make_chan 512" "pg_ops pg \<noteq> None" "0 < en_workers (pg_enricher pg)"
    "pg_emitter pg = NewEmitter 64"
proof -
  obtain pg :: "(unit, unit) program" where pg: "startup demo_eth demo_vaa (\<lambda>_ c. c) demo_host = Inr pg" using demo_startup by blast
  have cfg: "ho_config demo_host = Inr (demo_config 0 True [])" by (simp add: demo_host_def)
  have e: "map_of (cf_Chains (applyDefaults (demo_config 0 True []))) ''ethereum'' \<noteq> None"
    "EventBuffer (the (map_of (cf_Chains (applyDefaults (demo_config 0 True []))) ''ethereum'')) = 256"
    "RawEventBuffer (cf_Pipeline (applyDefaults (demo_config 0 True []))) = 512"
    "SubscriberBufferSize (cf_GRPC (applyDefaults (demo_config 0 True []))) = 64"
    "Enabled (cf_Telemetry (applyDefaults (demo_config 0 True [])))"
    by (simp_all add: applyDefaults_def demo_config_def default_chain_def or_default_def default_telemetry_eq)
  obtain a where "pg_adapters pg = [(a, make_chan 256)]"
    using pg e(1,2) by (auto simp: startup_eq bind_sum_Inr cfg demo_config_loads split: option.splits)
  moreover have "pg_raw pg = make_chan 512" "pg_ops pg \<noteq> None" "pg_emitter pg = NewEmitter 64"
    using pg e(3-) by (auto simp: startup_eq bind_sum_Inr cfg demo_config_loads)
  moreover have "0 < en_workers (pg_enricher pg)" using startup_shape [OF pg] by metis
  ultimately show thesis using that pg by blast
qed

definition demo_small_host :: "unit host" where
  "demo_small_host = demo_host\<lparr>ho_config := Inr (demo_config 1 True [])\<rparr>"

lemma demo_small:
  obtains a :: "(unit, unit) Adapter" and pg where "startup demo_eth demo_vaa (\<lambda>_ c. c) demo_small_host = Inr pg"
    "pg_adapters pg = [(a, make_chan 256)]" "pg_raw pg = make_chan 1"
proof -
  let ?cfg = "applyDefaults (demo_config 1 True [])"
  obtain t where t: "Init demo_otel (cf_Telemetry ?cfg) = Inr t" using demo_Init_all by blast
  have e: "map_of (cf_Chains ?cfg) ''ethereum'' = Some (default_chain \<lparr>RPCURL = ''wss://node'', Mode = [], PollInterval = 0, EventBuffer = 0,
      Backoff = \<lparr>bo_Initial = 0, bo_Max = 0, bo_MaxRetries = 0\<rparr>\<rparr>)" "RawEventBuffer (cf_Pipeline ?cfg) = 1"
    by (simp_all add: applyDefaults_def demo_config_def or_default_def)
  have "\<exists>pg :: (unit, unit) program. startup demo_eth demo_vaa (\<lambda>_ c. c) demo_small_host = Inr pg"
    using e by (simp add: demo_small_host_def startup_eq demo_host_def demo_config_loads fatally_def demo_Load demo_rules_load t ServeHTTP_def
        chan_of_size_def default_chain_def or_default_def)
      (simp add: applyDefaults_def demo_config_def or_default_def)
  then obtain pg :: "(unit, unit) program" where pg: "startup demo_eth demo_vaa (\<lambda>_ c. c) demo_small_host = Inr pg" by blast
  have "\<exists>a. pg_adapters pg = [(a, make_chan 256)]" "pg_raw pg = make_chan 1"
    using pg e by (auto simp: startup_eq bind_sum_Inr demo_small_host_def demo_config_loads default_chain_def or_default_def)
  then show thesis using that pg by blast
qed

abbreviation demo_prun :: "(unit, unit) program \<Rightarrow> unit pact list \<Rightarrow> unit live \<Rightarrow> unit live option" where
  "demo_prun pg \<equiv> prun demo_eth demo_grpc (\<lambda>_. None) pg"

lemma program_is_safe_witness:
  "\<exists>(pg :: (unit, unit) program) s. startup demo_eth demo_vaa (\<lambda>_ c. c) demo_host = Inr pg \<and>
     demo_prun pg [P_System (On_Flow Log_Arrives), P_Signal] (oracle_start (start_log demo_host) [demo_incoming 1] pg) = Some s \<and>
     prefix (sy_emitted (or_system s)) (snd (stage_signals (pg_engine pg) (sy_rounds (or_system s))))"
proof -
  obtain a :: "(unit, unit) Adapter" and pg where pg: "startup demo_eth demo_vaa (\<lambda>_ c. c) demo_host = Inr pg"
    "pg_adapters pg = [(a, make_chan 256)]" by (rule demo_started) blast
  obtain s where s: "demo_prun pg [P_System (On_Flow Log_Arrives), P_Signal] (oracle_start (start_log demo_host) [demo_incoming 1] pg) = Some s"
    using pg(2) by (simp add: alive_def own_step_def adapter_flow_def flow_start_def)
  from program_is_safe [OF pg(1) s] show ?thesis using pg(1) s unfolding Let_def by blast
qed

lemma client_holds_program_witness:
  "\<exists>(pg :: (unit, unit) program) s t. demo_prun pg [P_Server Call_Start, P_Server (Rpc (Subscribe demo_filter))]
       (oracle_start (start_log demo_host) [] pg) = Some s \<and>
     demo_prun pg [P_Signal, P_Server Stop_On_Done, P_Wakes] s = Some t \<and> or_main t = Joining \<and>
     subscribed 0 (gs_service (server_of t)) \<noteq> None"
proof -
  let ?before = "[P_Server Call_Start, P_Server (Rpc (Subscribe demo_filter))]" and ?acts = "[P_Signal, P_Server Stop_On_Done, P_Wakes]"
  obtain a :: "(unit, unit) Adapter" and pg where pg: "startup demo_eth demo_vaa (\<lambda>_ c. c) demo_host = Inr pg" "pg_emitter pg = NewEmitter 64"
    "pg_adapters pg = [(a, make_chan 256)]" by (rule demo_started) blast
  obtain s where s: "demo_prun pg ?before (oracle_start (start_log demo_host) [] pg) = Some s"
    "subscribed 0 (gs_service (server_of s)) \<noteq> None" "gs_state (or_server s) = Serving" "gs_server (or_server s)" "or_main s = Waiting_For_Signal"
    using pg(2,3) by (simp add: alive_def stopping_act_def server_of_def new_server_def Start_def demo_grpc_def NewEmitter_def
        subscribe_def subscribing_panics_def subscribed_def Let_def)
  obtain t where t: "demo_prun pg ?acts s = Some t" "or_main t = Joining"
    using s(3-5) by (simp add: alive_def stopping_act_def server_of_def GracefulStop_def)
  have "\<forall>k. gl_stopped demo_grpc k \<longrightarrow> k = 0" by (simp add: demo_grpc_def)
  moreover have "gs_state (or_server s) \<in> {Serving, Stopping}" "\<forall>b. P_Server b \<in> set ?acts \<longrightarrow> stays 0 b" using s(3) by (simp_all add: stays_def)
  ultimately show ?thesis using client_holds_program [OF _ pg(1) s(1,2) _ t(1)] s(1) t by blast
qed

lemma program_can_complete_witness:
  "\<exists>(pg :: (unit, unit) program) s more t. demo_prun pg [P_Signal] (oracle_start (start_log demo_host) [demo_incoming 1] pg) = Some s \<and>
     demo_prun pg more s = Some t \<and> stopped (or_system t) \<and> or_main t = Completed (fst (Shutdown (\<lambda>_. None) (pg_telemetry pg)))"
proof -
  obtain a :: "(unit, unit) Adapter" and pg where pg: "startup demo_eth demo_vaa (\<lambda>_ c. c) demo_host = Inr pg"
    "pg_adapters pg = [(a, make_chan 256)]" "pg_raw pg = make_chan 512" by (rule demo_started) blast
  have fit: "\<forall>(a, events)\<in>set (pg_adapters pg). ch_cap events \<le> ch_cap (pg_raw pg) + 1" using pg(2,3) by (simp add: make_chan_def)
  obtain s where s: "demo_prun pg [P_Signal] (oracle_start (start_log demo_host) [demo_incoming 1] pg) = Some s" "alive s"
    by (simp add: alive_def)
  have "P_Signal \<in> set [P_Signal]" by simp
  from program_can_complete [OF pg(1) fit demo_grpc_documented s(1) this s(2)] show ?thesis using s(1) by blast
qed

lemma stuck_program_reports_ok_witness:
  "\<exists>(pg :: (unit, unit) program) acts s p up. demo_prun pg acts (oracle_start (start_log demo_host) (replicate 300 (demo_incoming 1)) pg) = Some s \<and>
     sy_rounds (or_system s) = [] \<and> or_ops s = Some p \<and> ops_response 0 60 p ''GET'' ''/healthz'' = Some (Health (''ok'', up))"
proof -
  obtain a :: "(unit, unit) Adapter" and pg where pg: "startup demo_eth demo_vaa (\<lambda>_ c. c) demo_host = Inr pg"
    "pg_adapters pg = [(a, make_chan 256)]" "pg_ops pg \<noteq> None" by (rule demo_started) blast
  have "ch_cap (make_chan 256 :: (RawEvent, unit) Traced chan) < length (replicate 300 (demo_incoming 1))" "gl_listen demo_grpc (pg_port pg) = None"
    by (simp_all add: make_chan_def demo_grpc_def)
  from stuck_program_reports_ok [OF pg(1,2) this(1) pg(3) this(2)] obtain acts :: "unit pact list" and s where
    s: "demo_prun pg acts (oracle_start (start_log demo_host) (replicate 300 (demo_incoming 1)) pg) = Some s"
    and stuck: "\<forall>(more :: unit pact list) t. demo_prun pg more s = Some t \<longrightarrow> (\<forall>b\<in>set more. calm_act b) \<longrightarrow>
       sy_rounds (or_system t) = [] \<and> sy_emitted (or_system t) = [] \<and> (\<forall>i. sv_sent (gs_service (server_of t)) i = []) \<and>
       or_main t = Waiting_For_Signal \<and> (\<forall>ch\<in>set (monitored_channels (or_system t)). mc_Len ch = 0) \<and>
       (\<forall>startedAt now. \<exists>p up. or_ops t = Some p \<and> ops_response startedAt now p ''GET'' ''/healthz'' = Some (Health (''ok'', up)))" by blast
  have "demo_prun pg [] s = Some s" "\<forall>b\<in>set []. calm_act (b :: unit pact)" by simp_all
  with stuck have "sy_rounds (or_system s) = [] \<and> (\<exists>p up. or_ops s = Some p \<and> ops_response 0 60 p ''GET'' ''/healthz'' = Some (Health (''ok'', up)))"
    by blast
  then show ?thesis using s by blast
qed

lemma program_ends_in_order_witness:
  "\<exists>(pg :: (unit, unit) program) s. demo_prun pg [P_Signal, P_Wakes, P_Signal] (oracle_start (start_log demo_host) [demo_incoming 1] pg) = Some s \<and>
     or_main s = Killed \<and> 2 \<le> count_list [P_Signal, P_Wakes, P_Signal :: unit pact] P_Signal"
proof -
  obtain a :: "(unit, unit) Adapter" and pg where pg: "startup demo_eth demo_vaa (\<lambda>_ c. c) demo_host = Inr pg"
    "pg_adapters pg = [(a, make_chan 256)]" by (rule demo_started) blast
  obtain s where s: "demo_prun pg [P_Signal, P_Wakes, P_Signal] (oracle_start (start_log demo_host) [demo_incoming 1] pg) = Some s"
    "or_main s = Killed" by (simp add: alive_def)
  from program_ends_in_order [OF pg(1) s(1)] show ?thesis using s by blast
qed

lemma program_idles_when_adapter_gives_up_witness:
  "\<exists>(pg :: (unit, unit) program) s. demo_prun pg [P_Server Call_Start, P_System (On_Flow Log_Arrives), P_System (On_Flow Event_Sent),
       P_System (On_Flow Start_Returns)] (oracle_start (start_log demo_host) [demo_incoming 1] pg) = Some s \<and>
     (\<exists>more u. demo_prun pg more s = Some u \<and> stopped (or_system u) \<and> or_running u = [ServerG])"
proof -
  let ?before = "[P_Server Call_Start, P_System (On_Flow Log_Arrives), P_System (On_Flow Event_Sent), P_System (On_Flow Start_Returns)] :: unit pact list"
  obtain a :: "(unit, unit) Adapter" and pg where pg: "startup demo_eth demo_vaa (\<lambda>_ c. c) demo_host = Inr pg"
    "pg_adapters pg = [(a, make_chan 256)]" by (rule demo_started) blast
  obtain s where s: "demo_prun pg ?before (oracle_start (start_log demo_host) [demo_incoming 1] pg) = Some s" "alive s"
    "\<not> is_starting (fw_feeder (sy_flow (or_system s)))" "gs_state (or_server s) = Serving"
    using pg(2) by (simp add: alive_def own_step_def stopping_act_def adapter_flow_def flow_start_def make_chan_def try_send_def
        server_of_def new_server_def Start_def demo_grpc_def)
  have "P_Signal \<notin> set ?before" "demo_prun pg [] s = Some s" "\<forall>b\<in>set []. calm_act (b :: unit pact)" by simp_all
  from program_idles_when_adapter_gives_up [OF pg(1) s(1) this(1) s(2-4) this(2,3)] show ?thesis using s(1) by blast
qed

lemma program_can_hang_witness:
  "\<exists>(pg :: (unit, unit) program) acts s. demo_prun pg acts (oracle_start (start_log demo_small_host) (replicate 3 (demo_incoming 1)) pg) = Some s \<and>
     P_Signal \<in> set acts \<and> AdapterG \<in> set (or_running s)"
proof -
  obtain a :: "(unit, unit) Adapter" and pg where pg: "startup demo_eth demo_vaa (\<lambda>_ c. c) demo_small_host = Inr pg"
    "pg_adapters pg = [(a, make_chan 256)]" "pg_raw pg = make_chan 1" by (rule demo_small) blast
  have "ch_cap (pg_raw pg) + 2 \<le> ch_cap (make_chan 256 :: (RawEvent, unit) Traced chan)"
    "ch_cap (pg_raw pg) + 2 \<le> length (replicate 3 (demo_incoming 1))" using pg(3) by (simp_all add: make_chan_def)
  from program_can_hang [OF pg(1,2) this, of demo_grpc "\<lambda>_. None", where 'e = unit] obtain acts :: "unit pact list" and s where
    s: "demo_prun pg acts (oracle_start (start_log demo_small_host) (replicate 3 (demo_incoming 1)) pg) = Some s" "P_Signal \<in> set acts"
    and stuck: "\<forall>(more :: unit pact list) t. demo_prun pg more s = Some t \<longrightarrow> AdapterG \<in> set (or_running t)" by blast
  have "demo_prun pg [] s = Some s" by simp
  with stuck have "AdapterG \<in> set (or_running s)" by blast
  then show ?thesis using s by blast
qed

end
