(* ===== verification/Client.thy ===== *)
theory Client
  imports Emitter Config
begin

text \<open>
  The command line client (\<open>cmd/client/main.go\<close>): its flags become the filter of a subscription, and it prints
  every signal it receives until the stream ends. Parsing the flags, dialling and the stream are libraries'
  work: the flags' values and what every call answers are parameters. The theorem joins it with the
  service of \<open>Emitter\<close>, from the flags to what is printed.
\<close>

section \<open>The program\<close>

record flags =
  fg_addr :: string
  fg_types :: string
  fg_chains :: string
  fg_dest_chains :: string
  fg_tokens :: string
  fg_min_confidence :: float64

definition default_flags :: flags where
  "default_flags =
     \<lparr>fg_addr = ''localhost:50051'', fg_types = [], fg_chains = [], fg_dest_chains = [], fg_tokens = [],
      fg_min_confidence = f64_of_int 0\<rparr>"

definition client_filter :: "flags \<Rightarrow> SignalFilter" where
  "client_filter fg =
     \<lparr>fl_SignalTypes = splitCSV (fg_types fg), fl_SourceChains = splitCSV (fg_chains fg),
      fl_DestinationChains = splitCSV (fg_dest_chains fg), fl_Tokens = splitCSV (fg_tokens fg),
      fl_MinConfidence = fg_min_confidence fg\<rparr>"

text \<open>How it ends: the error of \<open>NewClient\<close> or of \<open>SubscribeSignals\<close> (\<open>os.Exit(1)\<close>), a signal of the operating
  system, or an error of the stream, after which \<open>main\<close> just returns.\<close>

datatype client_end = ConnectFailed string | SubscribeFailed string | ShuttingDown | RecvFailed string

fun exit_code :: "client_end \<Rightarrow> int" where
  "exit_code (ConnectFailed err) = 1"
| "exit_code (SubscribeFailed err) = 1"
| "exit_code ShuttingDown = 0"
| "exit_code (RecvFailed err) = 0"

text \<open>The receive loop: what \<open>Recv\<close> returns, call by call, and whether the context is done when it fails. The result
  is what was printed and how the loop was left; it waits in \<open>Recv\<close> when the list is used up.\<close>

fun recv_loop :: "bool \<Rightarrow> (string + pbSignal) list \<Rightarrow> pbSignal list \<times> client_end option" where
  "recv_loop ctx_done [] = ([], None)"
| "recv_loop ctx_done (Inl err # rs) = ([], Some (if ctx_done then ShuttingDown else RecvFailed err))"
| "recv_loop ctx_done (Inr sig # rs) = (case recv_loop ctx_done rs of (printed, r) \<Rightarrow> (sig # printed, r))"

record client_env =
  ce_dial :: "string \<Rightarrow> string option"
  ce_subscribe :: "SignalFilter \<Rightarrow> string option"
  ce_recv :: "(string + pbSignal) list"
  ce_ctx_done :: bool

definition client_main :: "client_env \<Rightarrow> flags \<Rightarrow> pbSignal list \<times> client_end option" where
  "client_main env fg =
     (case ce_dial env (fg_addr fg) of
        Some err \<Rightarrow> ([], Some (ConnectFailed err))
      | None \<Rightarrow>
          (let sf = client_filter fg
           in case ce_subscribe env sf of
                Some err \<Rightarrow> ([], Some (SubscribeFailed err))
              | None \<Rightarrow> recv_loop (ce_ctx_done env) (ce_recv env)))"

section \<open>What it prints\<close>

definition signals_of :: "(string + pbSignal) list \<Rightarrow> pbSignal list" where
  "signals_of rs = concat (map (\<lambda>r. case r of Inl err \<Rightarrow> [] | Inr sig \<Rightarrow> [sig]) rs)"

lemma signals_of_simps [simp]:
  "signals_of [] = []" "signals_of (Inl err # rs) = signals_of rs" "signals_of (Inr sig # rs) = sig # signals_of rs"
  by (simp_all add: signals_of_def)

lemma recv_loop_prefix: "prefix (fst (recv_loop d rs)) (signals_of rs)"
  by (induction d rs rule: recv_loop.induct) (auto split: prod.split)

lemma client_main_prefix: "prefix (fst (client_main env fg)) (signals_of (ce_recv env))"
  using recv_loop_prefix by (auto simp: client_main_def Let_def split: option.split)

text \<open>What a list flag asks for: nothing in particular when no item but blanks is given, and otherwise one of its items,
  with the white space around them removed.\<close>

definition asked :: "string \<Rightarrow> string \<Rightarrow> bool" where
  "asked s v \<longleftrightarrow> (let items = filter (\<lambda>t. t \<noteq> []) (map TrimSpace (split_on CHR '','' s)) in items = [] \<or> v \<in> set items)"

lemma asked_splitCSV: "asked s v \<longleftrightarrow> splitCSV s = [] \<or> v \<in> set (splitCSV s)"
  by (simp add: asked_def splitCSV_eq Let_def)

lemma client_filter_asks:
  "matchesFilter (client_filter fg) sig \<longleftrightarrow>
     asked (fg_types fg) (pb_SignalType sig) \<and> asked (fg_chains fg) (pb_SourceChain sig) \<and>
     asked (fg_dest_chains fg) (pb_DestinationChain sig) \<and> asked (fg_tokens fg) (pb_Token sig) \<and>
     \<not> (f64_of_int 0 < fg_min_confidence fg \<and> pb_Confidence sig < fg_min_confidence fg)"
  by (auto simp: matchesFilter_def client_filter_def asked_splitCSV)

lemma wanted_matches: "sig \<in> set (wanted f acts) \<Longrightarrow> matchesFilter f sig"
  by (simp add: wanted_def)

text \<open>C24. From the flags to the screen: if the client's stream delivers, in order, some of what the server sent it as its \<open>i\<close>-th
  subscriber (with the filter made of the flags), then what is printed are signals that were emitted after it
  subscribed, in their order and none twice, and every one of them is what the flags ask for. A list flag that
  holds only blanks and commas asks for everything.\<close>

theorem client_prints_what_was_asked:
  assumes "sv_run (before @ Subscribe (client_filter fg) # acts) (start n) = Some t" "i = length (filter is_subscribe before)"
    and "prefix (signals_of (ce_recv env)) (sv_sent t i)"
  shows "subseq (fst (client_main env fg)) (concat (map emitted_signal acts)) \<and>
    (\<forall>sig\<in>set (fst (client_main env fg)).
       asked (fg_types fg) (pb_SignalType sig) \<and> asked (fg_chains fg) (pb_SourceChain sig) \<and>
       asked (fg_dest_chains fg) (pb_DestinationChain sig) \<and> asked (fg_tokens fg) (pb_Token sig) \<and>
       \<not> (f64_of_int 0 < fg_min_confidence fg \<and> pb_Confidence sig < fg_min_confidence fg))"
proof -
  let ?out = "fst (client_main env fg)" and ?f = "client_filter fg"
  have "prefix ?out (sv_sent t i)" using client_main_prefix assms(3) by (rule prefix_order.trans)
  then have "subseq ?out (sv_sent t i)" by (rule prefix_imp_subseq)
  moreover have "subseq (sv_sent t i) (wanted ?f acts)"
    using subscriber_stream_ok [OF assms(1,2)] by (auto simp: stream_ok_def)
  ultimately have w: "subseq ?out (wanted ?f acts)" by (rule subseq_order.trans)
  moreover have "subseq (wanted ?f acts) (concat (map emitted_signal acts))" by (simp add: wanted_def)
  ultimately have "subseq ?out (concat (map emitted_signal acts))" by (rule subseq_order.trans)
  moreover have "matchesFilter ?f sig" if "sig \<in> set ?out" for sig
    using that list_emb_set [OF w that] wanted_matches by blast
  ultimately show ?thesis by (simp add: client_filter_asks)
qed

section \<open>Examples\<close>

definition demo_flags :: flags where
  "demo_flags = default_flags\<lparr>fg_types := '' s , ''\<rparr>"

lemma demo_splitCSV: "splitCSV '' s , '' = [''s'']" "splitCSV [] = []" "splitCSV '' , '' = []"
  by code_simp+

lemma demo_client_filter: "client_filter demo_flags = demo_filter"
  by (simp add: client_filter_def demo_flags_def default_flags_def demo_splitCSV demo_filter_def)

definition demo_client_env :: client_env where
  "demo_client_env = \<lparr>ce_dial = (\<lambda>_. None), ce_subscribe = (\<lambda>_. None),
     ce_recv = [Inr (toProto (demo_sig ''1'' ''s'')), Inl ''EOF''], ce_ctx_done = False\<rparr>"

lemma demo_client_main: "client_main demo_client_env demo_flags = ([toProto (demo_sig ''1'' ''s'')], Some (RecvFailed ''EOF''))"
  by (simp add: client_main_def demo_client_env_def)

lemma client_prints_what_was_asked_witness:
  "asked '' s , '' (pb_SignalType (toProto (demo_sig ''1'' ''s''))) \<and> asked '' , '' (pb_Token (toProto (demo_sig ''1'' ''s''))) \<and>
   subseq [toProto (demo_sig ''1'' ''s'')] (concat (map emitted_signal demo_acts))"
proof -
  have p: "prefix (signals_of (ce_recv demo_client_env)) (sv_sent demo_service 0)"
    by (simp add: demo_client_env_def demo_service_def)
  have r: "sv_run ([] @ Subscribe (client_filter demo_flags) # demo_acts) (start 1) = Some demo_service"
    unfolding demo_client_filter by (rule demo_service_run)
  from client_prints_what_was_asked [OF r _ p] show ?thesis
    by (simp add: demo_client_main asked_splitCSV demo_splitCSV) (simp add: demo_flags_def asked_splitCSV demo_splitCSV)
qed

end
