(* ===== verification/Other_Adapters.thy ===== *)
theory Other_Adapters
  imports Evm_Adapter
begin

text \<open>
  The other ways into the program: the web socket strategy (\<open>internal/adapter/evm/websocket.go\<close>) and the adapters
  for Solana and Cosmos (\<open>internal/adapter/solana\<close>, \<open>internal/adapter/cosmos\<close>), which are stubs: they hold the
  reconnect loop and an events channel, and wait for the context to be done.
\<close>

section \<open>The web socket strategy\<close>

text \<open>\<open>SubscribeFilterLogs\<close> of go-ethereum is a parameter; it delivers into the channel made here.\<close>

definition WebSocket_Subscribe ::
  "('k \<Rightarrow> Address list \<Rightarrow> string + 's) \<Rightarrow> 'k \<Rightarrow> int \<Rightarrow> Address list \<Rightarrow> string + Log chan \<times> 's" where
  "WebSocket_Subscribe SubscribeFilterLogs client bufferSize addrs =
     (let logs = make_chan bufferSize
      in case SubscribeFilterLogs client addrs of
           Inl err \<Rightarrow> Inl err
         | Inr sub \<Rightarrow> Inr (logs, sub))"

section \<open>The stub adapters\<close>

record StubAdapter =
  sa_chain :: ChainID
  sa_cfg :: ChainConfig
  sa_events :: "RawEvent chan"
  sa_closed :: bool

definition Solana_New :: "ChainConfig \<Rightarrow> StubAdapter" where
  "Solana_New cfg =
     \<lparr>sa_chain = ChainSolana, sa_cfg = cfg, sa_events = make_chan (EventBuffer cfg), sa_closed = False\<rparr>"

definition Cosmos_New :: "ChainID \<Rightarrow> ChainConfig \<Rightarrow> StubAdapter" where
  "Cosmos_New chainID cfg =
     \<lparr>sa_chain = chainID, sa_cfg = cfg, sa_events = make_chan (EventBuffer cfg), sa_closed = False\<rparr>"

text \<open>The life of a context: it is never done, or done with an error, before \<open>Start\<close> is called or later.\<close>

datatype ctx_life = Never | Before string | Later string

text \<open>Receiving from \<open>ctx.Done()\<close> gives the error of the context, or does not return.\<close>

fun await_done :: "ctx_life \<Rightarrow> string option" where
  "await_done Never = None"
| "await_done (Before err) = Some err"
| "await_done (Later err) = Some err"

text \<open>
  The loop with a \<open>connect\<close> that only waits. \<open>None\<close> is a call that does not return. After the wait the context is
  done, which the loop checks next; so that the rest of the loop is what \<open>WithReconnect\<close> does in this environment.
\<close>

definition stub_env :: "ctx_life \<Rightarrow> (string, string) renv" where
  "stub_env life =
     \<lparr>rv_ctx_before = (\<lambda>_. case life of Before err \<Rightarrow> Some err | _ \<Rightarrow> None), rv_connect = (\<lambda>_. await_done life),
      rv_ctx_after = (\<lambda>_. await_done life), rv_wait = (\<lambda>_. await_done life)\<rparr>"

definition stub_connects :: "ctx_life \<Rightarrow> ReconnectConfig \<Rightarrow> bool" where
  "stub_connects life cfg \<longleftrightarrow> 0 < rc_MaxRetries cfg \<and> rv_ctx_before (stub_env life) 0 = None"

definition Stub_Start :: "ctx_life \<Rightarrow> StubAdapter \<Rightarrow> (StubAdapter \<times> (string, string) rc_result) option" where
  "Stub_Start life a =
     (let cfg = \<lparr>rc_InitialBackoff = bo_Initial (Backoff (sa_cfg a)), rc_MaxBackoff = bo_Max (Backoff (sa_cfg a)),
            rc_MaxRetries = bo_MaxRetries (Backoff (sa_cfg a))\<rparr>
      in if stub_connects life cfg \<and> await_done life = None then None
         else Some (a\<lparr>sa_closed := True\<rparr>, fst (WithReconnect (stub_env life) cfg)))"

text \<open>Both adapters have the same \<open>Start\<close>, in files of their own.\<close>

definition Solana_Start :: "ctx_life \<Rightarrow> StubAdapter \<Rightarrow> (StubAdapter \<times> (string, string) rc_result) option" where
  "Solana_Start life a = Stub_Start life a"

definition Cosmos_Start :: "ctx_life \<Rightarrow> StubAdapter \<Rightarrow> (StubAdapter \<times> (string, string) rc_result) option" where
  "Cosmos_Start life a = Stub_Start life a"

text \<open>A stub never sends an event: \<open>Start\<close> returns when the context is done, with its error, or at once when no retries
  are configured; it then has closed the events channel, which was always empty.\<close>

theorem stub_adapters_only_wait:
  "(Solana_Start life (Solana_New cfg) = None \<longleftrightarrow> life = Never \<and> 0 < bo_MaxRetries (Backoff cfg)) \<and>
   Cosmos_Start life (Cosmos_New chain cfg) = map_option (\<lambda>(a, r). (a\<lparr>sa_chain := chain\<rparr>, r)) (Solana_Start life (Solana_New cfg)) \<and>
   (\<forall>a r. Solana_Start life (Solana_New cfg) = Some (a, r) \<longrightarrow> sa_closed a \<and> ch_buf (sa_events a) = [] \<and>
      (if 0 < bo_MaxRetries (Backoff cfg) then \<exists>err. await_done life = Some err \<and> r = Cancelled err else r = NeverTried))"
  by (cases life)
    (auto simp: Solana_Start_def Cosmos_Start_def Solana_New_def Cosmos_New_def Stub_Start_def stub_connects_def stub_env_def
       Let_def WithReconnect_def reconnect_loop.simps make_chan_def)

end
