(* ===== verification/Polling.thy ===== *)
theory Polling
  imports Prelude
begin

text \<open>
  The polling subscription (\<open>internal/adapter/evm/polling.go\<close>). The node is reached through
  go-ethereum's client, whose answers are parameters: what \<open>HeaderByNumber\<close> returns for the latest
  block, and what \<open>FilterLogs\<close> returns for the range of blocks it is asked for. A tick of the poll
  goroutine is one step on the last block that has been delivered.
\<close>

section \<open>The poll goroutine\<close>

record 'l tick =
  tk_head :: "string + uint64"
  tk_filter :: "uint64 \<Rightarrow> uint64 \<Rightarrow> string + 'l list"
  tk_cancel :: "nat option"

record 'l poller =
  po_lastBlock :: uint64
  po_logs :: "'l list"
  po_queries :: "(uint64 \<times> uint64) list"
  po_stopped :: bool

text \<open>The send loop over the results: \<open>tk_cancel = Some k\<close> when the context's arm of the \<open>select\<close> is
  taken after \<open>k\<close> sends. The result is what was sent and whether the goroutine returned.\<close>

fun send_all :: "nat option \<Rightarrow> 'l list \<Rightarrow> 'l list \<times> bool" where
  "send_all c [] = ([], False)"
| "send_all (Some 0) (l # ls) = ([], True)"
| "send_all (Some (Suc k)) (l # ls) = (case send_all (Some k) ls of (sent, stop) \<Rightarrow> (l # sent, stop))"
| "send_all None (l # ls) = (case send_all None ls of (sent, stop) \<Rightarrow> (l # sent, stop))"

text \<open>One tick; \<open>po_queries\<close> records the ranges that \<open>FilterLogs\<close> answered.\<close>

definition poll_tick :: "'l tick \<Rightarrow> 'l poller \<Rightarrow> 'l poller" where
  "poll_tick tk s =
     (if po_stopped s then s
      else (case tk_head tk of
        Inl err \<Rightarrow> s
      | Inr currentBlock \<Rightarrow>
          (if currentBlock \<le> po_lastBlock s then s
           else (let fromBlock = po_lastBlock s + 1; toBlock = currentBlock in
             case tk_filter tk fromBlock toBlock of
               Inl err \<Rightarrow> s
             | Inr results \<Rightarrow>
                 (let (sent, stop) = send_all (tk_cancel tk) results;
                      s' = s\<lparr>po_logs := po_logs s @ sent, po_queries := po_queries s @ [(fromBlock, toBlock)]\<rparr>
                  in if stop then s'\<lparr>po_stopped := True\<rparr> else s'\<lparr>po_lastBlock := currentBlock\<rparr>)))))"

text \<open>\<open>Subscribe\<close> starts the goroutine at the latest block of the node.\<close>

definition Subscribe :: "string + uint64 \<Rightarrow> string + 'l poller" where
  "Subscribe head =
     (case head of
        Inl err \<Rightarrow> Inl err
      | Inr number \<Rightarrow> Inr \<lparr>po_lastBlock = number, po_logs = [], po_queries = [], po_stopped = False\<rparr>)"

fun poll_run :: "'l tick list \<Rightarrow> 'l poller \<Rightarrow> 'l poller" where
  "poll_run [] s = s"
| "poll_run (tk # tks) s = poll_run tks (poll_tick tk s)"

section \<open>The subscription handle\<close>

record pollingSub =
  sub_once :: bool
  sub_cancelled :: bool
  sub_errClosed :: bool

definition Unsubscribe :: "pollingSub \<Rightarrow> pollingSub" where
  "Unsubscribe s =
     (if sub_once s then s else s\<lparr>sub_once := True, sub_cancelled := True, sub_errClosed := True\<rparr>)"

lemma Unsubscribe_idem: "Unsubscribe (Unsubscribe s) = Unsubscribe s"
  by (simp add: Unsubscribe_def)

section \<open>No gap and no repetition\<close>

lemma send_all_prefix:
  "send_all c ls = (sent, stop) \<Longrightarrow> sent = take (length sent) ls \<and> (\<not> stop \<longrightarrow> sent = ls)"
  by (induction c ls arbitrary: sent stop rule: send_all.induct) (auto split: prod.splits)

text \<open>The logs of the blocks after \<open>lo\<close> up to \<open>hi\<close>, on the chain \<open>chain_logs\<close>.\<close>

definition logs_between :: "(nat \<Rightarrow> 'l list) \<Rightarrow> nat \<Rightarrow> nat \<Rightarrow> 'l list" where
  "logs_between chain_logs lo hi = concat (map chain_logs [Suc lo..<Suc hi])"

lemma logs_between_append:
  assumes "a \<le> b" "b \<le> c"
  shows "logs_between L a b @ logs_between L b c = logs_between L a c"
proof -
  have "[Suc a..<Suc c] = [Suc a..<Suc b] @ [Suc b..<Suc c]"
    using assms upt_add_eq_append [of "Suc a" "Suc b" "c - b"] by simp
  then show ?thesis by (simp add: logs_between_def del: upt_Suc)
qed

lemma logs_between_same [simp]: "logs_between L a a = []"
  by (simp add: logs_between_def)

text \<open>What the documentation of \<open>eth_getLogs\<close> promises: an answer for a range of blocks holds the logs
  of exactly those blocks, in order.\<close>

definition faithful :: "(nat \<Rightarrow> 'l list) \<Rightarrow> 'l tick \<Rightarrow> bool" where
  "faithful L tk \<longleftrightarrow> (\<forall>lo hi ls. lo \<le> hi \<longrightarrow> tk_filter tk lo hi = Inr ls \<longrightarrow>
     ls = concat (map L [unat lo..<Suc (unat hi)]))"

text \<open>The blocks that a list of queried ranges covers, in order.\<close>

definition covered :: "(uint64 \<times> uint64) list \<Rightarrow> nat list" where
  "covered qs = concat (map (\<lambda>(lo, hi). [unat lo..<Suc (unat hi)]) qs)"

lemma covered_snoc: "covered (qs @ [(lo, hi)]) = covered qs @ [unat lo..<Suc (unat hi)]"
  by (simp add: covered_def)

definition delivered :: "(nat \<Rightarrow> 'l list) \<Rightarrow> nat \<Rightarrow> 'l poller \<Rightarrow> bool" where
  "delivered L start s \<longleftrightarrow> start \<le> unat (po_lastBlock s) \<and>
     (if po_stopped s then \<exists>hi k. start \<le> hi \<and> po_logs s = take k (logs_between L start hi)
      else po_logs s = logs_between L start (unat (po_lastBlock s))) \<and>
     (\<exists>hi. start \<le> hi \<and> covered (po_queries s) = [Suc start..<Suc hi] \<and>
       (\<not> po_stopped s \<longrightarrow> hi = unat (po_lastBlock s)))"

lemma poll_tick_delivered [inv_intros]:
  assumes "delivered L start s" "faithful L tk"
  shows "delivered L start (poll_tick tk s)"
proof (cases "po_stopped s \<or> (\<exists>e. tk_head tk = Inl e) \<or> (\<exists>c. tk_head tk = Inr c \<and>
    (c \<le> po_lastBlock s \<or> (\<exists>e. tk_filter tk (po_lastBlock s + 1) c = Inl e)))")
  case True
  then have "poll_tick tk s = s" by (auto simp: poll_tick_def Let_def)
  then show ?thesis using assms(1) by simp
next
  case False
  obtain c where c: "tk_head tk = Inr c" using False by (cases "tk_head tk") auto
  have lt: "po_lastBlock s < c" and run: "\<not> po_stopped s" using False c by auto
  obtain ls where ls: "tk_filter tk (po_lastBlock s + 1) c = Inr ls"
    using False c by (cases "tk_filter tk (po_lastBlock s + 1) c") auto
  let ?b = "unat (po_lastBlock s)"
  have b: "?b < unat c" using lt by (simp add: word_less_nat_alt)
  then have "Suc ?b < 2 ^ 64" using unsigned_less [of c, where ?'a = nat] by simp
  then have plus: "unat (po_lastBlock s + 1) = Suc ?b" by (simp add: unat_plus_if')
  have "po_lastBlock s + 1 \<le> c" using b by (simp add: word_le_nat_alt plus)
  then have "ls = concat (map L [unat (po_lastBlock s + 1)..<Suc (unat c)])"
    using assms(2) ls unfolding faithful_def by blast
  then have lsb: "ls = logs_between L ?b (unat c)" by (simp add: logs_between_def plus)
  obtain sent stop where sa: "send_all (tk_cancel tk) ls = (sent, stop)" by force
  have start: "start \<le> ?b" and old: "po_logs s = logs_between L start ?b"
    and q: "covered (po_queries s) = [Suc start..<Suc ?b]"
    using assms(1) run by (auto simp: delivered_def)
  have app: "po_logs s @ ls = logs_between L start (unat c)"
    using logs_between_append [OF start, of "unat c" L] b by (simp add: old lsb)
  have q': "[Suc start..<Suc ?b] @ [Suc ?b..<Suc (unat c)] = [Suc start..<Suc (unat c)]"
    using start b upt_add_eq_append [of "Suc start" "Suc ?b" "unat c - ?b"] by simp
  have t: "poll_tick tk s =
      (let s' = s\<lparr>po_logs := po_logs s @ sent, po_queries := po_queries s @ [(po_lastBlock s + 1, c)]\<rparr>
       in if stop then s'\<lparr>po_stopped := True\<rparr> else s'\<lparr>po_lastBlock := c\<rparr>)"
    using run c lt ls sa by (simp add: poll_tick_def Let_def not_le [symmetric])
  show ?thesis
  proof (cases stop)
    case False
    then have "sent = ls" using send_all_prefix [OF sa] by simp
    then show ?thesis using False app start b run q q' plus
      by (simp add: t delivered_def Let_def covered_snoc del: upt_Suc)
  next
    case True
    have "sent = take (length sent) ls" using send_all_prefix [OF sa] by blast
    then have "po_logs s @ sent = take (length (po_logs s) + length sent) (po_logs s @ ls)"
      by simp
    then have "po_logs s @ sent = take (length (po_logs s) + length sent) (logs_between L start (unat c))"
      by (simp only: app)
    moreover have "start \<le> unat c" using start b by simp
    moreover have "covered (po_queries s @ [(po_lastBlock s + 1, c)]) = [Suc start..<Suc (unat c)]"
      by (simp only: covered_snoc q plus q')
    ultimately show ?thesis using True start
      by (simp add: t delivered_def Let_def del: upt_Suc) blast
  qed
qed

lemma poll_run_delivered:
  "delivered L start s \<Longrightarrow> (\<forall>tk\<in>set tks. faithful L tk) \<Longrightarrow> delivered L start (poll_run tks s)"
  by (induction tks s rule: poll_run.induct) (auto intro: poll_tick_delivered)

text \<open>C16. However often the node fails, stands still or reports an older head, the poller delivers the
  logs of the blocks after the one it started at without a gap and without a repetition: while it
  runs, what it has delivered is exactly the logs of the blocks up to \<open>lastBlock\<close>, and once it is
  cancelled a prefix of such a list; and the ranges that were answered cover every block after the
  start once, in order.\<close>

theorem polling_no_gap_no_repetition:
  assumes "Subscribe (Inr start) = Inr s0" "\<forall>tk\<in>set tks. faithful L tk"
  shows "(let s = poll_run tks s0 in
    (if po_stopped s then \<exists>hi k. unat start \<le> hi \<and> po_logs s = take k (logs_between L (unat start) hi)
     else unat start \<le> unat (po_lastBlock s) \<and>
          po_logs s = logs_between L (unat start) (unat (po_lastBlock s))) \<and>
    (\<exists>hi. unat start \<le> hi \<and> covered (po_queries s) = [Suc (unat start)..<Suc hi]))"
proof -
  have "delivered L (unat start) s0"
    using assms(1) by (auto simp: Subscribe_def delivered_def covered_def)
  from poll_run_delivered [OF this assms(2)] show ?thesis
    unfolding delivered_def Let_def by (auto simp del: upt_Suc)
qed

text \<open>A node whose block \<open>n\<close> holds the single log \<open>n\<close>, and which fails at every other request.\<close>

definition demo_tick :: "string + uint64 \<Rightarrow> nat tick" where
  "demo_tick h = \<lparr>tk_head = h, tk_filter = (\<lambda>lo hi. Inr [unat lo..<Suc (unat hi)]), tk_cancel = None\<rparr>"

lemma demo_tick_faithful: "faithful (\<lambda>n. [n]) (demo_tick h)"
  by (simp add: faithful_def demo_tick_def)

definition demo_ticks :: "nat tick list" where
  "demo_ticks = [demo_tick (Inr 12), demo_tick (Inl ''timeout''), demo_tick (Inr 11), demo_tick (Inr 14)]"

lemma polling_no_gap_no_repetition_witness:
  "po_logs (poll_run demo_ticks \<lparr>po_lastBlock = 10, po_logs = [], po_queries = [], po_stopped = False\<rparr>)
     = [11, 12, 13, 14]"
proof -
  let ?s0 = "\<lparr>po_lastBlock = 10, po_logs = [], po_queries = [], po_stopped = False\<rparr> :: nat poller"
  have s: "Subscribe (Inr 10) = Inr ?s0" by (simp add: Subscribe_def)
  have f: "\<forall>tk\<in>set demo_ticks. faithful (\<lambda>n. [n]) tk" by (simp add: demo_ticks_def demo_tick_faithful)
  have n: "send_all None ls = (ls, False)" for ls :: "nat list" by (induction ls) auto
  have r: "\<not> po_stopped (poll_run demo_ticks ?s0)" "po_lastBlock (poll_run demo_ticks ?s0) = 14"
    by (simp_all add: demo_ticks_def demo_tick_def poll_tick_def n Let_def)
  have "logs_between (\<lambda>n. [n]) 10 14 = [11, 12, 13, 14]"
    by (simp add: logs_between_def numeral_eq_Suc)
  then show ?thesis
    using polling_no_gap_no_repetition [OF s f] unfolding Let_def using r by simp
qed

end
