(* ===== verification/Price_Calls.thy ===== *)
theory Price_Calls
  imports Chainlink
begin

text \<open>
  Calls of \<open>GetPriceUSD\<close> (\<open>internal/price/chainlink/chainlink.go\<close>) by several workers at once. The provider's lock is held
  for each access to the two caches and not between them, so a call is a sequence of steps, and the steps of different
  calls interleave; the node is asked without the lock. \<open>Chainlink.GetPriceUSD\<close> is the call that no other interrupts.
\<close>

section \<open>The steps of a call\<close>

datatype call_pc =
    Starts
  | Wants_Decimals string
  | Asks_Decimals string
  | Stores_Decimals string "8 word"
  | Reads_Round string "8 word"
  | Stores_Price string float64
  | Returns_Price "price_error + float64"

fun call_step :: "price_call \<Rightarrow> call_pc \<Rightarrow> Provider \<Rightarrow> (call_pc \<times> Provider) option" where
  "call_step c Starts p =
     (case LookupPriceFeed (pv_reg p) (pv_chain p) (ca_tok c) of
        None \<Rightarrow> Some (Returns_Price (Inl (NoPriceFeed (ca_tok c) (pv_chain p))), p)
      | Some feed \<Rightarrow>
          (case pv_cache p (pf_Address feed) of
             Some cached \<Rightarrow>
               if now1 (ca_clk c) < cp_expiresAt cached then Some (Returns_Price (Inr (cp_price cached)), p)
               else Some (Wants_Decimals (pf_Address feed), p)
           | None \<Rightarrow> Some (Wants_Decimals (pf_Address feed), p)))"
| "call_step c (Wants_Decimals addr) p =
     (case pv_decimals p addr of
        Some d \<Rightarrow> Some (Reads_Round addr d, p)
      | None \<Rightarrow> Some (Asks_Decimals addr, p))"
| "call_step c (Asks_Decimals addr) p =
     (case caller_Decimals (ca_caller c) addr of
        Inr d \<Rightarrow> Some (Stores_Decimals addr d, p)
      | Inl err \<Rightarrow> Some (Returns_Price (Inl (DecimalsError (ca_tok c) err)), p))"
| "call_step c (Stores_Decimals addr d) p =
     Some (Reads_Round addr d, p\<lparr>pv_decimals := (pv_decimals p)(addr \<mapsto> d)\<rparr>)"
| "call_step c (Reads_Round addr d) p =
     (case caller_LatestRoundData (ca_caller c) addr of
        Inl err \<Rightarrow> Some (Returns_Price (Inl (RoundError (ca_tok c) err)), p)
      | Inr rnd \<Rightarrow>
          (let updatedTime = unix_time (rd_UpdatedAt rnd) in
           if time_sub (now2 (ca_clk c)) updatedTime > StalenessThreshold (pv_cfg p)
           then Some (Returns_Price (Inl (StalePrice (ca_tok c) (time_sub (now2 (ca_clk c)) updatedTime))), p)
           else Some (Stores_Price addr (scaled_price (rd_Answer rnd) (Pow10 (uint d))), p)))"
| "call_step c (Stores_Price addr price) p =
     Some (Returns_Price (Inr price), p\<lparr>pv_cache := (pv_cache p)(addr \<mapsto>
       \<lparr>cp_price = price, cp_expiresAt = now3 (ca_clk c) + CacheTTL (pv_cfg p)\<rparr>)\<rparr>)"
| "call_step c (Returns_Price r) p = None"

text \<open>A schedule names the call that takes the next step.\<close>

fun sched_run :: "price_call list \<Rightarrow> nat list \<Rightarrow> call_pc list \<times> Provider \<Rightarrow> (call_pc list \<times> Provider) option" where
  "sched_run cs [] (pcs, p) = Some (pcs, p)"
| "sched_run cs (i # is) (pcs, p) =
     (if length cs \<le> i then None
      else (case call_step (cs ! i) (pcs ! i) p of
              None \<Rightarrow> None
            | Some (pc, p') \<Rightarrow> sched_run cs is (pcs[i := pc], p')))"

section \<open>A call alone\<close>

text \<open>What steps are left to a call, alone: they end, with the provider and the result of \<open>GetPriceUSD\<close>.\<close>

fun alone :: "nat \<Rightarrow> price_call \<Rightarrow> call_pc \<times> Provider \<Rightarrow> call_pc \<times> Provider" where
  "alone 0 c (pc, p) = (pc, p)"
| "alone (Suc n) c (pc, p) = (case call_step c pc p of None \<Rightarrow> (pc, p) | Some s \<Rightarrow> alone n c s)"

text \<open>A call that nothing interrupts returns, after at most six steps, exactly what \<open>GetPriceUSD\<close> does.\<close>

theorem GetPriceUSD_is_a_run:
  "alone 6 c (Starts, p) =
     (case GetPriceUSD (ca_caller c) (ca_clk c) (ca_tok c) p of (p', r) \<Rightarrow> (Returns_Price r, p'))"
proof -
  have fin: "alone n c (Returns_Price r, q) = (Returns_Price r, q)" for n r q by (cases n) simp_all
  have reads: "alone (Suc (Suc n)) c (Reads_Round addr d, q) =
      (case caller_LatestRoundData (ca_caller c) addr of
         Inl err \<Rightarrow> (Returns_Price (Inl (RoundError (ca_tok c) err)), q)
       | Inr rnd \<Rightarrow>
           (let updatedTime = unix_time (rd_UpdatedAt rnd) in
            if time_sub (now2 (ca_clk c)) updatedTime > StalenessThreshold (pv_cfg q)
            then (Returns_Price (Inl (StalePrice (ca_tok c) (time_sub (now2 (ca_clk c)) updatedTime))), q)
            else (let price = scaled_price (rd_Answer rnd) (Pow10 (uint d))
              in (Returns_Price (Inr price), q\<lparr>pv_cache := (pv_cache q)(addr \<mapsto>
                   \<lparr>cp_price = price, cp_expiresAt = now3 (ca_clk c) + CacheTTL (pv_cfg q)\<rparr>)\<rparr>))))" for n addr d q
    by (simp add: fin Let_def split: sum.split)
  have six: "alone 6 c s = alone (Suc (Suc (Suc (Suc (Suc (Suc 0)))))) c s" for s by (simp add: numeral_eq_Suc)
  show ?thesis
  proof (cases "LookupPriceFeed (pv_reg p) (pv_chain p) (ca_tok c)")
    case None
    then show ?thesis by (simp add: six fin GetPriceUSD_def)
  next
    case (Some feed)
    let ?a = "pf_Address feed"
    show ?thesis
    proof (cases "\<exists>e. pv_cache p ?a = Some e \<and> now1 (ca_clk c) < cp_expiresAt e")
      case True
      then show ?thesis using Some by (auto simp: six fin GetPriceUSD_def)
    next
      case False
      then have miss: "(case pv_cache p ?a of None \<Rightarrow> None
          | Some cached \<Rightarrow> if now1 (ca_clk c) < cp_expiresAt cached then Some (cp_price cached) else None) = None"
        and step: "call_step c Starts p = Some (Wants_Decimals ?a, p)"
        using Some by (auto split: option.split)
      show ?thesis
      proof (cases "pv_decimals p ?a")
        case dec: (Some d)
        then show ?thesis unfolding six GetPriceUSD_def Some option.case Let_def miss
          by (simp add: step reads getDecimals_def Let_def del: call_step.simps(1) split: sum.split)
      next
        case None
        then show ?thesis unfolding six GetPriceUSD_def Some option.case Let_def miss
          by (cases "caller_Decimals (ca_caller c) ?a")
            (simp_all add: step reads fin getDecimals_def Let_def del: call_step.simps(1) split: sum.split)
      qed
    qed
  qed
qed

section \<open>How old a price can be when calls interleave\<close>

definition call_ok :: "Provider \<Rightarrow> price_call list \<Rightarrow> price_call \<Rightarrow> call_pc \<Rightarrow> bool" where
  "call_ok p0 cs c pc \<longleftrightarrow>
     (let of_feed = (\<lambda>addr. \<exists>feed. LookupPriceFeed (pv_reg p0) (pv_chain p0) (ca_tok c) = Some feed \<and> pf_Address feed = addr)
      in case pc of
           Starts \<Rightarrow> True
         | Wants_Decimals addr \<Rightarrow> of_feed addr
         | Asks_Decimals addr \<Rightarrow> of_feed addr
         | Stores_Decimals addr d \<Rightarrow> of_feed addr \<and> caller_Decimals (ca_caller c) addr = Inr d
         | Reads_Round addr d \<Rightarrow> of_feed addr \<and> (\<exists>c'\<in>set cs. caller_Decimals (ca_caller c') addr = Inr d)
         | Stores_Price addr x \<Rightarrow> of_feed addr \<and> fetched_by p0 cs c addr x
         | Returns_Price r \<Rightarrow> (\<forall>x. r = Inr x \<longrightarrow> recent_price p0 cs c x))"

lemma recent_price_member:
  assumes "c \<in> set cs"
  shows "recent_price p0 cs c x \<longleftrightarrow>
    (\<exists>feed. LookupPriceFeed (pv_reg p0) (pv_chain p0) (ca_tok c) = Some feed \<and>
      (\<exists>c'\<in>set cs. fetched_by p0 cs c' (pf_Address feed) x \<and>
         (c' = c \<or> now1 (ca_clk c) < now3 (ca_clk c') + CacheTTL (pv_cfg p0))))"
proof -
  have "set (cs @ [c]) = set cs" using assms by auto
  moreover from this have "fetched_by p0 (cs @ [c]) = fetched_by p0 cs" by (simp add: fetched_by_def fun_eq_iff)
  ultimately show ?thesis by (simp only: recent_price_def)
qed

lemma call_step_ok:
  assumes "call_step c pc p = Some (pc', p')" "call_ok p0 cs c pc" "provenance p0 cs p" "c \<in> set cs"
  shows "call_ok p0 cs c pc' \<and> provenance p0 cs p'"
proof -
  have static: "pv_cfg p = pv_cfg p0" "pv_reg p = pv_reg p0" "pv_chain p = pv_chain p0"
    and decimals: "\<And>a d. pv_decimals p a = Some d \<Longrightarrow> \<exists>c'\<in>set cs. caller_Decimals (ca_caller c') a = Inr d"
    and cached: "\<And>a e. pv_cache p a = Some e \<Longrightarrow> \<exists>c'\<in>set cs. fetched_by p0 cs c' a (cp_price e) \<and>
        cp_expiresAt e = now3 (ca_clk c') + CacheTTL (pv_cfg p0)"
    using assms(3) unfolding provenance_def by blast+
  note recent = recent_price_member [OF assms(4), of p0]
  show ?thesis
  proof (cases pc)
    case Starts
    show ?thesis
    proof (cases "LookupPriceFeed (pv_reg p) (pv_chain p) (ca_tok c)")
      case None
      then show ?thesis using assms(1,3) Starts by (auto simp: call_ok_def)
    next
      case (Some feed)
      then have "pc' = Wants_Decimals (pf_Address feed) \<or>
          (\<exists>e. pv_cache p (pf_Address feed) = Some e \<and> now1 (ca_clk c) < cp_expiresAt e \<and> pc' = Returns_Price (Inr (cp_price e)))"
        and p': "p' = p"
        using assms(1) Starts by (auto split: option.splits if_splits)
      then show ?thesis
      proof (elim disjE exE conjE)
        assume "pc' = Wants_Decimals (pf_Address feed)"
        then show ?thesis using Some assms(3) p' by (simp add: call_ok_def static)
      next
        fix e assume e: "pv_cache p (pf_Address feed) = Some e" "now1 (ca_clk c) < cp_expiresAt e"
          and pc': "pc' = Returns_Price (Inr (cp_price e))"
        from cached [OF e(1)] e(2) Some show ?thesis unfolding pc' p' using assms(3)
          by (fastforce simp: call_ok_def recent static)
      qed
    qed
  next
    case (Wants_Decimals addr)
    then show ?thesis using assms(1-3) decimals by (auto simp: call_ok_def split: option.splits)
  next
    case (Asks_Decimals addr)
    then show ?thesis using assms(1-3) by (auto simp: call_ok_def split: sum.splits)
  next
    case (Stores_Decimals addr d)
    then have "caller_Decimals (ca_caller c) addr = Inr d" using assms(2) by (simp add: call_ok_def)
    then show ?thesis using assms Stores_Decimals by (auto simp: call_ok_def provenance_def split: if_splits)
  next
    case (Reads_Round addr d)
    then have p': "p' = p" and d: "\<exists>c'\<in>set cs. caller_Decimals (ca_caller c') addr = Inr d"
      using assms(1,2) by (auto simp: call_ok_def Let_def split: sum.splits if_splits)
    have "(\<exists>rnd. pc' = Stores_Price addr (scaled_price (rd_Answer rnd) (Pow10 (uint d))) \<and>
        caller_LatestRoundData (ca_caller c) addr = Inr rnd \<and>
        time_sub (now2 (ca_clk c)) (unix_time (rd_UpdatedAt rnd)) \<le> StalenessThreshold (pv_cfg p0)) \<or> (\<exists>err. pc' = Returns_Price (Inl err))"
      using assms(1) Reads_Round by (auto simp: static Let_def split: sum.splits if_splits)
    moreover have "fetched_by p0 cs c addr (scaled_price (rd_Answer rnd) (Pow10 (uint d)))"
      if "caller_LatestRoundData (ca_caller c) addr = Inr rnd"
        "time_sub (now2 (ca_clk c)) (unix_time (rd_UpdatedAt rnd)) \<le> StalenessThreshold (pv_cfg p0)" for rnd
      unfolding fetched_by_def using that d by blast
    ultimately show ?thesis using assms(2,3) Reads_Round p' by (auto simp: call_ok_def)
  next
    case (Stores_Price addr x)
    then have f: "fetched_by p0 cs c addr x" and pc': "pc' = Returns_Price (Inr x)"
      and p': "p' = p\<lparr>pv_cache := (pv_cache p)(addr \<mapsto> \<lparr>cp_price = x, cp_expiresAt = now3 (ca_clk c) + CacheTTL (pv_cfg p)\<rparr>)\<rparr>"
      using assms(1,2) by (auto simp: call_ok_def)
    have "recent_price p0 cs c x" using f assms(2,4) Stores_Price by (auto simp: recent call_ok_def)
    moreover have "provenance p0 cs p'" using assms(3,4) f unfolding p' provenance_def by (auto simp: static)
    ultimately show ?thesis by (simp add: pc' call_ok_def)
  next
    case (Returns_Price r)
    then show ?thesis using assms(1) by simp
  qed
qed

lemma sched_run_ok:
  "sched_run cs is (pcs, p) = Some (qcs, q) \<Longrightarrow> length pcs = length cs \<Longrightarrow> \<forall>i < length cs. call_ok p0 cs (cs ! i) (pcs ! i) \<Longrightarrow>
   provenance p0 cs p \<Longrightarrow> length qcs = length cs \<and> (\<forall>i < length cs. call_ok p0 cs (cs ! i) (qcs ! i)) \<and> provenance p0 cs q"
proof (induction "is" arbitrary: pcs p)
  case (Cons i "is")
  then obtain pc p' where s: "i < length cs" "call_step (cs ! i) (pcs ! i) p = Some (pc, p')"
    "sched_run cs is (pcs[i := pc], p') = Some (qcs, q)"
    by (auto split: if_splits option.splits)
  have ok: "call_ok p0 cs (cs ! i) pc" "provenance p0 cs p'"
    using call_step_ok [OF s(2)] Cons.prems(3,4) s(1) by auto
  have "call_ok p0 cs (cs ! j) (pcs[i := pc] ! j)" if "j < length cs" for j
    using that ok(1) Cons.prems(2,3) by (cases "j = i") simp_all
  then show ?case by (intro Cons.IH [OF s(3)]) (use ok(2) Cons.prems(2) in simp_all)
qed simp

text \<open>C28. Prices are recent however the calls of the workers interleave: in every schedule of any number of calls on a fresh
  provider, a price that a call returns was computed from a round of that token's feed whose age was within
  \<open>staleness_threshold\<close> when some call read it, and from decimals that the feed reported to a call; that call is the one
  that returns it, or the price is younger than \<open>cache_ttl\<close>.\<close>

theorem concurrent_prices_are_recent:
  assumes "sched_run cs is (replicate (length cs) Starts, NewWithCaller cfg reg chain) = Some (pcs, p)"
    and "i < length cs" "pcs ! i = Returns_Price (Inr x)"
  shows "recent_price (NewWithCaller cfg reg chain) cs (cs ! i) x"
proof -
  let ?p0 = "NewWithCaller cfg reg chain"
  have "provenance ?p0 cs ?p0" by (simp add: provenance_def NewWithCaller_def)
  moreover have "\<forall>i < length cs. call_ok ?p0 cs (cs ! i) (replicate (length cs) Starts ! i)" by (simp add: call_ok_def)
  ultimately have "call_ok ?p0 cs (cs ! i) (pcs ! i)" using sched_run_ok [OF assms(1)] assms(2) by simp
  then show ?thesis using assms(3) by (simp add: call_ok_def)
qed

text \<open>Two workers ask for the same token at once: both find the cache empty and ask the node, and the second stores last.\<close>

definition demo_calls :: "price_call list" where
  "demo_calls = [demo_price_call 1010, demo_price_call 1011]"

lemma concurrent_prices_are_recent_witness:
  "\<exists>pcs p. sched_run demo_calls [0, 1, 0, 1, 0, 1, 0, 1, 0, 1, 0, 1]
      (replicate (length demo_calls) Starts, NewWithCaller demo_price_cfg demo_feeds ChainEthereum) = Some (pcs, p) \<and>
    pcs ! 1 = Returns_Price (Inr (scaled_price 100000000 (Pow10 8))) \<and>
    recent_price (NewWithCaller demo_price_cfg demo_feeds ChainEthereum) demo_calls (demo_calls ! 1) (scaled_price 100000000 (Pow10 8))"
proof -
  let ?is = "[0, 1, 0, 1, 0, 1, 0, 1, 0, 1, 0, 1]"
  let ?s = "(replicate (length demo_calls) Starts, NewWithCaller demo_price_cfg demo_feeds ChainEthereum)"
  have "\<exists>pcs p. sched_run demo_calls ?is ?s = Some (pcs, p) \<and> pcs ! 1 = Returns_Price (Inr (scaled_price 100000000 (Pow10 8)))"
    by (simp add: demo_calls_def demo_price_defs i64_def Second_def Minute_def Hour_def Let_def)
  then obtain pcs p where r: "sched_run demo_calls ?is ?s = Some (pcs, p)"
    "pcs ! 1 = Returns_Price (Inr (scaled_price 100000000 (Pow10 8)))" by blast
  have "1 < length demo_calls" by (simp add: demo_calls_def)
  from concurrent_prices_are_recent [OF r(1) this r(2)] show ?thesis using r by blast
qed

end
