(* ===== verification/Spec2Isabelle.thy ===== *)
theory Spec2Isabelle
  imports Oracle_Program Client Other_Adapters Polling Price_Calls
begin

text \<open>
  A verification library for x-chain-oracle, a service that watches Ethereum for token approvals and
  Wormhole bridge deposits, correlates and evaluates them against rules, and streams signals to
  subscribers. This theory holds the overview and the properties that span several components.

  \<^bold>\<open>The program and its parts.\<close> \<open>cmd/oracle/main.go\<close> loads three files, builds the parts and starts one
  goroutine per stage; events travel through bounded channels:
  adapter, \<open>a.events\<close>, forwarder, \<open>rawEvents\<close>, normalizer, \<open>chainEvents\<close>, enricher workers,
  \<open>enrichedEvents\<close>, engine (with the correlator's pruner beside it), \<open>signals\<close>, emitter, one channel
  per gRPC subscriber. The theories, bottom up:

  \<^item> \<open>Prelude\<close>, \<open>Go_Strings\<close>, \<open>Go_Float\<close>, \<open>Go_Strconv\<close>, \<open>Go_Time\<close>: what the source uses of Go. Integers of
    a fixed width are words or carry their bounds, \<open>float64\<close> is its 64 bits with correctly rounded
    conversions, products and quotients, strings are lists of bytes, errors are \<open>Inl\<close> or \<open>Err\<close>, and a
    panic is a result of its own. \<open>Go_Strconv\<close> has \<open>ParseFloat\<close> and \<open>FormatFloat\<close> with the round trip of
    shortest decimals as a locale.
  \<^item> \<open>Event_Types\<close> (\<open>internal/types\<close>), \<open>Channels\<close> (\<open>internal/pipeline/traced.go\<close> and Go's channels, with a
    locale of bounded FIFO channels).
  \<^item> \<open>Rules\<close>, \<open>Event_Window\<close>, \<open>Correlator\<close>, \<open>Correlator_Runs\<close>, \<open>Engine_Run\<close> (\<open>internal/engine\<close>): conditions
    and signals; one window; the state of the correlator (a window and a time to live per event type)
    and \<open>Process\<close>; the interleaving of \<open>Process\<close> with the pruner as a step relation; the stage.
  \<^item> \<open>Registry\<close>, \<open>Tracker\<close>, \<open>Config\<close>, \<open>Telemetry\<close>, \<open>Ops_Http\<close>: \<open>internal/registry\<close>, \<open>internal/status\<close> (a map of
    pointers into an explicit heap), \<open>internal/config\<close>, \<open>internal/telemetry\<close> with the operations server and its goroutines.
  \<^item> \<open>Decoder\<close>, \<open>Block_Cache\<close>, \<open>Polling\<close>, \<open>Reconnect\<close>, \<open>Evm_Adapter\<close> (\<open>internal/adapter\<close>): logs as topics
    and bytes, sliced with Go's panics; the cache of block times; the poller; the retry loop; the
    adapter that joins them, session by session.
  \<^item> \<open>Normalizer\<close>, \<open>Enricher\<close>, \<open>Chainlink\<close>, \<open>Emitter\<close>: the other stages and the price provider
    (\<open>internal/normalizer\<close>, \<open>internal/enricher\<close>, \<open>internal/price/chainlink\<close>, \<open>internal/signal/grpc\<close>). The
    enricher is a pool of workers and the emitter a set of subscribers, each stepping on its own. \<open>Price_Calls\<close> has the calls of the
    provider as the workers make them, several at once, each step between two operations on the mutex.
  \<^item> \<open>Adapter_Flow\<close>, \<open>Oracle_Main\<close>, \<open>Grpc_Server\<close> (\<open>cmd/oracle/main.go\<close> and \<open>Start\<close>, \<open>Stop\<close> of the
    emitter): the goroutines between the adapter and the enricher with their bounded channels; start-up with its fatal
    errors and the lines it logs; and the life of the gRPC server around its subscribers.
  \<^item> \<open>System_Run\<close>, \<open>System_Drains\<close>: the whole pipeline at once, with every receive and send of every stage on the bounded
    channels that \<open>main\<close> makes, the cancellation and the subscribers, in any interleaving.
  \<^item> \<open>Simulation\<close>, \<open>Oracle_Process\<close>, \<open>Oracle_Program\<close>: the whole program. \<open>Oracle_Process\<close> joins the pipeline, the gRPC
    server, the operations server, the wait group, \<open>main\<close> and its log in one step function, with the four ways in which a
    process can end (\<open>main\<close> completes, \<open>logger.Fatal\<close>, a second signal, a panic), and simulates by it the pipeline and the server
    (\<open>Simulation\<close>, a locale with two interpretations); \<open>Oracle_Program\<close> launches what start-up builds from the files.
  \<^item> \<open>Client\<close> (\<open>cmd/client/main.go\<close>): the command line client, from its flags to what it prints.
  \<^item> \<open>Other_Adapters\<close> (\<open>websocket.go\<close>, \<open>internal/adapter/solana\<close>, \<open>internal/adapter/cosmos\<close>): the web socket
    strategy and the stubs.

  \<^bold>\<open>What the lemmas show.\<close> Correlator: a signal fires exactly when enough live matching events wait, it
  is justified by recorded events in every interleaving, nothing is counted twice, windows stay sorted
  and bounded, and the pruner never changes a signal. Decoder: from whom a deposit is decoded, the
  round trip with the ABI encoding, and exactly when a log makes the decoder panic. Poller: no block
  is skipped or delivered twice. Tracker: it refines a map per chain, and snapshots are isolated.
  Adapter: times are true or zero. Emitter: subscribers are isolated and each gets an ordered
  subsequence of what matches. Enricher: the pool loses and invents nothing and terminates. Prices are
  recent, also when calls overlap, and rounded once within bounds. Start-up: what a program that starts is made of. The process: \<open>main\<close> completes only after a
  signal and after every goroutine, and always can when the buffers are sized as shipped and the clients leave.
  The whole pipeline invents, repeats and overtakes nothing in any interleaving; without a cancellation it loses nothing,
  it cannot deadlock once \<open>Start\<close> has returned, and after a signal it stops. Every program that starts has these guarantees.
  Events from logs are well-formed up to the engine, and what a client prints is what its flags ask for. Several theorems state
  defects of the code: that a program stuck for ever still reports that it is well, that one connected client keeps the program from stopping until a second signal kills it, that it idles when its adapter gives up, that
  nothing flows while the adapter's \<open>Start\<close> runs because the events are read only after it, that the shipped correlation compares the depositor with the bridge, that dollar values
  count the smallest units, that parallel workers reorder correlated events, and others.

  \<^bold>\<open>Parameters.\<close> Code outside the repository is an argument: go-ethereum (\<open>ethlib\<close>, the node and the
  sessions of \<open>Evm_Adapter\<close>, the caller of \<open>Chainlink\<close>), the Wormhole SDK (\<open>wormlib\<close>), OpenTelemetry
  (\<open>otel\<close>, \<open>tl_Start\<close>), grpc-go (\<open>grpclib\<close>), koanf and TOML (what a file decodes to, or its error), the clock, and how the context
  behaves. What is assumed of them is a hypothesis of the theorem: that headers tell true times, that a
  node's answers are consistent, that it honours a filter.

  \<^bold>\<open>Bounds and termination.\<close> No definition has fuel. Loops over lists are structural; the retry loop, the
  parsing of durations and the shortest decimal have termination proofs; the stages' loops run over
  the events they receive, and the goroutines are runs of steps, whose termination is proved by a
  measure where the code ends. Lengths of byte slices are assumed below \<open>2 ^ 63\<close>, as Go's are.

  \<^bold>\<open>Not modelled.\<close> What the stages log (the lines of \<open>main\<close> itself are), spans' attributes and the export of metrics; the
  router and the connections of the HTTP server (its routes, answers and goroutines are); generated protobuf code; the
  parsing of flags; and the memory limit of \<open>make(chan)\<close>. In \<open>System_Run\<close> the pruner is left out: \<open>Correlator_Runs\<close> shows that it
  changes no signal unless an event is processed at the very instant of an earlier prune, and that the justification of signals and the
  bound of the windows hold with it in any case. In \<open>Oracle_Process\<close> the monitor of the channels is no goroutine, as it only reads them. Mutexes are not modelled as
  such: an operation that holds one is one step (the price provider, which releases it between the look-up and the store, is in steps in
  \<open>Price_Calls\<close>). Of the panics only those of the decoder and of \<open>make\<close> end the process in \<open>Oracle_Process\<close>; the theorems of the parts show where
  each can come from. Lower case is that of ASCII for addresses, and a parameter for
  the environment's names (\<open>Config\<close>).
\<close>

section \<open>From a log to an enriched event\<close>

text \<open>
  What the stages make of one log: the adapter decodes it and sets the time of its block, the
  normalizer and the enricher follow; \<open>r\<close> is what the price provider answered.
\<close>

definition pipeline_event ::
  "ethlib \<Rightarrow> wormlib \<Rightarrow> string \<Rightarrow> Registry \<Rightarrow> ChainID \<Rightarrow> int64 \<Rightarrow> 'e + float64 \<Rightarrow> Log \<Rightarrow> EnrichedEvent option" where
  "pipeline_event E W tb reg chain ts r lg =
     (case Decode E (NewDecoderRegistry E W tb) chain lg of
        Ok raw \<Rightarrow> (case Normalize (raw\<lparr>re_Timestamp := ts\<rparr>) of
            Inr ce \<Rightarrow> Some (enrich_with reg ce r)
          | Inl err \<Rightarrow> None)
      | _ \<Rightarrow> None)"

lemma Decode_kinds:
  assumes "Decode E (NewDecoderRegistry E W tb) chain lg = Ok raw"
  shows "(re_EventType raw = EventTokenApproval \<and> decodeERC20Approval E chain lg = Ok raw) \<or>
    (re_EventType raw = EventBridgeDeposit \<and> (\<exists>payload. decodeWormholeTransferPayload E W chain lg payload tb = Ok raw))"
proof -
  have "decodeERC20Approval E chain lg = Ok raw \<or> decodeWormholeLogMessagePublished E W chain lg tb = Ok raw"
    using assms by (auto simp: Decode_def NewDecoderRegistry_def makeWormholeDecoder_def split: if_splits option.splits)
  then show ?thesis
  proof
    assume a: "decodeERC20Approval E chain lg = Ok raw"
    then have "re_EventType raw = EventTokenApproval" by (auto simp: decodeERC20Approval_def Let_def split: if_splits)
    then show ?thesis using a by simp
  next
    assume "decodeWormholeLogMessagePublished E W chain lg tb = Ok raw"
    then obtain payload where p: "decodeWormholeTransferPayload E W chain lg payload tb = Ok raw"
      by (auto simp: decodeWormholeLogMessagePublished_def bind_outcome_Ok Let_def split: if_splits)
    then have "re_EventType raw = EventBridgeDeposit"
      by (auto simp: decodeWormholeTransferPayload_def bind_outcome_Ok Let_def split: if_splits sum.splits)
    then show ?thesis using p by blast
  qed
qed

text \<open>What an approval and a bridge deposit carry when they reach the engine.\<close>

lemma approval_event:
  assumes "pipeline_event E W tb reg chain ts r lg = Some ev" "EventTy ev = EventTokenApproval"
  shows "SourceAddress ev = eth_AddressHex E (eth_BytesToAddress E (log_Topics lg ! 1))"
    and "Token ev = lower_ascii (eth_AddressHex E (log_Address lg))"
    and "Amount ev = Itoa (be_value (take 32 (log_Data lg)))"
proof -
  obtain raw ce where raw: "Decode E (NewDecoderRegistry E W tb) chain lg = Ok raw"
    and ce: "Normalize (raw\<lparr>re_Timestamp := ts\<rparr>) = Inr ce" and ev: "ev = enrich_with reg ce r"
    using assms(1) by (auto simp: pipeline_event_def split: outcome.splits sum.splits)
  have ty: "re_EventType raw = EventTokenApproval"
    using ce assms(2) by (auto simp: Normalize_eq ev split: option.splits)
  then have a: "decodeERC20Approval E chain lg = Ok raw"
    using Decode_kinds [OF raw] by (auto simp: event_types)
  then have "re_Data raw = [''token'' \<mapsto> AnyString (lower_ascii (eth_AddressHex E (log_Address lg))),
      ''sender'' \<mapsto> AnyString (eth_AddressHex E (eth_BytesToAddress E (log_Topics lg ! 1))),
      ''spender'' \<mapsto> AnyString (eth_AddressHex E (eth_BytesToAddress E (log_Topics lg ! 2))),
      ''amount'' \<mapsto> AnyString (Itoa (be_value (take 32 (log_Data lg)))),
      ''contract'' \<mapsto> AnyString (eth_AddressHex E (log_Address lg))]"
    by (auto simp: decodeERC20Approval_def Let_def split: if_splits)
  then show "SourceAddress ev = eth_AddressHex E (eth_BytesToAddress E (log_Topics lg ! 1))"
    and "Token ev = lower_ascii (eth_AddressHex E (log_Address lg))"
    and "Amount ev = Itoa (be_value (take 32 (log_Data lg)))"
    using ce ty by (auto simp: Normalize_eq ev event_keys_def event_types text_field_def data_get_def split: option.splits)
qed

lemma deposit_event:
  assumes "pipeline_event E W tb reg chain ts r lg = Some ev" "EventTy ev = EventBridgeDeposit"
  shows "\<exists>payload hdr. vaa_DecodeTransferPayloadHdr W payload = Inr hdr \<and>
    SourceAddress ev = eth_AddressHex E (eth_HexToAddress E tb) \<and>
    Token ev = lower_ascii (eth_AddressHex E (eth_BytesToAddress E (hdr_OriginAddress hdr))) \<and>
    Amount ev = Itoa (hdr_Amount hdr) \<and> DestChain ev = Some (WormholeChainID W (hdr_TargetChain hdr)) \<and>
    AmountUSD ev = amount_usd (Itoa (hdr_Amount hdr)) r"
proof -
  obtain raw ce where raw: "Decode E (NewDecoderRegistry E W tb) chain lg = Ok raw"
    and ce: "Normalize (raw\<lparr>re_Timestamp := ts\<rparr>) = Inr ce" and ev: "ev = enrich_with reg ce r"
    using assms(1) by (auto simp: pipeline_event_def split: outcome.splits sum.splits)
  have ty: "re_EventType raw = EventBridgeDeposit"
    using ce assms(2) by (auto simp: Normalize_eq ev split: option.splits)
  then obtain payload where p: "decodeWormholeTransferPayload E W chain lg payload tb = Ok raw"
    using Decode_kinds [OF raw] by (auto simp: event_types)
  then obtain hdr where hdr: "vaa_DecodeTransferPayloadHdr W payload = Inr hdr"
    and d: "re_Data raw = [''token'' \<mapsto> AnyString (lower_ascii (eth_AddressHex E (eth_BytesToAddress E (hdr_OriginAddress hdr)))),
      ''amount'' \<mapsto> AnyString (Itoa (hdr_Amount hdr)),
      ''sender'' \<mapsto> AnyString (eth_AddressHex E (eth_HexToAddress E tb)),
      ''target_chain'' \<mapsto> AnyString (WormholeChainID W (hdr_TargetChain hdr)),
      ''contract'' \<mapsto> AnyString (eth_AddressHex E (log_Address lg))]"
    by (auto simp: decodeWormholeTransferPayload_def bind_outcome_Ok Let_def split: if_splits sum.splits)
  show ?thesis
    using ce ty hdr by (intro exI [of _ payload] exI [of _ hdr])
      (auto simp: d Normalize_eq ev event_keys_def event_types text_field_def data_get_def split: option.splits)
qed

text \<open>The transfer is the one in the payload that the ABI encoding of the log's data points to.\<close>

lemma deposit_payload:
  assumes "pipeline_event E W tb reg chain ts r lg = Some ev" "EventTy ev = EventBridgeDeposit" "length (log_Data lg) < 2 ^ 63"
  shows "\<exists>hdr. vaa_DecodeTransferPayloadHdr W (payload_bytes (log_Data lg)) = Inr hdr \<and> Amount ev = Itoa (hdr_Amount hdr) \<and>
    DestChain ev = Some (WormholeChainID W (hdr_TargetChain hdr)) \<and> AmountUSD ev = amount_usd (Itoa (hdr_Amount hdr)) r"
proof -
  obtain raw ce where raw: "Decode E (NewDecoderRegistry E W tb) chain lg = Ok raw"
    and ce: "Normalize (raw\<lparr>re_Timestamp := ts\<rparr>) = Inr ce" and ev: "ev = enrich_with reg ce r"
    using assms(1) by (auto simp: pipeline_event_def split: outcome.splits sum.splits)
  have ty: "re_EventType raw = EventBridgeDeposit"
    using ce assms(2) by (auto simp: Normalize_eq ev split: option.splits)
  obtain hdr where hdr: "vaa_DecodeTransferPayloadHdr W (payload_bytes (log_Data lg)) = Inr hdr"
    "as_string (data_get (re_Data raw) ''amount'') = Some (Itoa (hdr_Amount hdr))"
    "as_string (data_get (re_Data raw) ''target_chain'') = Some (WormholeChainID W (hdr_TargetChain hdr))"
    using bridge_deposit_origin [OF assms(3) raw ty] by blast
  then show ?thesis
    using ce ty by (intro exI [of _ hdr])
      (auto simp: Normalize_eq ev event_keys_def event_types text_field_def split: option.splits)
qed

section \<open>Well-formed events\<close>

text \<open>What every event that comes from a log is like: of one of two kinds, of its chain, with the time it was given, an
  amount that is the decimal numeral of a \<open>uint256\<close>, a destination exactly for deposits, texts for raw data, and a
  contract's name exactly with its protocol.\<close>

definition event_wf :: "ChainID \<Rightarrow> int64 \<Rightarrow> EnrichedEvent \<Rightarrow> bool" where
  "event_wf chain ts ev \<longleftrightarrow>
     EventTy ev \<in> {EventTokenApproval, EventBridgeDeposit} \<and> Chain ev = chain \<and> Timestamp ev = ts \<and>
     (\<exists>n. 0 \<le> n \<and> n < 2 ^ 256 \<and> Amount ev = Itoa n) \<and>
     (DestChain ev \<noteq> None \<longleftrightarrow> EventTy ev = EventBridgeDeposit) \<and>
     (\<forall>v\<in>ran (RawData ev). \<exists>str. v = AnyString str) \<and>
     (ContractName ev = None \<longleftrightarrow> Protocol ev = None)"

text \<open>The amount of a transfer message is a \<open>uint256\<close>, as the Wormhole SDK reads it from 32 bytes.\<close>

definition uint256_amounts :: "wormlib \<Rightarrow> bool" where
  "uint256_amounts W \<longleftrightarrow>
     (\<forall>payload hdr. vaa_DecodeTransferPayloadHdr W payload = Inr hdr \<longrightarrow> 0 \<le> hdr_Amount hdr \<and> hdr_Amount hdr < 2 ^ 256)"

lemma raw_texts:
  assumes "Decode E (NewDecoderRegistry E W tb) chain lg = Ok raw"
  shows "\<forall>v\<in>ran (re_Data raw). \<exists>str. v = AnyString str"
  using Decode_kinds [OF assms]
  by (auto simp: decodeERC20Approval_def decodeWormholeTransferPayload_def bind_outcome_Ok Let_def ran_def split: if_splits sum.splits)

lemma numeral_parses:
  assumes "0 \<le> n" "n < 2 ^ 256"
  shows "\<exists>a. ParseFloat (Itoa n) = Some a \<and> f64_finite a"
proof (cases "n = 0")
  case True
  have "ParseFloat (Itoa 0) = Some (f64_of_int 0)" "f64_finite (f64_of_int 0)" by code_simp+
  then show ?thesis using True by blast
next
  case False
  have "n < 2 ^ 1023" using assms(2) by (rule less_trans) simp
  then show ?thesis using ParseFloat_Itoa [of n] f64_of_int_finite [of n] assms(1) False by simp
qed

text \<open>C11. Events are well-formed from the decoder to the engine: every log that decodes gives an event that is, whatever the
  log holds and whatever the price provider answers, and its amount is a numeral that a numeric condition of a
  rule can always read.\<close>

theorem pipeline_events_well_formed:
  assumes "pipeline_event E W tb reg chain ts (r :: 'e + float64) lg = Some ev" "uint256_amounts W"
  shows "event_wf chain ts ev \<and> (\<exists>a. ParseFloat (Amount ev) = Some a \<and> f64_finite a)"
proof -
  obtain raw ce where raw: "Decode E (NewDecoderRegistry E W tb) chain lg = Ok raw"
    and ce: "Normalize (raw\<lparr>re_Timestamp := ts\<rparr>) = Inr ce" and ev: "ev = enrich_with reg ce r"
    using assms(1) by (auto simp: pipeline_event_def split: outcome.splits sum.splits)
  have same: "EventTy ev = re_EventType raw" "Chain ev = chain" "Timestamp ev = ts" "RawData ev = re_Data raw"
    "ContractName ev = None \<longleftrightarrow> Protocol ev = None"
    using ce Decode_raw [OF raw] by (auto simp: ev Normalize_eq enrich_with_def with_chain_event_def ChainEvent.defs split: option.splits)
  have kinds: "re_EventType raw = EventTokenApproval \<or> re_EventType raw = EventBridgeDeposit"
    using Decode_kinds [OF raw] by blast
  then have amount: "\<exists>n. 0 \<le> n \<and> n < 2 ^ 256 \<and> Amount ev = Itoa n"
  proof
    assume "re_EventType raw = EventTokenApproval"
    then have "Amount ev = Itoa (be_value (take 32 (log_Data lg)))" using approval_event(3) [OF assms(1)] same(1) by simp
    then show ?thesis using be_value_word by blast
  next
    assume "re_EventType raw = EventBridgeDeposit"
    then show ?thesis using deposit_event [OF assms(1)] same(1) assms(2) by (auto simp: uint256_amounts_def)
  qed
  have "DestChain ev \<noteq> None \<longleftrightarrow> EventTy ev = EventBridgeDeposit"
    using kinds
  proof
    assume a: "re_EventType raw = EventTokenApproval"
    then have "decodeERC20Approval E chain lg = Ok raw" using Decode_kinds [OF raw] by (auto simp: event_types)
    then have "data_get (re_Data raw) ''target_chain'' = AnyNil"
      by (auto simp: decodeERC20Approval_def Let_def data_get_def split: if_splits)
    then show ?thesis using ce a same(1) by (auto simp: ev Normalize_eq event_types split: option.splits)
  next
    assume "re_EventType raw = EventBridgeDeposit"
    then show ?thesis using deposit_event [OF assms(1)] same(1) by auto
  qed
  then have "event_wf chain ts ev"
    using same kinds amount raw_texts [OF raw] by (simp add: event_wf_def)
  then show ?thesis using amount numeral_parses by auto
qed

section \<open>The correlation of approvals and deposits\<close>

text \<open>C6. The sender of a bridge deposit is not the depositor: the decoder puts the address of the token
  bridge there. So in every run of the correlator over events that come from logs, a correlation of
  approvals with deposits that compares \<open>source_address\<close> (as the shipped \<open>approval_then_bridge\<close> does)
  fires only if an approval was recorded whose owner is the token bridge itself; approvals by
  the users who bridge never count.\<close>

theorem approval_correlation_needs_the_bridge_as_owner:
  assumes run: "csteps gen (start now (NewCorrelator cs cfg onDrop)) ls s"
    and logs: "\<forall>(e, t)\<in>set (recorded ls). \<exists>lg ts r. pipeline_event E W tb reg chain ts (r :: string + float64) lg = Some e"
    and trigger: "pipeline_event E W tb reg chain ts r lg = Some ev"
    and corr: "co_Sequence corr = [EventTokenApproval, EventBridgeDeposit]" "''source_address'' \<in> set (co_SameFields corr)"
    and fires: "snd (process_correlation gen' k t corr ev (ps_corr s)) \<noteq> []"
  shows "\<exists>e t' lg' ts' r'. (e, t') \<in> set (recorded ls) \<and>
    pipeline_event E W tb reg chain ts' (r' :: string + float64) lg' = Some e \<and> EventTy e = EventTokenApproval \<and>
    eth_AddressHex E (eth_BytesToAddress E (log_Topics lg' ! 1)) = eth_AddressHex E (eth_HexToAddress E tb)"
proof -
  obtain M where M: "M \<subseteq># mset (recorded ls)" "min_count corr \<le> int (size M)"
    and all: "\<forall>(e, r)\<in>#M. EventTy e = EventTokenApproval \<and> fieldsMatch (co_SameFields corr) e ev"
    using fired_from_recorded [OF run fires] by (auto simp: corr(1))
  then obtain e t' where e: "(e, t') \<in># M" using min_count_pos [of corr] by (cases M) auto
  have ty: "EventTy ev = EventBridgeDeposit"
    using fires by (simp add: process_correlation_fires triggers_def corr(1) split: if_splits)
  have "(e, t') \<in> set (recorded ls)" using M(1) e mset_subset_eqD by fastforce
  moreover from this obtain lg' ts' r' where p: "pipeline_event E W tb reg chain ts' (r' :: string + float64) lg' = Some e"
    using logs by blast
  moreover have a: "EventTy e = EventTokenApproval" "fieldsMatch (co_SameFields corr) e ev" using all e by auto
  moreover have "SourceAddress e = SourceAddress ev"
    using a(2) corr(2) by (auto simp: fieldsMatch_iff getFieldValue_def dest!: bspec [where x = "''source_address''"])
  moreover have "SourceAddress ev = eth_AddressHex E (eth_HexToAddress E tb)"
    using deposit_event [OF trigger ty] by blast
  ultimately show ?thesis using approval_event(1) [OF p a(1)] by auto
qed


section \<open>The shipped rule\<close>

text \<open>The rule and the correlation of \<open>config/rules.toml\<close>.\<close>

definition shipped_rules :: RulesConfig where
  "shipped_rules =
     \<lparr>rc_Rules = [\<lparr>r_Name = ''large_bridge_deposit_solana'', r_Trigger = ''bridge_deposit'',
        r_Conditions = [\<lparr>c_Field = ''amount_usd'', c_Op = ''gt'', c_Value = ''50000''\<rparr>,
          \<lparr>c_Field = ''destination_chain'', c_Op = ''eq'', c_Value = ''solana''\<rparr>],
        r_Signal = ''liquidity_needed'', r_Confidence = f64_div (f64_of_int 8) (f64_of_int 10),
        r_MetadataFields = [''destination_chain'', ''token'', ''amount'']\<rparr>],
      rc_Correlations = [\<lparr>co_Name = ''approval_then_bridge'', co_Sequence = [''token_approval'', ''bridge_deposit''],
        co_Window = ''30s'', co_SameFields = [''source_address'', ''token''], co_Signal = ''high_confidence_bridge'',
        co_Confidence = f64_div (f64_of_int 95) (f64_of_int 100), co_MinFirstCount = 0, co_windowDuration = 0\<rparr>]\<rparr>"

lemma amount_usd_of_numeral:
  assumes "0 \<le> n" "n < 2 ^ 256"
  shows "amount_usd (Itoa n) answer = (case answer of Inr u \<Rightarrow> if 0 < n then Some (f64_of_int n * u) else None | Inl _ \<Rightarrow> None)"
proof (cases "n = 0")
  case True
  have "ParseFloat (Itoa 0) = Some (f64_of_int 0)" "\<not> f64_of_int 0 < f64_of_int 0" by code_simp+
  then show ?thesis using True by (simp add: amount_usd_def split: sum.split)
next
  case False
  have "(2 :: int) ^ 256 \<le> 2 ^ 900" "(2 :: int) ^ 256 \<le> 2 ^ 1023" by (rule power_increasing; simp)+
  then have "n \<le> 2 ^ 900" "n < 2 ^ 1023" using assms(2) by linarith+
  then have "ParseFloat (Itoa n) = Some (f64_of_int n)" "f64_of_int 0 < f64_of_int n"
    using ParseFloat_Itoa [of n] f64_of_int_pos [of n] assms(1) False by simp_all
  then show ?thesis using assms(1) False by (simp add: amount_usd_def split: sum.split)
qed

text \<open>C10. What the shipped rule signals, from the log on: a deposit of \<open>n\<close> of the token's smallest units, for any \<open>uint256\<close> that
  the payload in the log's data may hold, gives at most one signal, and gives one exactly when it is bound for Solana, \<open>n\<close> is not
  zero, the token has a price and \<open>n\<close> times that price, as floats, exceeds 50000. The threshold of 50000 dollars is thus reached by
  50001 smallest units of a token worth one dollar (five cents of USDC).\<close>

theorem shipped_rule_on_a_deposit:
  assumes "pipeline_event E W tb reg chain ts (answer :: 'e + float64) lg = Some ev" "EventTy ev = EventBridgeDeposit"
    and "uint256_amounts W" "length (log_Data lg) < 2 ^ 63"
  shows "\<exists>hdr. vaa_DecodeTransferPayloadHdr W (payload_bytes (log_Data lg)) = Inr hdr \<and> Amount ev = Itoa (hdr_Amount hdr) \<and>
    length (Evaluate gen k shipped_rules ev) \<le> 1 \<and>
    (length (Evaluate gen k shipped_rules ev) = 1 \<longleftrightarrow>
       WormholeChainID W (hdr_TargetChain hdr) = ''solana'' \<and> 0 < hdr_Amount hdr \<and>
       (\<exists>u. answer = Inr u \<and> f64_of_int 50000 < f64_of_int (hdr_Amount hdr) * u))"
proof -
  obtain hdr where hdr: "vaa_DecodeTransferPayloadHdr W (payload_bytes (log_Data lg)) = Inr hdr" "Amount ev = Itoa (hdr_Amount hdr)"
    and d: "DestChain ev = Some (WormholeChainID W (hdr_TargetChain hdr))" "AmountUSD ev = amount_usd (Itoa (hdr_Amount hdr)) answer"
    using deposit_payload [OF assms(1,2,4)] by blast
  let ?n = "hdr_Amount hdr"
  have n: "0 \<le> ?n" "?n < 2 ^ 256" using assms(3) hdr(1) by (auto simp: uint256_amounts_def)
  have t: "ParseFloat ''50000'' = Some (f64_of_int 50000)" by code_simp
  have dest: "evalCondition \<lparr>c_Field = ''destination_chain'', c_Op = ''eq'', c_Value = ''solana''\<rparr> ev \<longleftrightarrow>
      WormholeChainID W (hdr_TargetChain hdr) = ''solana''"
    by (simp add: evalCondition_def getFieldValue_def d(1))
  have usd: "evalCondition \<lparr>c_Field = ''amount_usd'', c_Op = ''gt'', c_Value = ''50000''\<rparr> ev \<longleftrightarrow>
      0 < ?n \<and> (\<exists>u. answer = Inr u \<and> f64_of_int 50000 < f64_of_int ?n * u)"
    using amount_usd_of_numeral [OF n, of answer]
      numeric_op_FormatFloat [of "f64_of_int ?n * projr answer" "''gt''" "f64_of_int 50000"]
    by (cases answer) (auto simp: evalCondition_numeric numeric_ops_def compareNumeric_iff getFieldValue_def d(2) t strconv.parse_empty)
  have "length (Evaluate gen k shipped_rules ev) = (if evalCondition \<lparr>c_Field = ''amount_usd'', c_Op = ''gt'', c_Value = ''50000''\<rparr> ev
      \<and> evalCondition \<lparr>c_Field = ''destination_chain'', c_Op = ''eq'', c_Value = ''solana''\<rparr> ev then 1 else 0)"
    using assms(2) by (simp add: Evaluate_def evaluate_rules_eq shipped_rules_def rule_matches_def EventBridgeDeposit_def)
  then show ?thesis using hdr usd dest by (intro exI [of _ hdr]) auto
qed

section \<open>Order\<close>








section \<open>The stages in sequence\<close>

text \<open>What the stages make of a list of raw events, given the provider's answer to each event that normalizes:
  the signals that leave the engine, in order.\<close>

definition pipeline_signals ::
  "'c tel \<Rightarrow> Registry \<Rightarrow> 'c Engine \<Rightarrow> round_env list \<Rightarrow> ('e + float64) list \<Rightarrow> (RawEvent, 'c) Traced list
     \<Rightarrow> (Signal, 'c) Traced list" where
  "pipeline_signals tel reg eng ros answers raws =
     snd (stage_signals eng (zip ros (map2 (processEvent tel reg) (normalized tel raws) answers)))"

lemma enriched_answers:
  assumes "list_all2 (enriched_by e) ins outs"
  shows "\<exists>answers :: (unit + float64) list. length answers = length ins \<and>
    outs = map2 (processEvent (en_tel e) (en_reg e)) ins answers"
  using assms
proof (induction ins outs rule: list_all2_induct)
  case (Cons x xs y ys)
  then obtain r :: "unit + float64" and rs :: "(unit + float64) list" where
    "y = processEvent (en_tel e) (en_reg e) x r" "length rs = length xs"
    "ys = map2 (processEvent (en_tel e) (en_reg e)) xs rs" by (auto simp: enriched_by_def)
  then show ?case by (intro exI [of _ "r # rs"]) simp
qed simp

text \<open>With one worker and no cancellation the stages in sequence, each of them a loop or a pool over its channels, refine one
  function on lists: whatever order the worker's steps take, there is an answer of the provider for each
  event that normalizes such that the engine sends exactly the signals of that function and the emitter
  offers them to its subscribers one after the other.\<close>

theorem pipeline_refines_functions:
  assumes "wsteps e (Enricher.Run e (fst (Normalizer_Run (en_tel e) calm raws))) acts s"
    and "en_workers e = 1" "\<not> pl_cancelled s" "finished s"
  shows "\<exists>answers :: (unit + float64) list. length answers = length (normalized (en_tel e) raws) \<and>
    (let sent = lo_out (Engine_Run.Run eng calm (zip ros (pl_out s))) in
       sent = pipeline_signals (en_tel e) (en_reg e) eng ros answers raws \<and>
       fst (emitter_run (\<lambda>_. False) 0 sent (em, m)) = fold (Emit \<circ> tr_Value) sent em)"
proof -
  have "list_all2 (enriched_by e) (normalized (en_tel e) raws) (pl_out s)"
    using one_worker_results [OF assms] by (simp add: Normalizer_Run_def normalizer_run_calm)
  from enriched_answers [OF this] obtain answers :: "(unit + float64) list" where
    "length answers = length (normalized (en_tel e) raws)"
    "pl_out s = map2 (processEvent (en_tel e) (en_reg e)) (normalized (en_tel e) raws) answers" by blast
  then show ?thesis
    by (intro exI [of _ answers]) (simp add: Engine_Run.Run_def engine_run_calm emitter_run_calm pipeline_signals_def)
qed

section \<open>A started program\<close>

text \<open>C34. The memory of the correlator is bounded in every program that starts: whatever events arrive and
  however the pruner is interleaved, a window of the engine that start-up builds never holds more events
  than \<open>max_window_size\<close>, which is at least one.\<close>

theorem started_program_has_bounded_windows:
  assumes "startup E W sp ho = Inr pg"
    and "csteps gen (Correlator_Runs.start now (eg_correlator (pg_engine pg))) ls s"
    and "map_of (cr_windows (ps_corr s)) ty = Some w"
  shows "\<exists>cfg. LoadConfig (ho_config ho) = Inr cfg \<and> 1 \<le> MaxWindowSize (cf_Engine cfg) \<and>
    Size w \<le> MaxWindowSize (cf_Engine cfg)"
proof -
  obtain cfg reg rules where cfg: "LoadConfig (ho_config ho) = Inr cfg" and reg: "Load (ho_registry ho) = Inr reg"
    and rules: "LoadRules (ho_rules ho) = Inr rules"
    using assms(1) by (auto simp: startup_eq bind_sum_Inr)
  have eng: "eg_correlator (pg_engine pg) = NewCorrelator (rc_Correlations rules)
      \<lparr>cc_DefaultWindowTTL = DefaultWindowTTL (cf_Engine cfg), cc_PruneInterval = PruneInterval (cf_Engine cfg),
       cc_MaxWindowSize = MaxWindowSize (cf_Engine cfg)\<rparr> True"
    using assms(1) by (auto simp: startup_eq bind_sum_Inr cfg reg rules Engine_Run.New_def)
  have "Validate cfg = None" using cfg by (auto simp: LoadConfig_def Let_def split: sum.splits option.splits)
  then have "1 \<le> MaxWindowSize (cf_Engine cfg)" by (simp add: Validate_None)
  then show ?thesis
    using reachable_windows_ok_aux [OF assms(2) [unfolded eng] assms(3)] cfg by auto
qed

section \<open>Examples\<close>

lemma pipeline_reaches:
  assumes "Decode E (NewDecoderRegistry E W tb) chain lg = Ok raw"
  shows "\<exists>ev. pipeline_event E W tb reg chain ts r lg = Some ev \<and> EventTy ev = re_EventType raw"
  using Decode_kinds [OF assms] assms
  by (auto simp: pipeline_event_def Normalize_eq event_keys_def event_types data_get_def
      decodeERC20Approval_def decodeWormholeTransferPayload_def bind_outcome_Ok Let_def split: if_splits sum.splits)

text \<open>An approval given by the token bridge, for a token at the address \<open>addr\<close>, and a deposit of five units bound for
  Solana, at a price of 20000 dollars.\<close>

definition owner_approval_log :: "Address \<Rightarrow> Log" where
  "owner_approval_log addr = demo_approval_log\<lparr>log_Address := addr, log_Topics :=
     [eth_Keccak256Hash demo_eth ''Approval(address,address,uint256)'', replicate 32 7, replicate 32 2]\<rparr>"

definition demo_pipeline :: "Log \<Rightarrow> EnrichedEvent option" where
  "demo_pipeline = pipeline_event demo_eth demo_vaa ''0x07'' demo_registry ChainEthereum 0 (Inr (f64_of_int 20000) :: string + float64)"

lemma demo_deposit_event: "\<exists>ev. demo_pipeline (demo_log demo_data) = Some ev \<and> EventTy ev = EventBridgeDeposit"
  using demo_deposit_decodes pipeline_reaches unfolding demo_pipeline_def by metis

lemma owner_approval_decodes:
  "\<exists>raw. Decode demo_eth (NewDecoderRegistry demo_eth demo_vaa tb) ChainEthereum (owner_approval_log addr) = Ok raw \<and>
     re_EventType raw = EventTokenApproval"
  by (simp add: Decode_def NewDecoderRegistry_def owner_approval_log_def demo_approval_log_def decodeERC20Approval_def Let_def)

lemma demo_approval_event: "\<exists>ev. demo_pipeline (owner_approval_log addr) = Some ev \<and> EventTy ev = EventTokenApproval"
  using owner_approval_decodes pipeline_reaches unfolding demo_pipeline_def by metis

lemma approval_recorded:
  assumes "EventTy a = EventTokenApproval"
  shows "csteps demo_gen (Correlator_Runs.start 0 demo_corr) [Begin a, MatchFirst 0, RecordEvent a 0]
    (Correlator_Runs.start 0 (demo_state [\<lparr>we_event = a, we_expiresAt = 300000000000\<rparr>] []))"
proof -
  have "process_labels (\<lambda>i. 0) a (demo_state [] []) = [Begin a, MatchFirst 0, RecordEvent a 0]"
    by (simp add: process_labels_def demo_state_def)
  moreover have "Process demo_gen 0 (\<lambda>i. 0) a (demo_state [] []) =
      (demo_state [\<lparr>we_event = a, we_expiresAt = 300000000000\<rparr>] [], [], None)"
    using assms by (simp add: Process_def demo_state_def demo_correlation_def process_correlation_def event_types
        record_event_def ttl_get_def demo_window_def Add_def Let_def)
  ultimately show ?thesis
    using process_steps [of "Correlator_Runs.start 0 demo_corr" "\<lambda>i. 0" demo_gen a]
    by (simp add: demo_corr_eq) (simp add: Correlator_Runs.start_def)
qed

lemma approval_correlation_needs_the_bridge_as_owner_witness:
  "\<exists>a t lg ts r. demo_pipeline (owner_approval_log (replicate 20 9)) = Some a \<and> (a, t) \<in> set [(a, 0)] \<and>
    pipeline_event demo_eth demo_vaa ''0x07'' demo_registry ChainEthereum ts (r :: string + float64) lg = Some a \<and>
    eth_AddressHex demo_eth (eth_BytesToAddress demo_eth (log_Topics lg ! 1)) = eth_AddressHex demo_eth (eth_HexToAddress demo_eth ''0x07'')"
proof -
  obtain a where a: "demo_pipeline (owner_approval_log (replicate 20 9)) = Some a" "EventTy a = EventTokenApproval"
    using demo_approval_event by blast
  obtain b where b: "demo_pipeline (demo_log demo_data) = Some b" "EventTy b = EventBridgeDeposit"
    using demo_deposit_event by blast
  let ?ls = "[Begin a, MatchFirst 0, RecordEvent a 0]"
  let ?s = "Correlator_Runs.start 0 (demo_state [\<lparr>we_event = a, we_expiresAt = 300000000000\<rparr>] [])"
  let ?corr = "demo_correlation ''c'' ''5m'' 1"
  have rec: "recorded ?ls = [(a, 0)]" by (simp add: recorded_def)
  have logs: "\<forall>(e, t)\<in>set (recorded ?ls). \<exists>lg ts r.
      pipeline_event demo_eth demo_vaa ''0x07'' demo_registry ChainEthereum ts (r :: string + float64) lg = Some e"
    using a(1) by (auto simp: rec demo_pipeline_def)
  have "SourceAddress a = SourceAddress b"
    using approval_event(1) [OF a(1) [unfolded demo_pipeline_def] a(2)] deposit_event [OF b(1) [unfolded demo_pipeline_def] b(2)]
    by (auto simp: owner_approval_log_def demo_eth_def last_n_def)
  then have fires: "snd (process_correlation demo_gen 0 60 ?corr b (ps_corr ?s)) \<noteq> []"
    using b(2) by (simp add: process_correlation_fires triggers_def live_matches_def demo_correlation_def
        demo_state_def demo_window_def live_def min_count_def event_types getFieldValue_def)
  have corr: "co_Sequence ?corr = [EventTokenApproval, EventBridgeDeposit]" "''source_address'' \<in> set (co_SameFields ?corr)"
    by (simp_all add: demo_correlation_def)
  from approval_correlation_needs_the_bridge_as_owner
    [OF approval_recorded [OF a(2), unfolded demo_corr_def] logs b(1) [unfolded demo_pipeline_def] corr fires]
  show ?thesis using a(1) unfolding rec by fastforce
qed


lemma demo_vaa_amounts: "uint256_amounts demo_vaa"
  using be_value_word by (auto simp: uint256_amounts_def demo_vaa_def)

lemma pipeline_events_well_formed_witness:
  "\<exists>ev. demo_pipeline (demo_log demo_data) = Some ev \<and> event_wf ChainEthereum 0 ev \<and> ParseFloat (Amount ev) \<noteq> None"
proof -
  obtain ev where ev: "demo_pipeline (demo_log demo_data) = Some ev" using demo_deposit_event by blast
  from pipeline_events_well_formed [OF ev [unfolded demo_pipeline_def] demo_vaa_amounts] show ?thesis using ev by auto
qed

lemma shipped_rule_on_a_deposit_witness:
  "\<exists>ev. demo_pipeline (demo_log demo_data) = Some ev \<and> Amount ev = ''5'' \<and> length (Evaluate demo_gen 0 shipped_rules ev) = 1"
proof -
  obtain ev where ev: "demo_pipeline (demo_log demo_data) = Some ev" "EventTy ev = EventBridgeDeposit"
    using demo_deposit_event by blast
  have len: "length (log_Data (demo_log demo_data)) < 2 ^ 63" by (simp add: demo_log_simps)
  have p: "payload_bytes (log_Data (demo_log demo_data)) = demo_payload"
    using abi_payload(3) [of demo_payload] by (simp add: demo_log_simps demo_data_def)
  have "WormholeChainID demo_vaa 1 = ''solana''" "f64_of_int 50000 < f64_of_int 5 * f64_of_int 20000" "Itoa 5 = ''5''" by code_simp+
  then show ?thesis
    using shipped_rule_on_a_deposit [OF ev(1) [unfolded demo_pipeline_def] ev(2) demo_vaa_amounts len, of demo_gen 0] ev(1)
    by (simp add: p demo_transfer(2))
qed



lemma pipeline_refines_functions_witness:
  "\<exists>(acts :: unit wact list) s. wsteps (Enricher.New demo_feeds 1 demo_tel) (Enricher.Run (Enricher.New demo_feeds 1 demo_tel)
      (fst (Normalizer_Run demo_tel calm demo_raws))) acts s \<and> finished s \<and> length (pl_out s) = 1 \<and>
    (\<exists>answers :: (unit + float64) list. length answers = 1 \<and>
      lo_out (Engine_Run.Run (Engine_Run.New shipped_rules demo_cfg demo_tel) calm (zip [demo_round] (pl_out s))) =
      pipeline_signals demo_tel demo_feeds (Engine_Run.New shipped_rules demo_cfg demo_tel) [demo_round] answers demo_raws)"
proof -
  let ?e = "Enricher.New demo_feeds 1 demo_tel"
  have e: "en_tel ?e = demo_tel" "en_reg ?e = demo_feeds" "en_workers ?e = 1" by (simp_all add: Enricher.New_def)
  have n: "length (normalized demo_tel demo_raws) = 1"
    by (simp add: normalized_def demo_raws_def demo_raw_event_def processNormalize_def demo_tel_def Normalize_eq event_keys_def event_types
        data_get_def)
  then obtain x where x: "normalized demo_tel demo_raws = [x]" by (auto simp: length_Suc_conv)
  have f: "fst (Normalizer_Run demo_tel calm demo_raws) = [x]" by (simp add: Normalizer_Run_def normalizer_run_calm x)
  let ?acts = "[Take 0, Enrich 0 (Inl ()), Send 0, Quit 0] :: unit wact list"
  let ?s = "\<lparr>pl_in = [], pl_workers = [wstate.Returned], pl_out = [processEvent demo_tel demo_feeds x (Inl () :: unit + float64)],
    pl_cancelled = False\<rparr>"
  have "wexecs ?e (Enricher.Run ?e [x]) ?acts = Some ?s"
    by (simp add: Enricher.Run_def e worker_at_def set_worker_def)
  then have run: "wsteps ?e (Enricher.Run ?e (fst (Normalizer_Run (en_tel ?e) calm demo_raws))) ?acts ?s"
    unfolding e f by (rule wexecs_run)
  have c: "\<not> pl_cancelled ?s" and fin: "finished ?s" by (simp_all add: finished_def)
  have out: "length (pl_out ?s) = 1" by simp
  from pipeline_refines_functions [OF run e(3) c fin, of "Engine_Run.New shipped_rules demo_cfg demo_tel" "[demo_round]",
      unfolded e Let_def n]
  show ?thesis using run [unfolded e] fin out by blast
qed

lemma started_program_has_bounded_windows_witness:
  "\<exists>(pg :: (unit, unit) program) (cfg :: Config) w. startup demo_eth demo_vaa (\<lambda>_ c. c) (demo_host\<lparr>ho_rules := Inr shipped_rules\<rparr>) = Inr pg \<and>
     map_of (cr_windows (eg_correlator (pg_engine pg))) EventTokenApproval = Some w \<and> Size w \<le> MaxWindowSize (cf_Engine cfg)"
proof -
  have l: "LoadRules (Inr shipped_rules) = Inr shipped_rules" by (simp add: LoadRules_Inr check_sequences_ok shipped_rules_def)
  then obtain pg :: "(unit, unit) program" where pg: "startup demo_eth demo_vaa (\<lambda>_ c. c) (demo_host\<lparr>ho_rules := Inr shipped_rules\<rparr>) = Inr pg"
    using demo_startup_rules by blast
  then obtain cfg where "eg_correlator (pg_engine pg) = NewCorrelator (rc_Correlations shipped_rules) cfg True"
    by (auto simp: startup_eq bind_sum_Inr l Engine_Run.New_def)
  then have "EventTokenApproval \<in> fst ` set (cr_windows (eg_correlator (pg_engine pg)))"
    using NewCorrelator_windows [of cfg True "rc_Correlations shipped_rules"] by (simp add: shipped_rules_def event_types)
  then have "map_of (cr_windows (eg_correlator (pg_engine pg))) EventTokenApproval \<noteq> None" by (simp add: map_of_eq_None_iff)
  then obtain w where w: "map_of (cr_windows (eg_correlator (pg_engine pg))) EventTokenApproval = Some w" by blast
  have "csteps demo_gen (Correlator_Runs.start 0 (eg_correlator (pg_engine pg))) [] (Correlator_Runs.start 0 (eg_correlator (pg_engine pg)))"
    by (rule csteps.intros(1))
  from started_program_has_bounded_windows [OF pg this, unfolded start_simps, OF w] show ?thesis using pg w by blast
qed

end
